(* ===== verification/Prelude.thy ===== *)
theory Prelude
  imports Main "HOL-Library.Word"
begin

text \<open>
  Shared vocabulary of the development: machine integers and byte strings, Rust's
  \<open>std::cmp::Ordering\<close> with \<open>then_with\<close>, lexicographic comparison of sequences, the
  result type of fallible operations, big-endian integer fields, and the interface
  \<open>order_encoding\<close> of an order-preserving, prefix-free byte encoding, with the facts a
  client of such an encoding uses.
\<close>

unbundle bit_operations_syntax

section \<open>Machine integers and byte strings\<close>

type_synonym u8 = "8 word"
type_synonym u16 = "16 word"
type_synonym u32 = "32 word"
type_synonym u64 = "64 word"

text \<open>An \<open>i64\<close> is the same 64 bits, read through \<open>sint\<close>.\<close>

type_synonym i64 = "64 word"
type_synonym bytes = "8 word list"

named_theorems cmp_simps \<open>rewrite rules on comparison results\<close>
named_theorems ord_enc \<open>order-preservation facts of byte encoders\<close>

section \<open>Comparison results\<close>

datatype ordering = Less | Equal | Greater

fun then_with :: "ordering \<Rightarrow> ordering \<Rightarrow> ordering" where
  "then_with Equal b = b"
| "then_with Less b = Less"
| "then_with Greater b = Greater"

fun reverse_ord :: "ordering \<Rightarrow> ordering" where
  "reverse_ord Less = Greater"
| "reverse_ord Equal = Equal"
| "reverse_ord Greater = Less"

definition cmp_of :: "'a::linorder \<Rightarrow> 'a \<Rightarrow> ordering" where
  "cmp_of x y = (if x < y then Less else if x = y then Equal else Greater)"

lemma then_with_assoc [cmp_simps]:
  "then_with (then_with a b) c = then_with a (then_with b c)"
  by (cases a) simp_all

lemma then_with_Equal2 [simp]: "then_with a Equal = a"
  by (cases a) simp_all

lemma then_with_eq_Equal [simp]: "then_with a b = Equal \<longleftrightarrow> a = Equal \<and> b = Equal"
  by (cases a) simp_all

lemma then_with_eq_Less: "then_with a b = Less \<longleftrightarrow> a = Less \<or> (a = Equal \<and> b = Less)"
  by (cases a) simp_all

lemma then_with_eq_Greater:
  "then_with a b = Greater \<longleftrightarrow> a = Greater \<or> (a = Equal \<and> b = Greater)"
  by (cases a) simp_all

lemma reverse_then_with [simp]:
  "reverse_ord (then_with a b) = then_with (reverse_ord a) (reverse_ord b)"
  by (cases a) simp_all

lemma reverse_reverse [simp]: "reverse_ord (reverse_ord a) = a"
  by (cases a) simp_all

lemma reverse_ord_eq [simp]:
  "reverse_ord a = Less \<longleftrightarrow> a = Greater"
  "reverse_ord a = Equal \<longleftrightarrow> a = Equal"
  "reverse_ord a = Greater \<longleftrightarrow> a = Less"
  by (cases a; simp)+

lemma cmp_of_refl [simp]: "cmp_of x x = Equal"
  by (simp add: cmp_of_def)

lemma cmp_of_eq [simp]:
  "cmp_of x y = Less \<longleftrightarrow> x < y"
  "cmp_of x y = Equal \<longleftrightarrow> x = y"
  "cmp_of x y = Greater \<longleftrightarrow> y < x"
  by (auto simp: cmp_of_def)

lemma cmp_of_bool [simp]: "cmp_of False True = Less" "cmp_of True False = Greater"
  by (simp_all add: cmp_of_def)

lemma reverse_cmp_of [simp]: "reverse_ord (cmp_of x y) = cmp_of y x"
  by (auto simp: cmp_of_def)

lemma cmp_of_mono:
  assumes "\<And>x y. (f x < f y) = (x < y)"
  shows "cmp_of (f x) (f y) = cmp_of x y"
  using assms by (auto simp: cmp_of_def) (metis neq_iff)

section \<open>Lexicographic comparison\<close>

fun lex_cmp :: "('a \<Rightarrow> 'a \<Rightarrow> ordering) \<Rightarrow> 'a list \<Rightarrow> 'a list \<Rightarrow> ordering" where
  "lex_cmp c [] [] = Equal"
| "lex_cmp c [] (y # ys) = Less"
| "lex_cmp c (x # xs) [] = Greater"
| "lex_cmp c (x # xs) (y # ys) = then_with (c x y) (lex_cmp c xs ys)"

text \<open>The order of \<open>Vec<u8>\<close> keys: \<open>memcmp\<close>, the shorter of two equal prefixes first.\<close>

definition bytes_cmp :: "bytes \<Rightarrow> bytes \<Rightarrow> ordering" where
  "bytes_cmp = lex_cmp cmp_of"

lemma bytes_cmp_simps [simp]:
  "bytes_cmp [] [] = Equal"
  "bytes_cmp [] (y # ys) = Less"
  "bytes_cmp (x # xs) [] = Greater"
  "bytes_cmp (x # xs) (y # ys) = then_with (cmp_of x y) (bytes_cmp xs ys)"
  by (simp_all add: bytes_cmp_def)

lemma bytes_cmp_refl [simp]: "bytes_cmp xs xs = Equal"
  by (induction xs) simp_all

lemma bytes_cmp_same_prefix [simp]: "bytes_cmp (p @ xs) (p @ ys) = bytes_cmp xs ys"
  by (induction p) simp_all

lemma bytes_cmp_Equal [simp]: "bytes_cmp xs ys = Equal \<longleftrightarrow> xs = ys"
proof (induction xs arbitrary: ys)
  case Nil
  then show ?case by (cases ys) simp_all
next
  case (Cons x xs)
  then show ?case by (cases ys) simp_all
qed

lemma bytes_cmp_reverse [simp]: "reverse_ord (bytes_cmp xs ys) = bytes_cmp ys xs"
proof (induction xs arbitrary: ys)
  case Nil
  then show ?case by (cases ys) simp_all
next
  case (Cons x xs)
  then show ?case by (cases ys) simp_all
qed

lemma bytes_cmp_trans_Less:
  "bytes_cmp xs ys = Less \<Longrightarrow> bytes_cmp ys zs = Less \<Longrightarrow> bytes_cmp xs zs = Less"
proof (induction xs arbitrary: ys zs)
  case Nil
  then show ?case by (cases ys; cases zs) simp_all
next
  case (Cons x xs)
  then show ?case
    by (cases ys; cases zs) (auto simp: then_with_eq_Less)
qed

lemma bytes_cmp_append_eq_length:
  "length xs = length ys \<Longrightarrow> bytes_cmp (xs @ r) (ys @ s) = then_with (bytes_cmp xs ys) (bytes_cmp r s)"
  by (induction xs ys rule: list_induct2) (simp_all add: then_with_assoc)

text \<open>The comparison as the Boolean orders a range scan uses.\<close>

definition bytes_less :: "bytes \<Rightarrow> bytes \<Rightarrow> bool" where
  "bytes_less a b \<longleftrightarrow> bytes_cmp a b = Less"

definition bytes_le :: "bytes \<Rightarrow> bytes \<Rightarrow> bool" where
  "bytes_le a b \<longleftrightarrow> bytes_cmp a b \<noteq> Greater"

lemma bytes_le_iff: "bytes_le a b \<longleftrightarrow> bytes_less a b \<or> a = b"
  unfolding bytes_le_def bytes_less_def
  by (cases "bytes_cmp a b") auto

lemma bytes_less_irrefl [simp]: "\<not> bytes_less a a"
  by (simp add: bytes_less_def)

lemma bytes_le_refl [simp]: "bytes_le a a"
  by (simp add: bytes_le_def)

lemma bytes_less_trans: "bytes_less a b \<Longrightarrow> bytes_less b c \<Longrightarrow> bytes_less a c"
  unfolding bytes_less_def by (rule bytes_cmp_trans_Less)

lemma bytes_not_le [simp]: "\<not> bytes_le a b \<longleftrightarrow> bytes_less b a"
  unfolding bytes_le_def bytes_less_def
  by (metis bytes_cmp_reverse reverse_ord_eq(1))

lemma bytes_not_less [simp]: "\<not> bytes_less a b \<longleftrightarrow> bytes_le b a"
  by (metis bytes_not_le)

lemma bytes_le_less_trans: "bytes_le a b \<Longrightarrow> bytes_less b c \<Longrightarrow> bytes_less a c"
  by (auto simp: bytes_le_iff intro: bytes_less_trans)

lemma bytes_less_le_trans: "bytes_less a b \<Longrightarrow> bytes_le b c \<Longrightarrow> bytes_less a c"
  by (auto simp: bytes_le_iff intro: bytes_less_trans)

lemma bytes_le_trans: "bytes_le a b \<Longrightarrow> bytes_le b c \<Longrightarrow> bytes_le a c"
  by (auto simp: bytes_le_iff intro: bytes_less_trans)

lemma bytes_less_imp_le: "bytes_less a b \<Longrightarrow> bytes_le a b"
  by (simp add: bytes_le_iff)

lemma bytes_less_asym: "bytes_less a b \<Longrightarrow> \<not> bytes_less b a"
  by (metis bytes_less_irrefl bytes_less_trans)

lemma bytes_le_antisym: "bytes_le a b \<Longrightarrow> bytes_le b a \<Longrightarrow> a = b"
  by (metis bytes_le_iff bytes_less_asym)

section \<open>Total comparisons\<close>

text \<open>
  What an \<open>Ord\<close> implementation promises: swapping the sides reverses the result, a
  result of \<open>Equal\<close> means the two are interchangeable on the left of any further
  comparison, and \<open>Less\<close> is transitive.  \<open>cmp_law c x\<close> states it for one left operand,
  which is the form structural induction needs.
\<close>

definition cmp_law :: "('a \<Rightarrow> 'a \<Rightarrow> ordering) \<Rightarrow> 'a \<Rightarrow> bool" where
  "cmp_law c x \<longleftrightarrow> c x x = Equal \<and> (\<forall>y. c y x = reverse_ord (c x y)) \<and>
     (\<forall>y z. c x y = Equal \<longrightarrow> c y z = c x z) \<and>
     (\<forall>y z. c x y = Less \<longrightarrow> c y z \<noteq> Greater \<longrightarrow> c x z = Less)"

lemma cmp_lawD:
  assumes "cmp_law c x"
  shows cmp_law_refl: "c x x = Equal"
    and cmp_law_dual: "c y x = reverse_ord (c x y)"
    and cmp_law_cong: "c x y = Equal \<Longrightarrow> c y z = c x z"
    and cmp_law_trans: "c x y = Less \<Longrightarrow> c y z \<noteq> Greater \<Longrightarrow> c x z = Less"
  using assms unfolding cmp_law_def by blast+

lemma cmp_lawI:
  assumes "c x x = Equal" "\<And>y. c y x = reverse_ord (c x y)"
    "\<And>y z. c x y = Equal \<Longrightarrow> c y z = c x z"
    "\<And>y z. c x y = Less \<Longrightarrow> c y z \<noteq> Greater \<Longrightarrow> c x z = Less"
  shows "cmp_law c x"
  using assms unfolding cmp_law_def by blast

locale comparison =
  fixes cmp :: "'a \<Rightarrow> 'a \<Rightarrow> ordering"
  assumes law: "cmp_law cmp x"
begin

lemmas cmp_refl = cmp_law_refl[OF law]
lemmas cmp_dual = cmp_law_dual[OF law]
lemmas cmp_Equal_cong = cmp_law_cong[OF law]
lemmas cmp_Less_trans = cmp_law_trans[OF law]

lemma cmp_Less_iff_Greater: "cmp x y = Less \<longleftrightarrow> cmp y x = Greater"
  using cmp_dual[of y x] by (cases "cmp x y") simp_all

lemma cmp_le_trans: "cmp x y \<noteq> Greater \<Longrightarrow> cmp y z \<noteq> Greater \<Longrightarrow> cmp x z \<noteq> Greater"
  using cmp_Less_trans[of x y z] cmp_Equal_cong[of x y z] by (cases "cmp x y") simp_all

lemma cmp_total: "cmp x y \<noteq> Greater \<or> cmp y x \<noteq> Greater"
  using cmp_dual[of y x] by (cases "cmp x y") simp_all

end

lemma comparison_iff: "comparison c \<longleftrightarrow> (\<forall>x. cmp_law c x)"
  by (auto simp: comparison_def)

lemma cmp_law_lex:
  assumes "\<forall>x \<in> set xs. cmp_law c x"
  shows "cmp_law (lex_cmp c) xs"
  using assms
proof (induction xs)
  case Nil
  show ?case
  proof (rule cmp_lawI)
    fix ys zs
    show "lex_cmp c ys [] = reverse_ord (lex_cmp c [] ys)" by (cases ys) simp_all
    show "lex_cmp c [] ys = Equal \<Longrightarrow> lex_cmp c ys zs = lex_cmp c [] zs" by (cases ys) simp_all
    show "lex_cmp c [] ys = Less \<Longrightarrow> lex_cmp c ys zs \<noteq> Greater \<Longrightarrow> lex_cmp c [] zs = Less"
      by (cases ys; cases zs) simp_all
  qed simp
next
  case (Cons x xs)
  then have l: "cmp_law c x" "cmp_law (lex_cmp c) xs" by simp_all
  show ?case
  proof (rule cmp_lawI)
    show "lex_cmp c (x # xs) (x # xs) = Equal"
      using cmp_law_refl[OF l(1)] cmp_law_refl[OF l(2)] by simp
    fix ys zs
    show "lex_cmp c ys (x # xs) = reverse_ord (lex_cmp c (x # xs) ys)"
    proof (cases ys)
      case (Cons y ys')
      then show ?thesis using cmp_law_dual[OF l(1), of y] cmp_law_dual[OF l(2), of ys'] by simp
    qed simp
    show "lex_cmp c ys zs = lex_cmp c (x # xs) zs" if "lex_cmp c (x # xs) ys = Equal"
    proof (cases ys)
      case (Cons y ys')
      then show ?thesis
        using that cmp_law_cong[OF l(1), of y] cmp_law_cong[OF l(2), of ys'] by (cases zs) simp_all
    qed (use that in simp)
    show "lex_cmp c (x # xs) zs = Less"
      if xy: "lex_cmp c (x # xs) ys = Less" and yz: "lex_cmp c ys zs \<noteq> Greater"
    proof (cases ys)
      case (Cons y ys')
      then obtain z zs' where zs: "zs = z # zs'" using yz by (cases zs) simp_all
      from xy Cons consider "c x y = Less" | "c x y = Equal" "lex_cmp c xs ys' = Less"
        by (auto simp: then_with_eq_Less)
      then show ?thesis
      proof cases
        case 1
        moreover have "c y z \<noteq> Greater" using yz Cons zs by auto
        ultimately show ?thesis using cmp_law_trans[OF l(1)] zs by simp
      next
        case 2
        then show ?thesis
          using cmp_law_cong[OF l(1) 2(1), of z] cmp_law_trans[OF l(2) 2(2)] yz Cons zs
          by (cases "c x z") simp_all
      qed
    qed (use xy in simp)
  qed
qed

lemma comparison_lex: "comparison c \<Longrightarrow> comparison (lex_cmp c)"
  unfolding comparison_iff by (blast intro: cmp_law_lex)

lemma comparison_cmp_of: "comparison cmp_of"
  unfolding comparison_iff by (auto intro!: cmp_lawI simp: cmp_of_def split: if_splits)

lemma comparison_key: "comparison c \<Longrightarrow> comparison (\<lambda>x y. c (f x) (f y))"
  unfolding comparison_iff cmp_law_def by blast

lemma cmp_law_then:
  assumes c: "cmp_law c x" and d: "cmp_law d x"
  shows "cmp_law (\<lambda>x y. then_with (c x y) (d x y)) x"
proof (rule cmp_lawI)
  show "then_with (c x x) (d x x) = Equal"
    using cmp_law_refl[OF c] cmp_law_refl[OF d] by simp
  fix y z
  show "then_with (c y x) (d y x) = reverse_ord (then_with (c x y) (d x y))"
    using cmp_law_dual[OF c, of y] cmp_law_dual[OF d, of y] by simp
  show "then_with (c y z) (d y z) = then_with (c x z) (d x z)"
    if "then_with (c x y) (d x y) = Equal"
    using that cmp_law_cong[OF c, of y z] cmp_law_cong[OF d, of y z] by simp
  show "then_with (c x z) (d x z) = Less"
    if xy: "then_with (c x y) (d x y) = Less" and yz: "then_with (c y z) (d y z) \<noteq> Greater"
  proof (cases "c x y")
    case Less
    moreover have "c y z \<noteq> Greater" using yz by auto
    ultimately show ?thesis using cmp_law_trans[OF c] by simp
  next
    case Equal
    then show ?thesis
      using cmp_law_cong[OF c Equal, of z] cmp_law_trans[OF d, of y z] xy yz
      by (cases "c x z") simp_all
  qed (use xy in simp)
qed

lemma comparison_then:
  "comparison c \<Longrightarrow> comparison d \<Longrightarrow> comparison (\<lambda>x y. then_with (c x y) (d x y))"
  unfolding comparison_iff by (blast intro: cmp_law_then)

interpretation bytes_order: comparison bytes_cmp
  unfolding bytes_cmp_def by (intro comparison_lex comparison_cmp_of)

section \<open>Big-endian integer fields\<close>

fun be_bytes :: "nat \<Rightarrow> nat \<Rightarrow> bytes" where
  "be_bytes 0 n = []"
| "be_bytes (Suc w) n = of_nat (n div 256 ^ w) # be_bytes w (n mod 256 ^ w)"

definition be_read :: "bytes \<Rightarrow> nat" where
  "be_read bs = foldl (\<lambda>acc b. acc * 256 + unat b) 0 bs"

lemma length_be_bytes [simp]: "length (be_bytes w n) = w"
  by (induction w arbitrary: n) simp_all

lemma foldl_be_read: "foldl (\<lambda>acc b. acc * 256 + unat b) a (bs :: bytes) = a * 256 ^ length bs + be_read bs"
proof (induction bs arbitrary: a)
  case Nil
  then show ?case by (simp add: be_read_def)
next
  case (Cons b bs)
  have "be_read (b # bs) = unat b * 256 ^ length bs + be_read bs"
    using Cons[of "unat b"] by (simp add: be_read_def)
  then show ?case using Cons[of "a * 256 + unat b"] by (simp add: algebra_simps)
qed

lemma be_read_Cons [simp]: "be_read (b # bs) = unat b * 256 ^ length bs + be_read bs"
  using foldl_be_read[of "unat b" bs] by (simp add: be_read_def)

lemma be_read_Nil [simp]: "be_read [] = 0"
  by (simp add: be_read_def)

lemma unat_of_nat_byte: "n < 256 \<Longrightarrow> unat (of_nat n :: u8) = n"
  by (simp add: unat_of_nat)

lemma be_read_be_bytes [simp]: "n < 256 ^ w \<Longrightarrow> be_read (be_bytes w n) = n"
proof (induction w arbitrary: n)
  case 0
  then show ?case by simp
next
  case (Suc w)
  have "n div 256 ^ w < 256"
    using Suc.prems by (simp add: less_mult_imp_div_less mult.commute)
  then show ?case
    using Suc.IH[of "n mod 256 ^ w"] by (simp add: unat_of_nat_byte div_mult_mod_eq)
qed

lemma cmp_of_add_left: "cmp_of (k + a) (k + b) = cmp_of a (b :: nat)"
  by (simp add: cmp_of_def)

lemma cmp_of_div_mod:
  "then_with (cmp_of (m div p) (n div p)) (cmp_of (m mod p) (n mod p)) = cmp_of m (n :: nat)"
proof -
  consider "m div p < n div p" | "m div p = n div p" | "n div p < m div p"
    by linarith
  then show ?thesis
  proof cases
    case 1
    then have "m < n" by (meson div_le_mono not_le)
    with 1 show ?thesis by (simp add: cmp_of_def)
  next
    case 2
    have "m = p * (n div p) + m mod p" "n = p * (n div p) + n mod p"
      using 2 by (metis mult_div_mod_eq)+
    then have "cmp_of m n = cmp_of (m mod p) (n mod p)"
      by (metis cmp_of_add_left)
    with 2 show ?thesis by simp
  next
    case 3
    then have "n < m" by (meson div_le_mono not_le)
    with 3 show ?thesis by (simp add: cmp_of_def)
  qed
qed

lemma be_bytes_cmp:
  assumes "m < 256 ^ w" "n < 256 ^ w"
  shows "bytes_cmp (be_bytes w m) (be_bytes w n) = cmp_of m n"
  using assms
proof (induction w arbitrary: m n)
  case 0
  then show ?case by simp
next
  case (Suc w)
  let ?p = "256 ^ w :: nat"
  have lt: "m div ?p < 256" "n div ?p < 256"
    using Suc.prems by (simp_all add: less_mult_imp_div_less mult.commute)
  have IH: "bytes_cmp (be_bytes w (m mod ?p)) (be_bytes w (n mod ?p)) = cmp_of (m mod ?p) (n mod ?p)"
    by (rule Suc.IH) simp_all
  have hd: "cmp_of (of_nat (m div ?p) :: u8) (of_nat (n div ?p)) = cmp_of (m div ?p) (n div ?p)"
    using lt unat_of_nat_byte[OF lt(1)] unat_of_nat_byte[OF lt(2)]
    by (auto simp: cmp_of_def word_less_nat_alt word_unat_eq_iff)
  show ?case using IH hd cmp_of_div_mod[of m ?p n] by simp
qed

lemma unat_u64_bound [simp]: "unat (u :: u64) < 18446744073709551616"
  using unsigned_less[of u, where 'a = nat] by simp

text \<open>The 8-byte field written by \<open>write_u64::<BigEndian>\<close>, and its reader.\<close>

definition write_u64 :: "u64 \<Rightarrow> bytes" where
  "write_u64 u = be_bytes 8 (unat u)"

definition read_u64 :: "bytes \<Rightarrow> u64" where
  "read_u64 bs = of_nat (be_read bs)"

lemma length_write_u64 [simp]: "length (write_u64 u) = 8"
  by (simp add: write_u64_def)

lemma read_write_u64 [simp]: "read_u64 (write_u64 u) = u"
  by (simp add: read_u64_def write_u64_def)

lemma write_u64_cmp [simp]: "bytes_cmp (write_u64 u) (write_u64 v) = cmp_of u v"
  unfolding write_u64_def
  by (subst be_bytes_cmp) (simp_all add: cmp_of_def word_less_nat_alt word_unat_eq_iff)

section \<open>Order-preserving encodings\<close>

text \<open>
  The contract of a byte encoder used for storage keys: on the values of its domain,
  comparing two encodings as bytes, whatever follows them, first compares the values and
  only on a tie looks at what follows.  This one law gives order preservation,
  injectivity up to the comparison, and prefix-freeness, and it composes: fields of a
  tuple are encoded one after the other.
\<close>

locale order_encoding =
  fixes enc :: "'a \<Rightarrow> bytes"
    and cmp :: "'a \<Rightarrow> 'a \<Rightarrow> ordering"
    and dom_ok :: "'a \<Rightarrow> bool"
  assumes enc_cmp: "dom_ok x \<Longrightarrow> dom_ok y \<Longrightarrow>
    bytes_cmp (enc x @ r) (enc y @ s) = then_with (cmp x y) (bytes_cmp r s)"
begin

lemma enc_order: "dom_ok x \<Longrightarrow> dom_ok y \<Longrightarrow> bytes_cmp (enc x) (enc y) = cmp x y"
  using enc_cmp[of x y "[]" "[]"] by simp

lemma enc_eq_iff: "dom_ok x \<Longrightarrow> dom_ok y \<Longrightarrow> enc x = enc y \<longleftrightarrow> cmp x y = Equal"
  using enc_order[of x y] bytes_cmp_Equal[of "enc x" "enc y"] by simp

lemma enc_prefix_free:
  assumes "dom_ok x" "dom_ok y" "enc x @ r = enc y @ s"
  shows "enc x = enc y \<and> r = s"
proof -
  have "bytes_cmp (enc x @ r) (enc y @ s) = Equal"
    using assms(3) by (simp only: bytes_cmp_Equal)
  then have "cmp x y = Equal" "bytes_cmp r s = Equal"
    unfolding enc_cmp[OF assms(1,2)] by simp_all
  then show ?thesis by (simp only: enc_eq_iff[OF assms(1,2)] bytes_cmp_Equal simp_thms)
qed

lemma enc_seq_cmp:
  assumes "\<forall>x \<in> set xs. dom_ok x" "\<forall>y \<in> set ys. dom_ok y" "length xs = length ys"
  shows "bytes_cmp (concat (map enc xs) @ r) (concat (map enc ys) @ s)
    = then_with (lex_cmp cmp xs ys) (bytes_cmp r s)"
  using assms(3,1,2)
proof (induction xs ys arbitrary: r s rule: list_induct2)
  case Nil
  then show ?case by simp
next
  case (Cons x xs y ys)
  then show ?case
    using enc_cmp[of x y "concat (map enc xs) @ r" "concat (map enc ys) @ s"]
    by (simp add: then_with_assoc)
qed

end

lemma order_encoding_by_key:
  assumes "\<And>x y. dom_ok x \<Longrightarrow> dom_ok y \<Longrightarrow> length (enc x) = length (enc y)"
    and "\<And>x y. dom_ok x \<Longrightarrow> dom_ok y \<Longrightarrow> bytes_cmp (enc x) (enc y) = cmp x y"
  shows "order_encoding enc cmp dom_ok"
proof unfold_locales
  fix x y r s assume "dom_ok x" "dom_ok y"
  then show "bytes_cmp (enc x @ r) (enc y @ s) = then_with (cmp x y) (bytes_cmp r s)"
    using bytes_cmp_append_eq_length[OF assms(1)] assms(2) by simp
qed

interpretation u64_enc: order_encoding write_u64 cmp_of "\<lambda>_. True"
  by (rule order_encoding_by_key) simp_all

lemma set_map_filter: "set (List.map_filter f xs) = {y. \<exists>x \<in> set xs. f x = Some y}"
  by (induction xs) (auto simp: map_filter_simps split: option.splits)

end
