(* ===== verification/Floats.thy ===== *)
theory Floats
  imports Prelude
begin

text \<open>
  The part of Rust's floating-point semantics the database relies on, over bit patterns:
  an \<open>f64\<close> is the 64 bits \<open>to_bits\<close> gives.  Modelled are \<open>total_cmp\<close>, the IEEE
  comparisons, \<open>is_nan\<close>, \<open>is_sign_positive\<close>, the test \<open>f.round() == f\<close>, and the two casts
  \<open>i as f64\<close> (round to nearest, ties to even) and \<open>f as i64\<close> (truncate, saturate, NaN to
  0).  The lemmas are the facts that make integers and floats share one storage order:
  the cast to \<open>f64\<close> is monotone, and below \<open>2 ^ 53\<close> it is exact and undone by the cast back.
\<close>

section \<open>Bit patterns\<close>

datatype f64 = F64 (to_bits: u64)
datatype f32 = F32 (to_bits32: u32)

definition f64_sign :: "f64 \<Rightarrow> bool" where
  "f64_sign f \<longleftrightarrow> 2 ^ 63 \<le> unat (to_bits f)"

definition f64_mag :: "f64 \<Rightarrow> nat" where
  "f64_mag f = unat (to_bits f) mod 2 ^ 63"

definition is_sign_positive :: "f64 \<Rightarrow> bool" where
  "is_sign_positive f \<longleftrightarrow> \<not> f64_sign f"

definition f64_is_nan :: "f64 \<Rightarrow> bool" where
  "f64_is_nan f \<longleftrightarrow> 2047 * 2 ^ 52 < f64_mag f"

section \<open>Comparisons\<close>

definition total_key :: "f64 \<Rightarrow> int" where
  "total_key f = (if f64_sign f then - int (f64_mag f) - 1 else int (f64_mag f))"

definition total_cmp :: "f64 \<Rightarrow> f64 \<Rightarrow> ordering" where
  "total_cmp a b = cmp_of (total_key a) (total_key b)"

definition ieee_key :: "f64 \<Rightarrow> int" where
  "ieee_key f = (if f64_sign f then - int (f64_mag f) else int (f64_mag f))"

definition f64_lt :: "f64 \<Rightarrow> f64 \<Rightarrow> bool" where
  "f64_lt a b \<longleftrightarrow> \<not> f64_is_nan a \<and> \<not> f64_is_nan b \<and> ieee_key a < ieee_key b"

definition f64_le :: "f64 \<Rightarrow> f64 \<Rightarrow> bool" where
  "f64_le a b \<longleftrightarrow> \<not> f64_is_nan a \<and> \<not> f64_is_nan b \<and> ieee_key a \<le> ieee_key b"

definition f64_eq :: "f64 \<Rightarrow> f64 \<Rightarrow> bool" where
  "f64_eq a b \<longleftrightarrow> \<not> f64_is_nan a \<and> \<not> f64_is_nan b \<and> ieee_key a = ieee_key b"

text \<open>\<open>partial_cmp\<close>: undefined as soon as one side is NaN.\<close>

definition f64_partial_cmp :: "f64 \<Rightarrow> f64 \<Rightarrow> ordering option" where
  "f64_partial_cmp a b =
     (if f64_is_nan a \<or> f64_is_nan b then None else Some (cmp_of (ieee_key a) (ieee_key b)))"

definition f64_infinity :: f64 where
  "f64_infinity = F64 0x7FF0000000000000"

section \<open>Casts\<close>

fun ilog2 :: "nat \<Rightarrow> nat" where
  "ilog2 n = (if n < 2 then 0 else Suc (ilog2 (n div 2)))"

declare ilog2.simps [simp del]

text \<open>Magnitude bits of the \<open>f64\<close> nearest to \<open>n\<close>: exponent field and 53-bit significand,
  whose carry into the exponent is the addition.\<close>

definition round_half_even :: "nat \<Rightarrow> nat \<Rightarrow> nat" where
  "round_half_even n s =
     (let q = n div 2 ^ s; r = n mod 2 ^ s; half = 2 ^ (s - 1)
      in if half < r \<or> (r = half \<and> odd q) then q + 1 else q)"

definition nat_f64_mag :: "nat \<Rightarrow> nat" where
  "nat_f64_mag n =
     (if n = 0 then 0
      else let e = ilog2 n
           in (e + 1022) * 2 ^ 52 +
              (if e \<le> 52 then n * 2 ^ (52 - e) else round_half_even n (e - 52)))"

definition i64_as_f64 :: "i64 \<Rightarrow> f64" where
  "i64_as_f64 i =
     (if sint i < 0 then F64 (of_nat (2 ^ 63 + nat_f64_mag (nat (- sint i))))
      else F64 (of_nat (nat_f64_mag (nat (sint i)))))"

text \<open>Integer part of the magnitude of a finite \<open>f64\<close>.\<close>

definition f64_trunc_mag :: "f64 \<Rightarrow> nat" where
  "f64_trunc_mag f =
     (let e = f64_mag f div 2 ^ 52; m = 2 ^ 52 + f64_mag f mod 2 ^ 52
      in if e < 1023 then 0
         else if e \<le> 1075 then m div 2 ^ (1075 - e)
         else m * 2 ^ (e - 1075))"

definition f64_as_i64 :: "f64 \<Rightarrow> i64" where
  "f64_as_i64 f =
     (if f64_is_nan f then 0
      else let v = (if f64_mag f = 2047 * 2 ^ 52 then 2 ^ 64 else int (f64_trunc_mag f));
               w = (if f64_sign f then - v else v)
           in of_int (max (- (2 ^ 63)) (min (2 ^ 63 - 1) w)))"

text \<open>\<open>f.round() == f\<close>\<close>

definition f64_is_integral :: "f64 \<Rightarrow> bool" where
  "f64_is_integral f =
     (let e = f64_mag f div 2 ^ 52; m = 2 ^ 52 + f64_mag f mod 2 ^ 52
      in if f64_is_nan f then False
         else if e < 1023 then f64_mag f = 0
         else if e < 1075 then m mod 2 ^ (1075 - e) = 0
         else True)"

section \<open>Lemmas: sign, magnitude and the total order\<close>

lemma unat_bits_split: "unat (to_bits f) = (if f64_sign f then 2 ^ 63 else 0) + f64_mag f"
proof -
  have "unat (to_bits f) < 2 * 2 ^ 63"
    using unat_u64_bound[of "to_bits f"] by simp
  moreover have "n mod 2 ^ 63 = n - 2 ^ 63" if "2 ^ 63 \<le> n" "n < 2 * 2 ^ 63" for n :: nat
    using that by (simp add: mod_if)
  ultimately show ?thesis
    unfolding f64_sign_def f64_mag_def by auto
qed

lemma f64_mag_bound: "f64_mag f < 2 ^ 63"
  by (simp add: f64_mag_def)

lemma total_key_eq_iff: "total_key a = total_key b \<longleftrightarrow> a = b"
proof
  assume "total_key a = total_key b"
  then have "unat (to_bits a) = unat (to_bits b)"
    unfolding unat_bits_split total_key_def by (auto split: if_splits)
  then show "a = b" by (cases a; cases b) (simp add: word_unat_eq_iff)
qed simp

lemma total_cmp_Equal [simp]: "total_cmp a b = Equal \<longleftrightarrow> a = b"
  by (simp add: total_cmp_def total_key_eq_iff)

lemma ieee_key_total_key: "ieee_key f = (if total_key f < 0 then total_key f + 1 else total_key f)"
  by (simp add: ieee_key_def total_key_def)

lemma ieee_less_total: "ieee_key a < ieee_key b \<Longrightarrow> total_key a < total_key b"
  by (auto simp: ieee_key_total_key split: if_splits)

lemma total_le_ieee: "total_key a \<le> total_key b \<Longrightarrow> ieee_key a \<le> ieee_key b"
  by (auto simp: ieee_key_total_key split: if_splits)

lemma f64_of_mag:
  assumes "m < 2 ^ 63"
  shows "f64_sign (F64 (of_nat m)) = False" "f64_mag (F64 (of_nat m)) = m"
    "f64_sign (F64 (of_nat (2 ^ 63 + m))) = True" "f64_mag (F64 (of_nat (2 ^ 63 + m))) = m"
proof -
  have 1: "unat (of_nat m :: u64) = m" "unat (of_nat (2 ^ 63 + m) :: u64) = 2 ^ 63 + m"
    using assms by (simp_all only: unat_of_nat) simp_all
  show "f64_sign (F64 (of_nat m)) = False" "f64_mag (F64 (of_nat m)) = m"
    "f64_sign (F64 (of_nat (2 ^ 63 + m))) = True" "f64_mag (F64 (of_nat (2 ^ 63 + m))) = m"
    unfolding f64_sign_def f64_mag_def f64.sel 1 using assms by simp_all
qed

section \<open>Lemmas: the cast from integers is monotone\<close>

lemma ilog2_bounds: "0 < n \<Longrightarrow> 2 ^ ilog2 n \<le> n \<and> n < 2 ^ Suc (ilog2 n)"
proof (induction n rule: ilog2.induct)
  case (1 n)
  show ?case
  proof (cases "n < 2")
    case True
    then have "n = 1" using "1.prems" by simp
    then show ?thesis by (simp add: ilog2.simps)
  next
    case False
    then have "2 ^ ilog2 (n div 2) \<le> n div 2" "n div 2 < 2 ^ Suc (ilog2 (n div 2))"
      using "1.IH" by simp_all
    then show ?thesis using False by (simp add: ilog2.simps[of n]) linarith
  qed
qed

lemma ilog2_eqI: "2 ^ e \<le> n \<Longrightarrow> n < 2 ^ Suc e \<Longrightarrow> ilog2 n = e"
proof -
  assume a: "2 ^ e \<le> n" "n < 2 ^ Suc e"
  then have n: "0 < n" by (metis gr0I le_zero_eq power_not_zero zero_neq_numeral)
  from ilog2_bounds[OF n] a have "(2::nat) ^ e < 2 ^ Suc (ilog2 n)" "(2::nat) ^ ilog2 n < 2 ^ Suc e"
    by linarith+
  then have "e < Suc (ilog2 n)" "ilog2 n < Suc e"
    by (meson one_less_numeral_iff power_less_imp_less_exp semiring_norm(76))+
  then show ?thesis by simp
qed

lemma ilog2_mono: "0 < m \<Longrightarrow> m \<le> n \<Longrightarrow> ilog2 m \<le> ilog2 n"
proof (rule ccontr)
  assume "0 < m" "m \<le> n" "\<not> ilog2 m \<le> ilog2 n"
  then have "(2::nat) ^ Suc (ilog2 n) \<le> 2 ^ ilog2 m" by (intro power_increasing) simp_all
  then show False using ilog2_bounds[of m] ilog2_bounds[of n] \<open>0 < m\<close> \<open>m \<le> n\<close> by linarith
qed

lemma round_half_even_bounds:
  "n div 2 ^ s \<le> round_half_even n s" "round_half_even n s \<le> n div 2 ^ s + 1"
  by (simp_all add: round_half_even_def Let_def)

lemma round_half_even_mono:
  assumes "m \<le> n"
  shows "round_half_even m s \<le> round_half_even n s"
proof (cases "m div 2 ^ s = n div 2 ^ s")
  case True
  then have "m mod 2 ^ s \<le> n mod 2 ^ s"
    using assms by (metis add_le_cancel_left div_mult_mod_eq)
  with True show ?thesis by (auto simp: round_half_even_def Let_def)
next
  case False
  then have "m div 2 ^ s + 1 \<le> n div 2 ^ s"
    using div_le_mono[OF assms, of "2 ^ s"] by simp
  then show ?thesis
    using round_half_even_bounds[of m s] round_half_even_bounds[of n s] by linarith
qed

text \<open>The significand of a normalised magnitude lies between \<open>2 ^ 52\<close> and \<open>2 ^ 53\<close>.\<close>

lemma nat_f64_mag_bounds:
  assumes "0 < n"
  shows "(ilog2 n + 1023) * 2 ^ 52 \<le> nat_f64_mag n" "nat_f64_mag n \<le> (ilog2 n + 1024) * 2 ^ 52"
proof -
  let ?e = "ilog2 n"
  define sig where "sig = (if ?e \<le> 52 then n * 2 ^ (52 - ?e) else round_half_even n (?e - 52))"
  have b: "2 ^ ?e \<le> n" "n < 2 ^ Suc ?e" using ilog2_bounds[OF assms] by auto
  have "2 ^ 52 \<le> sig \<and> sig \<le> 2 ^ 53"
  proof (cases "?e \<le> 52")
    case True
    have "2 ^ ?e * 2 ^ (52 - ?e) \<le> n * 2 ^ (52 - ?e)" "n * 2 ^ (52 - ?e) \<le> 2 ^ Suc ?e * 2 ^ (52 - ?e)"
      using b by (intro mult_le_mono1; simp)+
    moreover have "(2::nat) ^ ?e * 2 ^ (52 - ?e) = 2 ^ 52" "(2::nat) ^ Suc ?e * 2 ^ (52 - ?e) = 2 ^ 53"
      using True by (simp_all flip: power_add)
    ultimately show ?thesis using True by (simp only: sig_def if_True)
  next
    case False
    let ?s = "?e - 52"
    have e: "(2::nat) ^ ?e = 2 ^ 52 * 2 ^ ?s" "(2::nat) ^ Suc ?e = 2 ^ 53 * 2 ^ ?s"
      unfolding power_add[symmetric] using False by simp_all
    have "2 ^ 52 \<le> n div 2 ^ ?s"
      using b(1) unfolding e by (simp add: less_eq_div_iff_mult_less_eq)
    moreover have "n div 2 ^ ?s < 2 ^ 53"
      using b(2) unfolding e by (simp add: less_mult_imp_div_less)
    ultimately show ?thesis
      using round_half_even_bounds[of n ?s] False by (simp only: sig_def if_False) linarith
  qed
  moreover have "nat_f64_mag n = (?e + 1022) * 2 ^ 52 + sig"
    using assms by (simp add: nat_f64_mag_def sig_def Let_def)
  ultimately show "(?e + 1023) * 2 ^ 52 \<le> nat_f64_mag n" "nat_f64_mag n \<le> (?e + 1024) * 2 ^ 52"
    by (simp_all add: algebra_simps)
qed

lemma nat_f64_mag_mono: "m \<le> n \<Longrightarrow> nat_f64_mag m \<le> nat_f64_mag n"
proof (cases "m = 0")
  case True
  then show ?thesis by (simp add: nat_f64_mag_def)
next
  case False
  assume mn: "m \<le> n"
  with False have pos: "0 < m" "0 < n" by simp_all
  show ?thesis
  proof (cases "ilog2 m = ilog2 n")
    case True
    then show ?thesis
      using pos mn round_half_even_mono[OF mn] by (simp add: nat_f64_mag_def Let_def)
  next
    case False
    then have "(ilog2 m + 1024) * 2 ^ 52 \<le> (ilog2 n + 1023) * 2 ^ 52"
      using ilog2_mono[OF pos(1) mn] by (intro mult_le_mono1) simp
    then show ?thesis
      using nat_f64_mag_bounds[OF pos(1)] nat_f64_mag_bounds[OF pos(2)] by linarith
  qed
qed

lemma nat_f64_mag_lt: "n \<le> 2 ^ 63 \<Longrightarrow> nat_f64_mag n < 2 ^ 63"
proof (cases "n = 0")
  case False
  assume n: "n \<le> 2 ^ 63"
  have "ilog2 (2 ^ 63) = 63" by (rule ilog2_eqI) simp_all
  then have "ilog2 n \<le> 63" using ilog2_mono[of n "2 ^ 63"] n False by simp
  then have "(ilog2 n + 1024) * 2 ^ 52 \<le> (63 + 1024) * (2::nat) ^ 52"
    by (intro mult_le_mono1) simp
  then show ?thesis using nat_f64_mag_bounds(2)[of n] False by simp
qed (simp add: nat_f64_mag_def)

lemma sint_i64_bounds: "- (2 ^ 63) \<le> sint (i :: i64)" "sint (i :: i64) < 2 ^ 63"
  using sint_ge[of i] sint_lt[of i] by simp_all

lemma i64_as_f64_key:
  "total_key (i64_as_f64 i) =
     (if sint i < 0 then - int (nat_f64_mag (nat (- sint i))) - 1 else int (nat_f64_mag (nat (sint i))))"
proof -
  have "nat (- sint i) \<le> 2 ^ 63" "nat (sint i) \<le> 2 ^ 63"
    using sint_i64_bounds[of i] by simp_all
  from f64_of_mag[OF nat_f64_mag_lt[OF this(1)]] f64_of_mag[OF nat_f64_mag_lt[OF this(2)]]
  show ?thesis by (simp add: i64_as_f64_def total_key_def)
qed

lemma i64_as_f64_mono:
  assumes "sint i \<le> sint j"
  shows "total_key (i64_as_f64 i) \<le> total_key (i64_as_f64 j)"
proof -
  have "nat_f64_mag (nat (- sint j)) \<le> nat_f64_mag (nat (- sint i))"
    "nat_f64_mag (nat (sint i)) \<le> nat_f64_mag (nat (sint j))"
    using assms by (auto intro!: nat_f64_mag_mono)
  then show ?thesis using assms by (auto simp: i64_as_f64_key)
qed

lemma i64_as_f64_not_nan [simp]: "\<not> f64_is_nan (i64_as_f64 i)"
proof -
  have b: "nat_f64_mag n \<le> 1087 * 2 ^ 52" if "n \<le> 2 ^ 63" for n
  proof (cases "n = 0")
    case False
    have "ilog2 (2 ^ 63) = 63" by (rule ilog2_eqI) simp_all
    then have "(ilog2 n + 1024) * 2 ^ 52 \<le> (63 + 1024) * (2::nat) ^ 52"
      using ilog2_mono[of n "2 ^ 63"] that False by (intro mult_le_mono1) simp
    then show ?thesis using nat_f64_mag_bounds(2)[of n] False by simp
  qed (simp add: nat_f64_mag_def)
  have "nat (- sint i) \<le> 2 ^ 63" "nat (sint i) \<le> 2 ^ 63"
    using sint_i64_bounds[of i] by simp_all
  then have "f64_mag (i64_as_f64 i) \<le> 1087 * 2 ^ 52"
    using b f64_of_mag(2,4)[OF nat_f64_mag_lt] by (simp add: i64_as_f64_def)
  then show ?thesis by (simp add: f64_is_nan_def)
qed

section \<open>Lemmas: the cast is exact on small integers\<close>

lemma div_mod_unique_nat: "y < d \<Longrightarrow> (k * d + y) div d = k" "y < d \<Longrightarrow> (k * d + y) mod d = (y :: nat)"
  by simp_all

lemma nat_f64_mag_exact:
  assumes "n < 2 ^ 53" "0 < n"
  shows "nat_f64_mag n div 2 ^ 52 = ilog2 n + 1023"
    "2 ^ 52 + nat_f64_mag n mod 2 ^ 52 = n * 2 ^ (52 - ilog2 n)"
    "ilog2 n \<le> 52"
proof -
  have b: "2 ^ ilog2 n \<le> n" "n < 2 ^ Suc (ilog2 n)" using ilog2_bounds[OF assms(2)] by auto
  have "ilog2 (2 ^ 53 - 1) = 52" by (rule ilog2_eqI) simp_all
  then show e: "ilog2 n \<le> 52" using ilog2_mono[OF assms(2), of "2 ^ 53 - 1"] assms(1) by simp
  define x where "x = n * 2 ^ (52 - ilog2 n)"
  have "2 ^ ilog2 n * 2 ^ (52 - ilog2 n) \<le> x"
    unfolding x_def using b by (intro mult_le_mono1) simp
  moreover have "x < 2 ^ Suc (ilog2 n) * 2 ^ (52 - ilog2 n)"
    unfolding x_def using b by (intro mult_less_mono1) simp_all
  moreover have "(2::nat) ^ ilog2 n * 2 ^ (52 - ilog2 n) = 2 ^ 52"
    "(2::nat) ^ Suc (ilog2 n) * 2 ^ (52 - ilog2 n) = 2 ^ 53"
    using e by (simp_all flip: power_add)
  ultimately have x: "2 ^ 52 \<le> x" "x < 2 * 2 ^ 52" by simp_all
  then obtain y where y: "x = 2 ^ 52 + y" "y < 2 ^ 52"
    by (metis add_less_cancel_left le_add_diff_inverse mult_2)
  have "nat_f64_mag n = (ilog2 n + 1022) * 2 ^ 52 + x"
    using assms(2) e by (simp add: nat_f64_mag_def x_def Let_def)
  also have "\<dots> = (ilog2 n + 1023) * 2 ^ 52 + y"
    unfolding y(1) by (simp add: algebra_simps)
  finally have "nat_f64_mag n = (ilog2 n + 1023) * 2 ^ 52 + y" .
  then have "nat_f64_mag n div 2 ^ 52 = ilog2 n + 1023" "nat_f64_mag n mod 2 ^ 52 = y"
    using div_mod_unique_nat[OF y(2)] by (simp_all only:)
  then show "nat_f64_mag n div 2 ^ 52 = ilog2 n + 1023"
    "2 ^ 52 + nat_f64_mag n mod 2 ^ 52 = n * 2 ^ (52 - ilog2 n)"
    using y(1) unfolding x_def by simp_all
qed

lemma f64_trunc_mag_exact:
  assumes "n < 2 ^ 53" "f64_mag f = nat_f64_mag n"
  shows "f64_trunc_mag f = n"
proof (cases "n = 0")
  case True
  then show ?thesis using assms(2) by (simp add: f64_trunc_mag_def nat_f64_mag_def)
next
  case False
  then have "0 < n" by simp
  from nat_f64_mag_exact[OF assms(1) this]
  show ?thesis by (simp add: f64_trunc_mag_def assms(2) Let_def)
qed

text \<open>The integers the storage codec keeps only as a float: \<open>-2 ^ 53 < i < 2 ^ 53\<close>.\<close>

definition exact_int :: "i64 \<Rightarrow> bool" where
  "exact_int i \<longleftrightarrow> - (2 ^ 53) < sint i \<and> sint i < 2 ^ 53"

lemma f64_as_i64_exact: "exact_int i \<Longrightarrow> f64_as_i64 (i64_as_f64 i) = i"
proof -
  assume e: "exact_int i"
  let ?n = "nat \<bar>sint i\<bar>" and ?f = "i64_as_f64 i"
  have n: "?n < 2 ^ 53" using e by (auto simp: exact_int_def)
  then have lt: "nat_f64_mag ?n < 2 ^ 63" by (intro nat_f64_mag_lt) simp
  have m: "f64_mag ?f = nat_f64_mag ?n" and s: "f64_sign ?f \<longleftrightarrow> sint i < 0"
    using f64_of_mag[OF lt] by (auto simp: i64_as_f64_def)
  have "ilog2 (2 ^ 53) = 53" by (rule ilog2_eqI) simp_all
  then have "nat_f64_mag ?n \<le> 1077 * 2 ^ 52"
    using nat_f64_mag_mono[of ?n "2 ^ 53"] nat_f64_mag_bounds(2)[of "2 ^ 53"] n by simp
  then have "f64_mag ?f \<noteq> 2047 * 2 ^ 52" using m by simp
  moreover have "f64_trunc_mag ?f = ?n" using n m by (rule f64_trunc_mag_exact)
  ultimately have "f64_as_i64 ?f = of_int (max (- (2 ^ 63)) (min (2 ^ 63 - 1) (sint i)))"
    using s by (simp add: f64_as_i64_def Let_def)
  also have "max (- (2 ^ 63)) (min (2 ^ 63 - 1) (sint i)) = sint i"
    using sint_i64_bounds[of i] by simp
  finally show ?thesis by simp
qed

text \<open>An exact and a non-exact integer never share their float.\<close>

lemma exact_int_separates:
  assumes "exact_int i" "\<not> exact_int j"
  shows "cmp_of (total_key (i64_as_f64 i)) (total_key (i64_as_f64 j)) = cmp_of (sint i) (sint j)
    \<and> i64_as_f64 i \<noteq> i64_as_f64 j"
proof -
  have "ilog2 (2 ^ 53) = 53" by (rule ilog2_eqI) simp_all
  then have big: "1076 * 2 ^ 52 \<le> nat_f64_mag n" if "2 ^ 53 \<le> n" for n
    using nat_f64_mag_mono[OF that] nat_f64_mag_bounds(1)[of "2 ^ 53"] by simp
  have small: "nat_f64_mag n < 1076 * 2 ^ 52" if "n < 2 ^ 53" for n
  proof (cases "n = 0")
    case False
    then have "0 < n" by simp
    from nat_f64_mag_exact(1,3)[OF that this] have "nat_f64_mag n div 2 ^ 52 < 1076" by simp
    then show ?thesis by (simp add: div_less_iff_less_mult)
  qed (simp add: nat_f64_mag_def)
  have n: "nat (sint i) < 2 ^ 53" "nat (- sint i) < 2 ^ 53"
    using assms(1) by (auto simp: exact_int_def)
  note i = small[OF n(1)] small[OF n(2)]
  from assms(2) consider "2 ^ 53 \<le> sint j" | "sint j \<le> - (2 ^ 53)"
    by (force simp: exact_int_def)
  then show ?thesis
  proof cases
    case 1
    then have "1076 * 2 ^ 52 \<le> nat_f64_mag (nat (sint j))" by (intro big) simp
    then have "total_key (i64_as_f64 i) < total_key (i64_as_f64 j)"
      using i 1 by (simp add: i64_as_f64_key)
    moreover have "sint i < sint j" using 1 assms(1) by (simp add: exact_int_def)
    ultimately show ?thesis by (auto simp: cmp_of_def)
  next
    case 2
    then have "1076 * 2 ^ 52 \<le> nat_f64_mag (nat (- sint j))" by (intro big) simp
    then have "total_key (i64_as_f64 j) < total_key (i64_as_f64 i)"
      using i 2 by (simp add: i64_as_f64_key)
    moreover have "sint j < sint i" using 2 assms(1) by (simp add: exact_int_def)
    ultimately show ?thesis by (auto simp: cmp_of_def)
  qed
qed

lemma i64_as_f64_not_neg_zero: "total_key (i64_as_f64 i) \<noteq> - 1"
proof -
  have "0 < nat_f64_mag (nat (- sint i))" if "sint i < 0"
    using nat_f64_mag_bounds(1) [of "nat (- sint i)"] that by (simp add: trans_less_add1 order.strict_trans2)
  then show ?thesis by (auto simp: i64_as_f64_key)
qed

lemma exact_int_ieee:
  assumes "exact_int x" "exact_int y"
  shows "cmp_of (ieee_key (i64_as_f64 x)) (ieee_key (i64_as_f64 y)) = cmp_of (sint x) (sint y)"
proof -
  let ?x = "i64_as_f64 x" and ?y = "i64_as_f64 y"
  have "x = y" if "?x = ?y"
    using arg_cong [OF that, of f64_as_i64] assms by (simp add: f64_as_i64_exact)
  then have "total_key ?x = total_key ?y \<longleftrightarrow> sint x = sint y"
    by (auto simp: total_key_eq_iff dest: signed_word_eqI)
  moreover have "sint x \<le> sint y \<Longrightarrow> total_key ?x \<le> total_key ?y" "sint y \<le> sint x \<Longrightarrow> total_key ?y \<le> total_key ?x"
    by (rule i64_as_f64_mono, assumption)+
  ultimately have "cmp_of (total_key ?x) (total_key ?y) = cmp_of (sint x) (sint y)"
    by (cases "sint x" "sint y" rule: linorder_cases) (simp_all add: cmp_of_def order_less_le)
  moreover have "cmp_of (ieee_key ?x) (ieee_key ?y) = cmp_of (total_key ?x) (total_key ?y)"
    using i64_as_f64_not_neg_zero [of x] i64_as_f64_not_neg_zero [of y]
    by (auto simp: cmp_of_def ieee_key_total_key)
  ultimately show ?thesis by simp
qed

lemma i64_as_f64_mag: "f64_mag (i64_as_f64 i) = nat_f64_mag (nat \<bar>sint i\<bar>)"
proof -
  have "nat \<bar>sint i\<bar> \<le> 2 ^ 63" using sint_i64_bounds [of i] by simp
  from f64_of_mag [OF nat_f64_mag_lt [OF this]] show ?thesis by (auto simp: i64_as_f64_def)
qed

lemma i64_as_f64_integral: "f64_is_integral (i64_as_f64 i)"
proof -
  let ?n = "nat \<bar>sint i\<bar>"
  define g where "g = nat_f64_mag ?n"
  define d where "d = (2 :: nat) ^ 52"
  have g: "f64_mag (i64_as_f64 i) = g" by (simp add: i64_as_f64_mag g_def)
  consider "?n = 0" | "0 < ?n" "?n < 2 ^ 53" | "2 ^ 53 \<le> ?n" by linarith
  then show ?thesis
  proof cases
    case 1
    then have "g = 0" by (simp add: g_def nat_f64_mag_def)
    then show ?thesis by (simp add: f64_is_integral_def g)
  next
    case 2
    note e = nat_f64_mag_exact [OF 2(2,1), folded g_def]
    have "1075 - (ilog2 ?n + 1023) = 52 - ilog2 ?n" by simp
    then show ?thesis unfolding f64_is_integral_def Let_def g e(1,2) by simp
  next
    case 3
    have "53 = ilog2 (2 ^ 53)" by (rule ilog2_eqI [symmetric]) simp_all
    also have "\<dots> \<le> ilog2 ?n" using 3 by (intro ilog2_mono) simp_all
    finally have "(53 + 1023) * 2 ^ 52 \<le> (ilog2 ?n + 1023) * 2 ^ 52" by simp
    also have "\<dots> \<le> g" unfolding g_def using 3 by (intro nat_f64_mag_bounds(1)) simp
    finally have "1076 * d \<le> g" by (simp add: d_def)
    then have "1076 \<le> g div d" by (simp add: d_def div_le_mono less_eq_div_iff_mult_less_eq)
    then show ?thesis unfolding f64_is_integral_def Let_def g d_def by simp
  qed
qed

lemma f64_le_total:
  assumes "f64_le a b" "total_key b \<noteq> - 1 \<or> total_key a \<noteq> 0"
  shows "total_key a \<le> total_key b"
  using assms by (auto simp: f64_le_def ieee_key_total_key split: if_splits)

lemma f64_lt_total: "f64_lt a b \<Longrightarrow> total_key a < total_key b"
  by (auto simp: f64_lt_def ieee_less_total)

lemma exact_int_le:
  assumes "exact_int i" "total_key (i64_as_f64 i) \<le> total_key (i64_as_f64 j)"
  shows "sint i \<le> sint j"
proof (rule ccontr)
  assume n: "\<not> sint i \<le> sint j"
  then have "total_key (i64_as_f64 j) \<le> total_key (i64_as_f64 i)" by (intro i64_as_f64_mono) simp
  with assms(2) have eq: "i64_as_f64 i = i64_as_f64 j" by (simp add: total_key_eq_iff)
  then have "exact_int j" using exact_int_separates [OF assms(1), of j] by blast
  then have "i = j" using arg_cong [OF eq, of f64_as_i64] assms(1) by (simp add: f64_as_i64_exact)
  then show False using n by simp
qed

end
