(* ===== verification/Values.thy ===== *)
theory Values
  imports Floats
begin

text \<open>
  The values of the database (\<open>cozo-core/src/data/value.rs\<close>): the enum \<open>DataValue\<close> with
  its payload types, the hand-written and the derived \<open>Ord\<close> implementations, and the
  typed getters.  A regex is kept as its pattern (\<open>as_str\<close>) and a JSON value as the text
  \<open>to_string\<close> gives, which is all that \<open>Ord\<close>, \<open>Hash\<close> and the key codec read of them; a
  UUID is its four fields.  A \<open>BTreeSet\<close> is the list of its elements in iteration order.
  The main result is that the whole order is total (\<open>dv_cmp_comparison\<close>).
\<close>

section \<open>Library code the values rely on\<close>

text \<open>
  Behaviour of crates outside the repository, as parameters: \<open>OrderedFloat::cmp\<close> on the
  two float widths, \<open>serde_json::from_slice\<close> followed by \<open>to_string\<close> (\<open>None\<close> where parsing
  fails), and whether \<open>Regex::from_str\<close> accepts a pattern.
\<close>

record ext =
  of_cmp32 :: "f32 \<Rightarrow> f32 \<Rightarrow> ordering"
  of_cmp64 :: "f64 \<Rightarrow> f64 \<Rightarrow> ordering"
  json_norm :: "bytes \<Rightarrow> bytes option"
  regex_ok :: "bytes \<Rightarrow> bool"

text \<open>The documented contract of \<open>OrderedFloat\<close>: a total order.\<close>

definition ext_ok :: "ext \<Rightarrow> bool" where
  "ext_ok E \<longleftrightarrow> comparison (of_cmp32 E) \<and> comparison (of_cmp64 E)"

section \<open>Data\<close>

datatype number = NInt i64 | NFloat f64

datatype uuid = Uuid_fields u32 u16 u16 bytes

record validity =
  timestamp :: i64
  is_assert :: bool

datatype vector = VecF32 "f32 list" | VecF64 "f64 list"

datatype data_value =
    Null
  | Bool bool
  | Num number
  | Str bytes
  | Bytes bytes
  | Uuid uuid
  | Regex bytes
  | List "data_value list"
  | Set "data_value list"
  | Vec vector
  | Json bytes
  | Validity validity
  | Bot

section \<open>Comparison\<close>

fun uuid_cmp :: "uuid \<Rightarrow> uuid \<Rightarrow> ordering" where
  "uuid_cmp (Uuid_fields s_l s_m s_h s_rest) (Uuid_fields o_l o_m o_h o_rest) =
     then_with (cmp_of s_h o_h)
       (then_with (cmp_of s_m o_m)
         (then_with (cmp_of s_l o_l) (bytes_cmp s_rest o_rest)))"

definition validity_cmp :: "validity \<Rightarrow> validity \<Rightarrow> ordering" where
  "validity_cmp a b =
     then_with (cmp_of (sint (timestamp b)) (sint (timestamp a)))
       (cmp_of (is_assert b) (is_assert a))"

text \<open>The loop \<open>for (le, re) in l.iter().zip(r)\<close> that returns the first difference.\<close>

fun zip_cmp :: "('a \<Rightarrow> 'a \<Rightarrow> ordering) \<Rightarrow> 'a list \<Rightarrow> 'a list \<Rightarrow> ordering" where
  "zip_cmp c (x # xs) (y # ys) = (case c x y of Equal \<Rightarrow> zip_cmp c xs ys | r \<Rightarrow> r)"
| "zip_cmp c xs ys = Equal"

fun vector_cmp :: "ext \<Rightarrow> vector \<Rightarrow> vector \<Rightarrow> ordering" where
  "vector_cmp E (VecF32 l) (VecF32 r) =
     (case cmp_of (length l) (length r) of Equal \<Rightarrow> zip_cmp (of_cmp32 E) l r | r \<Rightarrow> r)"
| "vector_cmp E (VecF32 l) (VecF64 r) = Less"
| "vector_cmp E (VecF64 l) (VecF64 r) =
     (case cmp_of (length l) (length r) of Equal \<Rightarrow> zip_cmp (of_cmp64 E) l r | r \<Rightarrow> r)"
| "vector_cmp E (VecF64 l) (VecF32 r) = Greater"

fun vector_eq :: "ext \<Rightarrow> vector \<Rightarrow> vector \<Rightarrow> bool" where
  "vector_eq E (VecF32 l) (VecF32 r) =
     (length l = length r \<and> list_all (\<lambda>(le, re). of_cmp32 E le re = Equal) (zip l r))"
| "vector_eq E (VecF64 l) (VecF64 r) =
     (length l = length r \<and> list_all (\<lambda>(le, re). of_cmp64 E le re = Equal) (zip l r))"
| "vector_eq E _ _ = False"

fun number_cmp :: "number \<Rightarrow> number \<Rightarrow> ordering" where
  "number_cmp (NInt i) (NFloat r) =
     (case total_cmp (i64_as_f64 i) r of Less \<Rightarrow> Less | Equal \<Rightarrow> Less | Greater \<Rightarrow> Greater)"
| "number_cmp (NFloat l) (NInt i) =
     (case total_cmp l (i64_as_f64 i) of Less \<Rightarrow> Less | Equal \<Rightarrow> Greater | Greater \<Rightarrow> Greater)"
| "number_cmp (NInt l) (NInt r) = cmp_of (sint l) (sint r)"
| "number_cmp (NFloat l) (NFloat r) = total_cmp l r"

text \<open>The derived \<open>Ord\<close> of an enum compares the position of the variant, then the payload.\<close>

fun variant_index :: "data_value \<Rightarrow> nat" where
  "variant_index Null = 0"
| "variant_index (Bool _) = 1"
| "variant_index (Num _) = 2"
| "variant_index (Str _) = 3"
| "variant_index (Bytes _) = 4"
| "variant_index (Uuid _) = 5"
| "variant_index (Regex _) = 6"
| "variant_index (List _) = 7"
| "variant_index (Set _) = 8"
| "variant_index (Vec _) = 9"
| "variant_index (Json _) = 10"
| "variant_index (Validity _) = 11"
| "variant_index Bot = 12"

fun dv_cmp :: "ext \<Rightarrow> data_value \<Rightarrow> data_value \<Rightarrow> ordering"
  and dvs_cmp :: "ext \<Rightarrow> data_value list \<Rightarrow> data_value list \<Rightarrow> ordering" where
  "dv_cmp E Null b = cmp_of 0 (variant_index b)"
| "dv_cmp E (Bool x) b = (case b of Bool y \<Rightarrow> cmp_of x y | _ \<Rightarrow> cmp_of 1 (variant_index b))"
| "dv_cmp E (Num x) b = (case b of Num y \<Rightarrow> number_cmp x y | _ \<Rightarrow> cmp_of 2 (variant_index b))"
| "dv_cmp E (Str x) b = (case b of Str y \<Rightarrow> bytes_cmp x y | _ \<Rightarrow> cmp_of 3 (variant_index b))"
| "dv_cmp E (Bytes x) b = (case b of Bytes y \<Rightarrow> bytes_cmp x y | _ \<Rightarrow> cmp_of 4 (variant_index b))"
| "dv_cmp E (Uuid x) b = (case b of Uuid y \<Rightarrow> uuid_cmp x y | _ \<Rightarrow> cmp_of 5 (variant_index b))"
| "dv_cmp E (Regex x) b = (case b of Regex y \<Rightarrow> bytes_cmp x y | _ \<Rightarrow> cmp_of 6 (variant_index b))"
| "dv_cmp E (List xs) b = (case b of List ys \<Rightarrow> dvs_cmp E xs ys | _ \<Rightarrow> cmp_of 7 (variant_index b))"
| "dv_cmp E (Set xs) b = (case b of Set ys \<Rightarrow> dvs_cmp E xs ys | _ \<Rightarrow> cmp_of 8 (variant_index b))"
| "dv_cmp E (Vec x) b = (case b of Vec y \<Rightarrow> vector_cmp E x y | _ \<Rightarrow> cmp_of 9 (variant_index b))"
| "dv_cmp E (Json x) b = (case b of Json y \<Rightarrow> bytes_cmp x y | _ \<Rightarrow> cmp_of 10 (variant_index b))"
| "dv_cmp E (Validity x) b =
     (case b of Validity y \<Rightarrow> validity_cmp x y | _ \<Rightarrow> cmp_of 11 (variant_index b))"
| "dv_cmp E Bot b = cmp_of 12 (variant_index b)"
| "dvs_cmp E [] [] = Equal"
| "dvs_cmp E [] (y # ys) = Less"
| "dvs_cmp E (x # xs) [] = Greater"
| "dvs_cmp E (x # xs) (y # ys) = then_with (dv_cmp E x y) (dvs_cmp E xs ys)"

text \<open>Equality (\<open>PartialEq\<close>) is the \<open>Equal\<close> of the order: written so for \<open>Num\<close>, derived for
  the enum, and proved for \<open>Vector\<close>, whose \<open>eq\<close> is a separate loop (\<open>vector_eq_iff\<close>).\<close>

definition dv_eq :: "ext \<Rightarrow> data_value \<Rightarrow> data_value \<Rightarrow> bool" where
  "dv_eq E a b \<longleftrightarrow> dv_cmp E a b = Equal"

definition dv_less :: "ext \<Rightarrow> data_value \<Rightarrow> data_value \<Rightarrow> bool" where
  "dv_less E a b \<longleftrightarrow> dv_cmp E a b = Less"

definition dv_le :: "ext \<Rightarrow> data_value \<Rightarrow> data_value \<Rightarrow> bool" where
  "dv_le E a b \<longleftrightarrow> dv_cmp E a b \<noteq> Greater"

text \<open>\<open>BTreeSet::insert\<close> on the iteration order: an element equal to the new one is kept.
  The second component is the returned flag.\<close>

fun btree_insert :: "ext \<Rightarrow> data_value \<Rightarrow> data_value list \<Rightarrow> data_value list \<times> bool" where
  "btree_insert E x [] = ([x], True)"
| "btree_insert E x (y # ys) =
     (case dv_cmp E x y of
        Less \<Rightarrow> (x # y # ys, True)
      | Equal \<Rightarrow> (y # ys, False)
      | Greater \<Rightarrow> (let (zs, b) = btree_insert E x ys in (y # zs, b)))"

definition btree_collect :: "ext \<Rightarrow> data_value list \<Rightarrow> data_value list" where
  "btree_collect E xs = fold (\<lambda>x s. fst (btree_insert E x s)) xs []"

section \<open>Getters\<close>

fun num_get_int :: "number \<Rightarrow> i64 option" where
  "num_get_int (NInt i) = Some i"
| "num_get_int (NFloat f) = (if f64_is_integral f then Some (f64_as_i64 f) else None)"

fun num_get_int_strict :: "number \<Rightarrow> i64 option" where
  "num_get_int_strict (NInt i) = Some i"
| "num_get_int_strict (NFloat f) = None"

fun num_get_float :: "number \<Rightarrow> f64" where
  "num_get_float (NInt i) = i64_as_f64 i"
| "num_get_float (NFloat f) = f"

fun get_bytes :: "data_value \<Rightarrow> bytes option" where
  "get_bytes (Bytes b) = Some b"
| "get_bytes _ = None"

fun get_slice :: "data_value \<Rightarrow> data_value list option" where
  "get_slice (List l) = Some l"
| "get_slice _ = None"

fun get_str :: "data_value \<Rightarrow> bytes option" where
  "get_str (Str s) = Some s"
| "get_str _ = None"

fun get_int :: "data_value \<Rightarrow> i64 option" where
  "get_int (Num n) = num_get_int n"
| "get_int _ = None"

fun get_int_strict :: "data_value \<Rightarrow> i64 option" where
  "get_int_strict (Num n) = num_get_int_strict n"
| "get_int_strict _ = None"

fun get_non_neg_int :: "data_value \<Rightarrow> u64 option" where
  "get_non_neg_int (Num n) =
     (case num_get_int n of None \<Rightarrow> None | Some i \<Rightarrow> if sint i < 0 then None else Some i)"
| "get_non_neg_int _ = None"

fun get_float :: "data_value \<Rightarrow> f64 option" where
  "get_float (Num n) = Some (num_get_float n)"
| "get_float _ = None"

fun get_bool :: "data_value \<Rightarrow> bool option" where
  "get_bool (Bool b) = Some b"
| "get_bool _ = None"

section \<open>The number order is lexicographic in float, kind and integer\<close>

fun is_Float :: "number \<Rightarrow> bool" where
  "is_Float (NInt i) = False"
| "is_Float (NFloat f) = True"

fun int_key :: "number \<Rightarrow> int" where
  "int_key (NInt i) = sint i"
| "int_key (NFloat f) = 0"

lemma number_cmp_key:
  "number_cmp a b =
     then_with (total_cmp (num_get_float a) (num_get_float b))
       (then_with (cmp_of (is_Float a) (is_Float b)) (cmp_of (int_key a) (int_key b)))"
proof -
  have ii: "cmp_of (sint i) (sint j) = then_with (total_cmp (i64_as_f64 i) (i64_as_f64 j)) (cmp_of (sint i) (sint j))"
    for i j :: i64
    using i64_as_f64_mono[of i j] i64_as_f64_mono[of j i]
    by (cases "cmp_of (sint i) (sint j)") (auto simp: total_cmp_def cmp_of_def split: if_splits)
  have "(case c of Less \<Rightarrow> Less | Equal \<Rightarrow> Less | Greater \<Rightarrow> Greater) = then_with c Less"
    "(case c of Less \<Rightarrow> Less | Equal \<Rightarrow> Greater | Greater \<Rightarrow> Greater) = then_with c Greater" for c
    by (cases c; simp)+
  then show ?thesis
    by (cases a; cases b) (simp_all add: ii [symmetric])
qed

interpretation total_float: comparison total_cmp
proof -
  have "total_cmp = (\<lambda>x y. cmp_of (total_key x) (total_key y))"
    by (intro ext) (simp add: total_cmp_def)
  then show "comparison total_cmp" using comparison_key[OF comparison_cmp_of] by metis
qed

interpretation number_order: comparison number_cmp
proof -
  have "number_cmp = (\<lambda>a b. then_with (total_cmp (num_get_float a) (num_get_float b))
      (then_with (cmp_of (is_Float a) (is_Float b)) (cmp_of (int_key a) (int_key b))))"
    by (intro ext) (rule number_cmp_key)
  moreover have "comparison \<dots>"
    by (rule comparison_then comparison_cmp_of[THEN comparison_key]
        total_float.comparison_axioms[THEN comparison_key])+
  ultimately show "comparison number_cmp" by simp
qed

lemma number_cmp_Equal [simp]: "number_cmp a b = Equal \<longleftrightarrow> a = b"
proof
  assume "number_cmp a b = Equal"
  then show "a = b"
    by (cases a; cases b) (auto split: ordering.splits simp: signed_word_eqI)
qed (simp add: number_order.cmp_refl)

section \<open>The order on values is total\<close>

interpretation uuid_order: comparison uuid_cmp
proof -
  let ?f = "\<lambda>u. case u of Uuid_fields l m h r \<Rightarrow> (l, m, h, r)"
  have "uuid_cmp = (\<lambda>a b. then_with (cmp_of ((fst \<circ> snd \<circ> snd \<circ> ?f) a) ((fst \<circ> snd \<circ> snd \<circ> ?f) b))
     (then_with (cmp_of ((fst \<circ> snd \<circ> ?f) a) ((fst \<circ> snd \<circ> ?f) b))
       (then_with (cmp_of ((fst \<circ> ?f) a) ((fst \<circ> ?f) b))
         (bytes_cmp ((snd \<circ> snd \<circ> snd \<circ> ?f) a) ((snd \<circ> snd \<circ> snd \<circ> ?f) b)))))"
    by (intro ext) (simp split: uuid.splits)
  moreover have "comparison \<dots>"
    by (rule comparison_then comparison_cmp_of[THEN comparison_key]
        bytes_order.comparison_axioms[THEN comparison_key])+
  ultimately show "comparison uuid_cmp" by simp
qed

interpretation validity_order: comparison validity_cmp
proof -
  have "validity_cmp = (\<lambda>a b. then_with (cmp_of (- sint (timestamp a)) (- sint (timestamp b)))
     (cmp_of (\<not> is_assert a) (\<not> is_assert b)))"
    by (intro ext) (simp add: validity_cmp_def cmp_of_def)
  moreover have "comparison \<dots>"
    by (rule comparison_then comparison_cmp_of[THEN comparison_key])+
  ultimately show "comparison validity_cmp" by simp
qed

lemma zip_cmp_lex: "length xs = length ys \<Longrightarrow> zip_cmp c xs ys = lex_cmp c xs ys"
  by (induction xs ys rule: list_induct2) (auto split: ordering.splits)

lemma case_ordering_then: "(case c of Less \<Rightarrow> Less | Equal \<Rightarrow> d | Greater \<Rightarrow> Greater) = then_with c d"
  by (cases c) simp_all

definition vector_lanes :: "vector \<Rightarrow> bool \<times> f32 list \<times> f64 list" where
  "vector_lanes v = (case v of VecF32 l \<Rightarrow> (False, l, []) | VecF64 l \<Rightarrow> (True, [], l))"

lemma vector_cmp_lanes:
  "vector_cmp E a b =
     then_with (cmp_of (fst (vector_lanes a)) (fst (vector_lanes b)))
       (then_with (cmp_of (length (fst (snd (vector_lanes a)))) (length (fst (snd (vector_lanes b)))))
         (then_with (lex_cmp (of_cmp32 E) (fst (snd (vector_lanes a))) (fst (snd (vector_lanes b))))
           (then_with (cmp_of (length (snd (snd (vector_lanes a)))) (length (snd (snd (vector_lanes b)))))
             (lex_cmp (of_cmp64 E) (snd (snd (vector_lanes a))) (snd (snd (vector_lanes b)))))))"
proof -
  have "(case cmp_of (length l) (length r) of Equal \<Rightarrow> zip_cmp c l r | r \<Rightarrow> r)
      = then_with (cmp_of (length l) (length r)) (lex_cmp c l r)" for c and l r :: "'c list"
    by (cases "length l = length r") (auto simp: zip_cmp_lex cmp_of_def)
  then show ?thesis by (cases a; cases b) (simp_all add: vector_lanes_def)
qed

lemma vector_cmp_comparison:
  assumes "ext_ok E"
  shows "comparison (vector_cmp E)"
proof -
  have c: "comparison (of_cmp32 E)" "comparison (of_cmp64 E)"
    using assms by (simp_all add: ext_ok_def)
  have "vector_cmp E = (\<lambda>a b.
     then_with (cmp_of (fst (vector_lanes a)) (fst (vector_lanes b)))
       (then_with (cmp_of (length (fst (snd (vector_lanes a)))) (length (fst (snd (vector_lanes b)))))
         (then_with (lex_cmp (of_cmp32 E) (fst (snd (vector_lanes a))) (fst (snd (vector_lanes b))))
           (then_with (cmp_of (length (snd (snd (vector_lanes a)))) (length (snd (snd (vector_lanes b)))))
             (lex_cmp (of_cmp64 E) (snd (snd (vector_lanes a))) (snd (snd (vector_lanes b))))))))"
    by (intro ext) (rule vector_cmp_lanes)
  moreover have "comparison \<dots>"
    by (rule comparison_then comparison_cmp_of[THEN comparison_key]
        comparison_lex[OF c(1), THEN comparison_key] comparison_lex[OF c(2), THEN comparison_key])+
  ultimately show ?thesis by simp
qed

lemma lex_cmp_Equal_zip:
  "lex_cmp c l r = Equal \<longleftrightarrow> length l = length r \<and> list_all (\<lambda>(le, re). c le re = Equal) (zip l r)"
  by (induction c l r rule: lex_cmp.induct) auto

lemma vector_eq_iff: "vector_eq E a b \<longleftrightarrow> vector_cmp E a b = Equal"
  by (cases a; cases b) (auto simp: vector_cmp_lanes vector_lanes_def lex_cmp_Equal_zip)

lemma dvs_cmp_lex: "dvs_cmp E xs ys = lex_cmp (dv_cmp E) xs ys"
  by (induction xs arbitrary: ys) (metis dvs_cmp.simps lex_cmp.simps list.exhaust)+

lemma dv_cmp_variants:
  "variant_index a \<noteq> variant_index b \<Longrightarrow> dv_cmp E a b = cmp_of (variant_index a) (variant_index b)"
  by (cases a; cases b) simp_all

text \<open>To prove the laws at a value it is enough to look at values of its own variant.\<close>

lemma cmp_law_same_variant:
  assumes "dv_cmp E x x = Equal"
    and "\<And>y. variant_index y = variant_index x \<Longrightarrow> dv_cmp E y x = reverse_ord (dv_cmp E x y)"
    and "\<And>y z. variant_index y = variant_index x \<Longrightarrow> variant_index z = variant_index x \<Longrightarrow>
      dv_cmp E x y = Equal \<Longrightarrow> dv_cmp E y z = dv_cmp E x z"
    and "\<And>y z. variant_index y = variant_index x \<Longrightarrow> variant_index z = variant_index x \<Longrightarrow>
      dv_cmp E x y = Less \<Longrightarrow> dv_cmp E y z \<noteq> Greater \<Longrightarrow> dv_cmp E x z = Less"
  shows "cmp_law (dv_cmp E) x"
proof (rule cmp_lawI)
  fix y z
  show "dv_cmp E y x = reverse_ord (dv_cmp E x y)"
    using assms(2)[of y] dv_cmp_variants[of x y E] dv_cmp_variants[of y x E] by fastforce
  show "dv_cmp E x y = Equal \<Longrightarrow> dv_cmp E y z = dv_cmp E x z"
    using assms(3)[of y z] dv_cmp_variants[of x y E] dv_cmp_variants[of y z E] dv_cmp_variants[of x z E]
    by fastforce
  show "dv_cmp E x y = Less \<Longrightarrow> dv_cmp E y z \<noteq> Greater \<Longrightarrow> dv_cmp E x z = Less"
    using assms(4)[of y z] dv_cmp_variants[of x y E] dv_cmp_variants[of y z E] dv_cmp_variants[of x z E]
    by fastforce
qed (rule assms(1))

text \<open>A variant whose payload is compared by a lawful comparison is lawful.\<close>

lemma cmp_law_payload:
  assumes "cmp_law c p" "x = C p"
    and "\<And>y. variant_index y = variant_index x \<Longrightarrow> \<exists>q. y = C q"
    and "\<And>p q. dv_cmp E (C p) (C q) = c p q"
  shows "cmp_law (dv_cmp E) x"
proof (rule cmp_law_same_variant)
  show "dv_cmp E x x = Equal" using assms(2,4) cmp_law_refl[OF assms(1)] by simp
  show "dv_cmp E y x = reverse_ord (dv_cmp E x y)" if "variant_index y = variant_index x" for y
    using assms(2,4) cmp_law_dual[OF assms(1)] assms(3)[OF that] by auto
  show "dv_cmp E y z = dv_cmp E x z"
    if "variant_index y = variant_index x" "variant_index z = variant_index x" "dv_cmp E x y = Equal" for y z
    using assms(2,4) cmp_law_cong[OF assms(1)] assms(3)[OF that(1)] assms(3)[OF that(2)] that(3) by auto
  show "dv_cmp E x z = Less"
    if "variant_index y = variant_index x" "variant_index z = variant_index x"
      "dv_cmp E x y = Less" "dv_cmp E y z \<noteq> Greater" for y z
    using assms(2,4) cmp_law_trans[OF assms(1)] assms(3)[OF that(1)] assms(3)[OF that(2)] that(3,4) by auto
qed

lemma variant_inversion:
  "variant_index y = Suc 0 \<Longrightarrow> \<exists>q. y = Bool q" "variant_index y = 2 \<Longrightarrow> \<exists>q. y = Num q"
  "variant_index y = 3 \<Longrightarrow> \<exists>q. y = Str q" "variant_index y = 4 \<Longrightarrow> \<exists>q. y = Bytes q"
  "variant_index y = 5 \<Longrightarrow> \<exists>q. y = Uuid q" "variant_index y = 6 \<Longrightarrow> \<exists>q. y = Regex q"
  "variant_index y = 7 \<Longrightarrow> \<exists>q. y = List q" "variant_index y = 8 \<Longrightarrow> \<exists>q. y = Set q"
  "variant_index y = 9 \<Longrightarrow> \<exists>q. y = Vec q" "variant_index y = 10 \<Longrightarrow> \<exists>q. y = Json q"
  "variant_index y = 11 \<Longrightarrow> \<exists>q. y = Validity q"
  "variant_index y = 0 \<Longrightarrow> y = Null" "variant_index y = 12 \<Longrightarrow> y = Bot"
  by (cases y; simp)+

lemma dv_cmp_law:
  assumes "ext_ok E"
  shows "cmp_law (dv_cmp E) x"
proof (induction x)
  case Null
  show ?case by (rule cmp_law_same_variant) (auto dest: variant_inversion)
next
  case (Bool b)
  show ?case
    by (rule cmp_law_payload[OF comparison.law[OF comparison_cmp_of], of _ Bool])
      (auto dest: variant_inversion)
next
  case (Num n)
  show ?case
    by (rule cmp_law_payload[OF number_order.law, of _ Num]) (auto dest: variant_inversion)
next
  case (Str s)
  show ?case
    by (rule cmp_law_payload[OF bytes_order.law, of _ Str]) (auto dest: variant_inversion)
next
  case (Bytes s)
  show ?case
    by (rule cmp_law_payload[OF bytes_order.law, of _ Bytes]) (auto dest: variant_inversion)
next
  case (Uuid u)
  show ?case
    by (rule cmp_law_payload[OF uuid_order.law, of _ Uuid]) (auto dest: variant_inversion)
next
  case (Regex s)
  show ?case
    by (rule cmp_law_payload[OF bytes_order.law, of _ Regex]) (auto dest: variant_inversion)
next
  case (List l)
  then show ?case
    by (intro cmp_law_payload[OF cmp_law_lex, of l "dv_cmp E" _ List])
      (auto simp: dvs_cmp_lex dest: variant_inversion)
next
  case (Set l)
  then show ?case
    by (intro cmp_law_payload[OF cmp_law_lex, of l "dv_cmp E" _ Set])
      (auto simp: dvs_cmp_lex dest: variant_inversion)
next
  case (Vec v)
  show ?case
    by (rule cmp_law_payload[OF comparison.law[OF vector_cmp_comparison[OF assms]], of _ Vec])
      (auto dest: variant_inversion)
next
  case (Json s)
  show ?case
    by (rule cmp_law_payload[OF bytes_order.law, of _ Json]) (auto dest: variant_inversion)
next
  case (Validity v)
  show ?case
    by (rule cmp_law_payload[OF validity_order.law, of _ Validity]) (auto dest: variant_inversion)
next
  case Bot
  show ?case by (rule cmp_law_same_variant) (auto dest: variant_inversion)
qed

lemma dv_cmp_comparison: "ext_ok E \<Longrightarrow> comparison (dv_cmp E)"
  unfolding comparison_iff by (blast intro: dv_cmp_law)

section \<open>A concrete instance of the library parameters\<close>

text \<open>An instance of the parameters, for evaluating the model: \<open>OrderedFloat\<close> as its
  documentation gives it (every NaN equal and above everything, the two zeros equal), JSON text
  already normal, every pattern accepted.\<close>

definition ordered_key64 :: "f64 \<Rightarrow> int" where
  "ordered_key64 f = (if f64_is_nan f then 2 ^ 63 else ieee_key f)"

definition ordered_key32 :: "f32 \<Rightarrow> int" where
  "ordered_key32 f =
     (let b = int (unat (to_bits32 f)); m = b mod 2 ^ 31
      in if 0x7F800000 < m then 2 ^ 31 else if b = m then m else - m)"

definition sample_ext :: ext where
  "sample_ext = \<lparr>of_cmp32 = \<lambda>a b. cmp_of (ordered_key32 a) (ordered_key32 b),
     of_cmp64 = \<lambda>a b. cmp_of (ordered_key64 a) (ordered_key64 b),
     json_norm = Some, regex_ok = \<lambda>_. True\<rparr>"

lemma sample_ext_ok [simp]: "ext_ok sample_ext"
  unfolding ext_ok_def sample_ext_def ext.simps
  by (intro conjI comparison_key[OF comparison_cmp_of])

lemma dv_le_refl: "ext_ok E \<Longrightarrow> dv_le E a a"
  by (simp add: dv_le_def comparison.cmp_refl [OF dv_cmp_comparison])

lemma dv_le_trans: "ext_ok E \<Longrightarrow> dv_le E a b \<Longrightarrow> dv_le E b c \<Longrightarrow> dv_le E a c"
  unfolding dv_le_def by (rule comparison.cmp_le_trans [OF dv_cmp_comparison])

lemma dv_not_le: "ext_ok E \<Longrightarrow> \<not> dv_le E a b \<longleftrightarrow> dv_less E b a"
  unfolding dv_le_def dv_less_def using comparison.cmp_Less_iff_Greater [OF dv_cmp_comparison] by blast

lemma dv_less_le: "dv_less E a b \<Longrightarrow> dv_le E a b"
  by (simp add: dv_le_def dv_less_def)

lemma dv_le_total: "ext_ok E \<Longrightarrow> \<not> dv_le E a b \<Longrightarrow> dv_le E b a"
  by (simp add: dv_not_le dv_less_le)

section \<open>Properties\<close>

text \<open>C25. The order on values is a total order: reflexive, antisymmetric up to \<open>Equal\<close>
  (swapping the arguments reverses the answer), and transitive; numbers of both kinds, nested
  lists, sets and vectors included.\<close>

theorem value_order_total:
  assumes "ext_ok E"
  shows "dv_cmp E x x = Equal \<and> dv_cmp E y x = reverse_ord (dv_cmp E x y)
    \<and> (dv_le E x y \<longrightarrow> dv_le E y z \<longrightarrow> dv_le E x z)
    \<and> (dv_eq E x y \<longrightarrow> dv_cmp E x z = dv_cmp E y z)"
proof -
  note c = dv_cmp_comparison[OF assms]
  show ?thesis
    unfolding dv_le_def dv_eq_def
    using comparison.cmp_refl[OF c, of x] comparison.cmp_dual[OF c, of y x]
      comparison.cmp_le_trans[OF c, of x y z] comparison.cmp_Equal_cong[OF c, of x y z] by simp
qed

theorem value_order_total_witness:
  "dv_le sample_ext (List [Num (NInt 3)]) (List [Num (NInt 3), Null]) \<and>
   dv_le sample_ext (List [Num (NInt 3), Null]) (List [Num (NInt 5)]) \<and>
   dv_le sample_ext (List [Num (NInt 3)]) (List [Num (NInt 5)])"
proof -
  have "dv_le sample_ext (List [Num (NInt 3)]) (List [Num (NInt 3), Null])"
    "dv_le sample_ext (List [Num (NInt 3), Null]) (List [Num (NInt 5)])"
    by (simp_all add: dv_le_def cmp_of_def)
  then show ?thesis using value_order_total[OF sample_ext_ok] by blast
qed

end
