(* ===== verification/Memcmp.thy ===== *)
theory Memcmp
  imports Values
begin

text \<open>
  The memory-comparable key codec (\<open>cozo-core/src/data/memcmp.rs\<close>): \<open>MemCmpEncoder\<close> and
  the decoders \<open>decode_bytes\<close>, \<open>Num::decode_from_key\<close> and \<open>DataValue::decode_from_key\<close>.
  A panic of the code (a slice out of range, \<open>unreachable!\<close>, an \<open>unwrap\<close> on \<open>None\<close>) is
  \<open>None\<close> here.  Shown: decoding undoes encoding in front of any remaining bytes, the
  recursion of the decoder needs no more steps than twice the input's length, and on
  values without vectors and JSON the byte order of two encodings is the order of the
  values, so that encoded fields can be concatenated into a key.
\<close>

section \<open>Tags and constants\<close>

definition INIT_TAG :: u8 where [simp]: "INIT_TAG = 0x00"
definition NULL_TAG :: u8 where [simp]: "NULL_TAG = 0x01"
definition FALSE_TAG :: u8 where [simp]: "FALSE_TAG = 0x02"
definition TRUE_TAG :: u8 where [simp]: "TRUE_TAG = 0x03"
definition VEC_TAG :: u8 where [simp]: "VEC_TAG = 0x04"
definition NUM_TAG :: u8 where [simp]: "NUM_TAG = 0x05"
definition STR_TAG :: u8 where [simp]: "STR_TAG = 0x06"
definition BYTES_TAG :: u8 where [simp]: "BYTES_TAG = 0x07"
definition UUID_TAG :: u8 where [simp]: "UUID_TAG = 0x08"
definition REGEX_TAG :: u8 where [simp]: "REGEX_TAG = 0x09"
definition LIST_TAG :: u8 where [simp]: "LIST_TAG = 0x0A"
definition SET_TAG :: u8 where [simp]: "SET_TAG = 0x0B"
definition VLD_TAG :: u8 where [simp]: "VLD_TAG = 0x0C"
definition JSON_TAG :: u8 where [simp]: "JSON_TAG = 0x0D"
definition BOT_TAG :: u8 where [simp]: "BOT_TAG = 0xFF"

definition VEC_F32 :: u8 where [simp]: "VEC_F32 = 0x01"
definition VEC_F64 :: u8 where [simp]: "VEC_F64 = 0x02"

definition IS_FLOAT :: u8 where [simp]: "IS_FLOAT = 0x10"
definition IS_APPROX_INT :: u8 where [simp]: "IS_APPROX_INT = 0x04"
definition IS_EXACT_INT :: u8 where [simp]: "IS_EXACT_INT = 0x00"
definition EXACT_INT_BOUND :: int where "EXACT_INT_BOUND = 0x20000000000000"

definition ENC_GROUP_SIZE :: nat where [simp]: "ENC_GROUP_SIZE = 8"
definition ENC_MARKER :: u8 where [simp]: "ENC_MARKER = 0xFF"

definition SIGN_MARK :: u64 where "SIGN_MARK = 0x8000000000000000"

section \<open>Integers and floats as ordered words\<close>

definition order_encode_i64 :: "i64 \<Rightarrow> u64" where
  "order_encode_i64 v = v XOR SIGN_MARK"

definition order_decode_i64 :: "u64 \<Rightarrow> i64" where
  "order_decode_i64 u = u XOR SIGN_MARK"

definition order_encode_f64 :: "f64 \<Rightarrow> u64" where
  "order_encode_f64 v =
     (let u = to_bits v in if is_sign_positive v then u OR SIGN_MARK else NOT u)"

definition order_decode_f64 :: "u64 \<Rightarrow> f64" where
  "order_decode_f64 u =
     F64 (if 0 < u AND SIGN_MARK then u AND NOT SIGN_MARK else NOT u)"

section \<open>Encoding\<close>

definition encode_num :: "number \<Rightarrow> bytes" where
  "encode_num v =
     write_u64 (order_encode_f64 (num_get_float v)) @
     (case v of
        NInt i \<Rightarrow>
          if - EXACT_INT_BOUND < sint i \<and> sint i < EXACT_INT_BOUND then [IS_EXACT_INT]
          else IS_APPROX_INT # write_u64 (order_encode_i64 i)
      | NFloat _ \<Rightarrow> [IS_FLOAT])"

text \<open>The loop of \<open>encode_bytes\<close> from position \<open>index\<close>.\<close>

function encode_bytes_from :: "bytes \<Rightarrow> nat \<Rightarrow> bytes" where
  "encode_bytes_from key index =
     (if index \<le> length key
      then let remain = length key - index in
        (if remain > ENC_GROUP_SIZE
         then take ENC_GROUP_SIZE (drop index key) @ [ENC_MARKER]
         else let pad = ENC_GROUP_SIZE - remain
              in drop index key @ replicate pad 0 @ [ENC_MARKER - of_nat pad])
        @ encode_bytes_from key (index + ENC_GROUP_SIZE)
      else [])"
  by pat_completeness auto
termination
  by (relation "measure (\<lambda>(key, index). Suc (length key) - index)") auto

declare encode_bytes_from.simps [simp del]

definition encode_bytes :: "bytes \<Rightarrow> bytes" where
  "encode_bytes key = encode_bytes_from key 0"

fun encode_datavalue :: "data_value \<Rightarrow> bytes" where
  "encode_datavalue Null = [NULL_TAG]"
| "encode_datavalue (Bool b) = (if b then [TRUE_TAG] else [FALSE_TAG])"
| "encode_datavalue (Vec v) =
     VEC_TAG # (case v of
        VecF32 a \<Rightarrow> VEC_F32 # write_u64 (of_nat (length a)) @
          concat (map (\<lambda>el. be_bytes 4 (unat (to_bits32 el))) a)
      | VecF64 a \<Rightarrow> VEC_F64 # write_u64 (of_nat (length a)) @
          concat (map (\<lambda>el. write_u64 (to_bits el)) a))"
| "encode_datavalue (Num n) = NUM_TAG # encode_num n"
| "encode_datavalue (Str s) = STR_TAG # encode_bytes s"
| "encode_datavalue (Json j) = JSON_TAG # encode_bytes j"
| "encode_datavalue (Bytes b) = BYTES_TAG # encode_bytes b"
| "encode_datavalue (Uuid u) =
     UUID_TAG # (case u of Uuid_fields s_l s_m s_h s_rest \<Rightarrow>
        be_bytes 2 (unat s_h) @ be_bytes 2 (unat s_m) @ be_bytes 4 (unat s_l) @ s_rest)"
| "encode_datavalue (Regex rx) = REGEX_TAG # encode_bytes rx"
| "encode_datavalue (List l) = LIST_TAG # concat (map encode_datavalue l) @ [INIT_TAG]"
| "encode_datavalue (Set s) = SET_TAG # concat (map encode_datavalue s) @ [INIT_TAG]"
| "encode_datavalue (Validity vld) =
     VLD_TAG # write_u64 (NOT (order_encode_i64 (timestamp vld))) @
       [if is_assert vld then 0 else 1]"
| "encode_datavalue Bot = [BOT_TAG]"

section \<open>Decoding\<close>

text \<open>\<open>split_at\<close>: panics when the slice is too short.\<close>

definition split_at :: "nat \<Rightarrow> bytes \<Rightarrow> (bytes \<times> bytes) option" where
  "split_at n bs = (if n \<le> length bs then Some (take n bs, drop n bs) else None)"

function decode_bytes :: "bytes \<Rightarrow> (bytes \<times> bytes) option" where
  "decode_bytes data =
     (if length data < ENC_GROUP_SIZE + 1 then None
      else let marker = data ! ENC_GROUP_SIZE;
               pad_size = unat (ENC_MARKER - marker);
               rest = drop (ENC_GROUP_SIZE + 1) data
           in if pad_size = 0
              then (case decode_bytes rest of
                      None \<Rightarrow> None
                    | Some (key, r) \<Rightarrow> Some (take ENC_GROUP_SIZE data @ key, r))
              else if ENC_GROUP_SIZE < pad_size then None
              else Some (take (ENC_GROUP_SIZE - pad_size) data, rest))"
  by pat_completeness auto
termination
  by (relation "measure length") auto

declare decode_bytes.simps [simp del]

definition num_decode_from_key :: "bytes \<Rightarrow> (number \<times> bytes) option" where
  "num_decode_from_key bs =
     (case split_at 8 bs of
        None \<Rightarrow> None
      | Some (float_part, remaining) \<Rightarrow>
          let f = order_decode_f64 (read_u64 float_part) in
          (case remaining of
             [] \<Rightarrow> None
           | tag # remaining \<Rightarrow>
               if tag = IS_FLOAT then Some (NFloat f, remaining)
               else if tag = IS_EXACT_INT then Some (NInt (f64_as_i64 f), remaining)
               else if tag = IS_APPROX_INT then
                 (case split_at 8 remaining of
                    None \<Rightarrow> None
                  | Some (int_part, remaining) \<Rightarrow>
                      Some (NInt (order_decode_i64 (read_u64 int_part)), remaining))
               else None))"

text \<open>\<open>n\<close> float lanes of \<open>w\<close> bytes each.\<close>

fun decode_lanes :: "nat \<Rightarrow> (bytes \<Rightarrow> 'a) \<Rightarrow> nat \<Rightarrow> bytes \<Rightarrow> ('a list \<times> bytes) option" where
  "decode_lanes w rd 0 rest = Some ([], rest)"
| "decode_lanes w rd (Suc n) rest =
     (case split_at w rest of
        None \<Rightarrow> None
      | Some (f_bytes, next_chunk) \<Rightarrow>
          (case decode_lanes w rd n next_chunk of
             None \<Rightarrow> None
           | Some (fs, r) \<Rightarrow> Some (rd f_bytes # fs, r)))"

definition decode_vec :: "bytes \<Rightarrow> (vector \<times> bytes) option" where
  "decode_vec remaining =
     (case remaining of
        [] \<Rightarrow> None
      | t_tag # remaining \<Rightarrow>
          (case split_at 8 remaining of
             None \<Rightarrow> None
           | Some (len_bytes, rest) \<Rightarrow>
               let len = unat (read_u64 len_bytes) in
               if t_tag = VEC_F32 then
                 map_option (\<lambda>(a, r). (VecF32 a, r))
                   (decode_lanes 4 (\<lambda>b. F32 (of_nat (be_read b))) len rest)
               else if t_tag = VEC_F64 then
                 map_option (\<lambda>(a, r). (VecF64 a, r))
                   (decode_lanes 8 (\<lambda>b. F64 (read_u64 b)) len rest)
               else None))"

definition decode_uuid :: "bytes \<Rightarrow> (uuid \<times> bytes) option" where
  "decode_uuid remaining =
     (case split_at 16 remaining of
        None \<Rightarrow> None
      | Some (d, rest) \<Rightarrow>
          Some (Uuid_fields (of_nat (be_read (take 4 (drop 4 d))))
                  (of_nat (be_read (take 2 (drop 2 d))))
                  (of_nat (be_read (take 2 d))) (drop 8 d), rest))"

definition decode_validity :: "bytes \<Rightarrow> (validity \<times> bytes) option" where
  "decode_validity remaining =
     (case split_at 8 remaining of
        None \<Rightarrow> None
      | Some (ts_flipped_bytes, rest) \<Rightarrow>
          (case rest of
             [] \<Rightarrow> None
           | is_assert_byte # rest \<Rightarrow>
               Some (\<lparr>timestamp = order_decode_i64 (NOT (read_u64 ts_flipped_bytes)),
                      is_assert = (is_assert_byte = 0)\<rparr>, rest)))"

text \<open>The decoder proper.  The first argument bounds the depth of the recursion: \<open>None\<close> says that it
  was too small, \<open>Some None\<close> that the decoder panics, \<open>Some (Some (v, r))\<close> that it returns.
  \<open>decode_seq\<close> is the loop \<open>while remaining[0] != INIT_TAG\<close> of the list and set cases and returns the
  decoded elements with the input after the terminator.\<close>

fun decode_dv :: "ext \<Rightarrow> nat \<Rightarrow> bytes \<Rightarrow> (data_value \<times> bytes) option option"
  and decode_seq :: "ext \<Rightarrow> nat \<Rightarrow> bytes \<Rightarrow> (data_value list \<times> bytes) option option" where
  "decode_dv E 0 bs = None"
| "decode_dv E (Suc n) bs =
     (case bs of
        [] \<Rightarrow> Some None
      | tag # remaining \<Rightarrow>
          if tag = NULL_TAG then Some (Some (Null, remaining))
          else if tag = FALSE_TAG then Some (Some (Bool False, remaining))
          else if tag = TRUE_TAG then Some (Some (Bool True, remaining))
          else if tag = NUM_TAG then
            Some (map_option (\<lambda>(x, r). (Num x, r)) (num_decode_from_key remaining))
          else if tag = STR_TAG then
            Some (map_option (\<lambda>(x, r). (Str x, r)) (decode_bytes remaining))
          else if tag = JSON_TAG then
            Some (case decode_bytes remaining of
               None \<Rightarrow> None
             | Some (x, r) \<Rightarrow> map_option (\<lambda>j. (Json j, r)) (json_norm E x))
          else if tag = BYTES_TAG then
            Some (map_option (\<lambda>(x, r). (Bytes x, r)) (decode_bytes remaining))
          else if tag = UUID_TAG then
            Some (map_option (\<lambda>(x, r). (Uuid x, r)) (decode_uuid remaining))
          else if tag = REGEX_TAG then
            Some (case decode_bytes remaining of
               None \<Rightarrow> None
             | Some (x, r) \<Rightarrow> if regex_ok E x then Some (Regex x, r) else None)
          else if tag = LIST_TAG then
            map_option (map_option (\<lambda>(x, r). (List x, r))) (decode_seq E n remaining)
          else if tag = SET_TAG then
            map_option (map_option (\<lambda>(x, r). (Set (btree_collect E x), r))) (decode_seq E n remaining)
          else if tag = VLD_TAG then
            Some (map_option (\<lambda>(x, r). (Validity x, r)) (decode_validity remaining))
          else if tag = BOT_TAG then Some (Some (Bot, remaining))
          else if tag = VEC_TAG then
            Some (map_option (\<lambda>(x, r). (Vec x, r)) (decode_vec remaining))
          else Some None)"
| "decode_seq E 0 bs = None"
| "decode_seq E (Suc n) bs =
     (case bs of
        [] \<Rightarrow> Some None
      | b # bs' \<Rightarrow>
          if b = INIT_TAG then Some (Some ([], bs'))
          else (case decode_dv E n bs of
                  None \<Rightarrow> None
                | Some None \<Rightarrow> Some None
                | Some (Some (val, next_chunk)) \<Rightarrow>
                    map_option (map_option (\<lambda>(vals, r). (val # vals, r))) (decode_seq E n next_chunk)))"

definition answer :: "'a option option \<Rightarrow> 'a option" where
  "answer res = (case res of None \<Rightarrow> None | Some r \<Rightarrow> r)"

definition decode_from_key :: "ext \<Rightarrow> bytes \<Rightarrow> (data_value \<times> bytes) option" where
  "decode_from_key E bs = answer (decode_dv E (2 * length bs + 1) bs)"

section \<open>Lemmas: ordered words\<close>

lemma SIGN_MARK_exp: "SIGN_MARK = 2 ^ 63"
  by (simp add: SIGN_MARK_def)

lemma bit_SIGN_MARK: "bit SIGN_MARK n \<longleftrightarrow> n = 63"
  unfolding SIGN_MARK_exp bit_exp_iff by (auto simp: possible_bit_def)

lemma bit_63_unat: "bit (u :: u64) 63 \<longleftrightarrow> 2 ^ 63 \<le> unat u"
proof -
  have "bit u 63 \<longleftrightarrow> bit (unat u) 63" by (simp add: bit_simps)
  also have "\<dots> \<longleftrightarrow> odd (unat u div 2 ^ 63)" by (rule bit_iff_odd)
  also have "\<dots> \<longleftrightarrow> 2 ^ 63 \<le> unat u"
  proof (cases "2 ^ 63 \<le> unat u")
    case True
    then have "unat u div 2 ^ 63 = 1"
      using unat_u64_bound[of u] by (intro div_nat_eqI) simp_all
    with True show ?thesis by simp
  qed simp
  finally show ?thesis .
qed

lemma and_SIGN_MARK: "u AND SIGN_MARK = (if bit u 63 then SIGN_MARK else 0)"
  by (rule bit_word_eqI) (auto simp: bit_simps bit_SIGN_MARK)

lemma xor_SIGN_MARK: "u XOR SIGN_MARK = u + SIGN_MARK"
proof (cases "bit u 63")
  case False
  then have "u AND SIGN_MARK = 0" by (simp add: and_SIGN_MARK)
  then show ?thesis by (simp add: disjunctive_add_eq_xor)
next
  case True
  let ?w = "u XOR SIGN_MARK"
  have "\<not> bit ?w 63" using True by (simp add: bit_simps bit_SIGN_MARK)
  then have "?w AND SIGN_MARK = 0" by (simp add: and_SIGN_MARK)
  then have "?w + SIGN_MARK = ?w XOR SIGN_MARK" by (simp only: disjunctive_add_eq_xor)
  also have "\<dots> = u" by (simp only: xor.assoc xor_self_eq xor.right_neutral)
  finally have "?w = u - SIGN_MARK" by (simp only: eq_diff_eq)
  also have "\<dots> = u + SIGN_MARK" by (simp add: SIGN_MARK_def)
  finally show ?thesis .
qed

lemma sint_unat_shift: "sint (v :: i64) + 2 ^ 63 = int ((unat v + 2 ^ 63) mod 2 ^ 64)"
proof -
  have "sint v = sint (word_of_int (uint v) :: i64)" by simp
  also have "\<dots> = (uint v + 2 ^ 63) mod 2 ^ 64 - 2 ^ 63"
    unfolding int_word_sint by simp
  finally show ?thesis by (simp add: zmod_int)
qed

lemma sum_mod_top: "a < n \<Longrightarrow> b < n \<Longrightarrow> (a + b) mod n = n - 1 \<Longrightarrow> b = n - 1 - (a :: nat)"
  by (cases "a + b < n") (simp_all add: le_mod_geq)

lemma unat_not: "unat (NOT u :: u64) = 2 ^ 64 - 1 - unat u"
proof -
  have "unat (u + NOT u) = 2 ^ 64 - 1"
    by (simp add: unsigned_minus_1_eq_mask mask_eq_exp_minus_1)
  then have "(unat u + unat (NOT u)) mod 2 ^ 64 = 2 ^ 64 - 1"
    using unat_word_ariths(1)[of u "NOT u"] by (simp del: word_add_not)
  then show ?thesis
    using sum_mod_top[of "unat u" "2 ^ 64" "unat (NOT u)"] unat_u64_bound[of u] unat_u64_bound[of "NOT u"]
    by simp
qed
lemma unat_order_encode_i64: "int (unat (order_encode_i64 v)) = sint v + 2 ^ 63"
  unfolding order_encode_i64_def xor_SIGN_MARK sint_unat_shift
  by (simp add: unat_word_ariths SIGN_MARK_def)

lemma order_encode_i64_cmp [simp]:
  "cmp_of (order_encode_i64 a) (order_encode_i64 b) = cmp_of (sint a) (sint b)"
  using unat_order_encode_i64[of a] unat_order_encode_i64[of b]
  by (simp add: cmp_of_def word_less_def word_uint_eq_iff)

lemma order_decode_encode_i64 [simp]: "order_decode_i64 (order_encode_i64 v) = v"
  by (simp add: order_decode_i64_def order_encode_i64_def xor.assoc)

lemma f64_sign_bit: "f64_sign f \<longleftrightarrow> bit (to_bits f) 63"
  by (simp only: f64_sign_def bit_63_unat)

lemma unat_order_encode_f64: "int (unat (order_encode_f64 f)) = total_key f + 2 ^ 63"
proof (cases "f64_sign f")
  case True
  then have "unat (to_bits f) = 2 ^ 63 + f64_mag f" using unat_bits_split[of f] by simp
  moreover have "f64_mag f < 2 ^ 63" by (rule f64_mag_bound)
  ultimately show ?thesis
    using True by (simp add: order_encode_f64_def is_sign_positive_def unat_not total_key_def)
next
  case False
  then have "unat (to_bits f) = f64_mag f" using unat_bits_split[of f] by simp
  moreover have "f64_mag f < 2 ^ 63" by (rule f64_mag_bound)
  moreover have "to_bits f AND SIGN_MARK = 0" using False by (simp add: and_SIGN_MARK f64_sign_bit)
  then have "to_bits f OR SIGN_MARK = to_bits f + SIGN_MARK" by (simp only: disjunctive_add_eq_or)
  ultimately show ?thesis
    using False
    by (simp add: order_encode_f64_def is_sign_positive_def total_key_def unat_word_ariths SIGN_MARK_def)
qed

lemma order_encode_f64_cmp [simp]:
  "cmp_of (order_encode_f64 a) (order_encode_f64 b) = total_cmp a b"
  using unat_order_encode_f64[of a] unat_order_encode_f64[of b]
  by (simp add: total_cmp_def cmp_of_def word_less_def word_uint_eq_iff)

lemma order_decode_encode_f64 [simp]: "order_decode_f64 (order_encode_f64 f) = f"
proof (cases "f64_sign f")
  case True
  then have "\<not> bit (NOT (to_bits f)) 63" by (simp add: f64_sign_bit bit_simps)
  then have "NOT (to_bits f) AND SIGN_MARK = 0" by (simp add: and_SIGN_MARK)
  with True show ?thesis
    by (cases f) (simp add: order_decode_f64_def order_encode_f64_def is_sign_positive_def)
next
  case False
  have "bit (to_bits f OR SIGN_MARK) 63" by (simp add: bit_simps bit_SIGN_MARK)
  then have "(to_bits f OR SIGN_MARK) AND SIGN_MARK = SIGN_MARK" by (simp only: and_SIGN_MARK if_True)
  moreover have "0 < SIGN_MARK" by (simp add: SIGN_MARK_def)
  moreover have "(to_bits f OR SIGN_MARK) AND NOT SIGN_MARK = to_bits f"
    using False by (intro bit_word_eqI) (auto simp: bit_simps bit_SIGN_MARK f64_sign_bit)
  ultimately show ?thesis using False
    by (cases f) (simp add: order_decode_f64_def order_encode_f64_def is_sign_positive_def)
qed

lemma top_minus:
  assumes "a < n" "b < n"
  shows "n - 1 - a < n - 1 - b \<longleftrightarrow> b < (a :: nat)" "n - 1 - a = n - 1 - b \<longleftrightarrow> b = (a :: nat)"
  using assms by auto

lemma not_cmp [simp]: "cmp_of (NOT a :: u64) (NOT b) = cmp_of b a"
proof -
  have "unat (NOT a) < unat (NOT b) \<longleftrightarrow> unat b < unat a" "unat (NOT a) = unat (NOT b) \<longleftrightarrow> unat b = unat a"
    using top_minus[of "unat a" "2 ^ 64" "unat b"] unat_u64_bound[of a] unat_u64_bound[of b]
    by (simp_all add: unat_not)
  then show ?thesis by (simp add: cmp_of_def word_less_nat_alt word_unat_eq_iff)
qed

section \<open>Round trip of the leaf encoders\<close>

lemma split_at_append [simp]: "length a = n \<Longrightarrow> split_at n (a @ b) = Some (a, b)"
  by (simp add: split_at_def)

lemma exact_int_bound:
  "exact_int i \<longleftrightarrow> - EXACT_INT_BOUND < sint i \<and> sint i < EXACT_INT_BOUND"
  by (simp add: exact_int_def EXACT_INT_BOUND_def)

lemma num_decode_encode: "num_decode_from_key (encode_num v @ rest) = Some (v, rest)"
  by (cases v) (simp_all add: num_decode_from_key_def encode_num_def f64_as_i64_exact
      exact_int_bound [symmetric])

text \<open>\<open>encode_bytes\<close> as a recursion on what is left of the key.\<close>

lemma encode_bytes_from_drop: "index \<le> length key \<Longrightarrow> encode_bytes_from key index = encode_bytes (drop index key)"
proof (induction "length key - index" arbitrary: index key rule: less_induct)
  case less
  show ?case
  proof (cases "length key - index < 8")
    case True
    then have "encode_bytes_from key (index + 8) = []" "encode_bytes_from (drop index key) 8 = []"
      using less.prems by (simp_all add: encode_bytes_from.simps[of key "index + 8"]
          encode_bytes_from.simps[of "drop index key" 8])
    then show ?thesis
      using less.prems True
      by (simp add: encode_bytes_def encode_bytes_from.simps[of key index]
          encode_bytes_from.simps[of "drop index key" 0])
  next
    case False
    then have l: "index + 8 \<le> length key" "8 \<le> length (drop index key)" using less.prems by simp_all
    have "encode_bytes_from key (index + 8) = encode_bytes (drop (index + 8) key)"
      using l False by (intro less.hyps) simp_all
    moreover have "encode_bytes_from (drop index key) 8 = encode_bytes (drop 8 (drop index key))"
      if "0 < index"
      using l False that by (intro less.hyps) simp_all
    ultimately show ?thesis
      using less.prems False l
      by (cases "index = 0") (simp_all add: encode_bytes_def encode_bytes_from.simps[of key index]
          encode_bytes_from.simps[of "drop index key" 0] add.commute Let_def)
  qed
qed

lemma encode_bytes_short:
  "length key < 8 \<Longrightarrow>
   encode_bytes key = key @ replicate (8 - length key) 0 @ [0xFF - of_nat (8 - length key)]"
  by (simp add: encode_bytes_def encode_bytes_from.simps[of key 0]
      encode_bytes_from.simps[of key 8] Let_def)

lemma encode_bytes_long:
  "8 \<le> length key \<Longrightarrow> encode_bytes key = take 8 key @ [0xFF] @ encode_bytes (drop 8 key)"
  using encode_bytes_from_drop[of 8 key]
  by (simp add: encode_bytes_def encode_bytes_from.simps[of key 0] Let_def)

lemma decode_encode_bytes: "decode_bytes (encode_bytes key @ rest) = Some (key, rest)"
proof (induction key rule: length_induct)
  case (1 key)
  show ?case
  proof (cases "length key < 8")
    case True
    let ?p = "8 - length key"
    have "unat (0xFF - (0xFF - of_nat ?p) :: u8) = ?p"
      by (simp add: unat_of_nat)
    then show ?thesis
      using True
      by (simp add: encode_bytes_short decode_bytes.simps[of "key @ _"] nth_append Let_def)
  next
    case False
    then have "decode_bytes (encode_bytes (drop 8 key) @ rest) = Some (drop 8 key, rest)"
      using 1 by simp
    then show ?thesis
      using False
      by (simp add: encode_bytes_long decode_bytes.simps[of "take 8 key @ _"] nth_append Let_def)
  qed
qed

lemma decode_encode_uuid:
  "length r = 8 \<Longrightarrow>
   decode_uuid (be_bytes 2 (unat h) @ be_bytes 2 (unat m) @ be_bytes 4 (unat l) @ r @ rest)
     = Some (Uuid_fields l m h r, rest)"
proof -
  assume r: "length r = 8"
  define d where "d = be_bytes 2 (unat h) @ be_bytes 2 (unat m) @ be_bytes 4 (unat l) @ r"
  have s: "split_at 16 (d @ rest) = Some (d, rest)" by (rule split_at_append) (simp add: d_def r)
  have t: "take 2 d = be_bytes 2 (unat h)" "take 2 (drop 2 d) = be_bytes 2 (unat m)"
    "take 4 (drop 4 d) = be_bytes 4 (unat l)" "drop 8 d = r"
    by (simp_all add: d_def)
  have b: "unat h < 65536" "unat m < 65536" "unat l < 4294967296"
    using unsigned_less[of h, where 'a = nat] unsigned_less[of m, where 'a = nat]
      unsigned_less[of l, where 'a = nat] by simp_all
  have "decode_uuid (d @ rest) = Some (Uuid_fields l m h r, rest)"
    by (simp add: decode_uuid_def s t b)
  then show ?thesis by (simp add: d_def)
qed

lemma decode_encode_lanes:
  assumes "\<And>x. length (w x) = k" "\<And>x. rd (w x) = x"
  shows "decode_lanes k rd (length xs) (concat (map w xs) @ rest) = Some (xs, rest)"
  by (induction xs) (simp_all add: assms)

lemma decode_encode_validity:
  "decode_validity (write_u64 (NOT (order_encode_i64 (timestamp v))) @ (if is_assert v then 0 else 1) # rest)
     = Some (v, rest)"
  by (simp add: decode_validity_def)

section \<open>Round trip of values\<close>

text \<open>The values the engine builds: vector lengths fit 64 bits, a UUID has its eight trailing
  bytes, JSON text is what \<open>to_string\<close> gives for a value, a regex compiles, and a set is
  in strictly ascending order.\<close>

fun wf_dv :: "ext \<Rightarrow> data_value \<Rightarrow> bool" where
  "wf_dv E (Uuid u) = (case u of Uuid_fields _ _ _ r \<Rightarrow> length r = 8)"
| "wf_dv E (Regex s) = regex_ok E s"
| "wf_dv E (List l) = list_all (wf_dv E) l"
| "wf_dv E (Set l) = (list_all (wf_dv E) l \<and> sorted_wrt (\<lambda>x y. dv_cmp E x y = Less) l)"
| "wf_dv E (Vec v) = (case v of VecF32 a \<Rightarrow> length a < 2 ^ 64 | VecF64 a \<Rightarrow> length a < 2 ^ 64)"
| "wf_dv E (Json s) = (json_norm E s = Some s)"
| "wf_dv E _ = True"

lemma btree_insert_max:
  "\<forall>y \<in> set ys. dv_cmp E x y = Greater \<Longrightarrow> btree_insert E x ys = (ys @ [x], True)"
  by (induction ys) simp_all

lemma btree_collect_sorted:
  assumes "ext_ok E"
  shows "sorted_wrt (\<lambda>x y. dv_cmp E x y = Less) xs \<Longrightarrow> btree_collect E xs = xs"
proof (induction xs rule: rev_induct)
  case Nil
  then show ?case by (simp add: btree_collect_def)
next
  case (snoc x xs)
  then have IH: "btree_collect E xs = xs" and "\<forall>y \<in> set xs. dv_cmp E y x = Less"
    by (simp_all add: sorted_wrt_append)
  then have "\<forall>y \<in> set xs. dv_cmp E x y = Greater"
    using comparison.cmp_Less_iff_Greater[OF dv_cmp_comparison[OF assms]] by blast
  from btree_insert_max[OF this] IH show ?case by (simp add: btree_collect_def)
qed

lemma encode_datavalue_Cons: "\<exists>t bs. encode_datavalue v = t # bs \<and> t \<noteq> INIT_TAG"
  by (cases v) simp_all

lemma encode_datavalue_pos [simp]: "0 < length (encode_datavalue v)"
  using encode_datavalue_Cons[of v] by auto

lemma decode_seq_encode:
  assumes "\<And>x n r. x \<in> set l \<Longrightarrow> 2 * length (encode_datavalue x) \<le> n \<Longrightarrow>
      decode_dv E n (encode_datavalue x @ r) = Some (Some (x, r))"
    and "2 * length (concat (map encode_datavalue l)) < n"
  shows "decode_seq E n (concat (map encode_datavalue l) @ INIT_TAG # rest) = Some (Some (l, rest))"
  using assms
proof (induction l arbitrary: n)
  case Nil
  then show ?case by (cases n) simp_all
next
  case (Cons x l)
  obtain t bs where t: "encode_datavalue x = t # bs" "t \<noteq> INIT_TAG"
    using encode_datavalue_Cons by blast
  obtain k where n: "n = Suc k" using Cons.prems(2) by (cases n) simp_all
  let ?tl = "concat (map encode_datavalue l) @ INIT_TAG # rest"
  have "decode_dv E k (encode_datavalue x @ ?tl) = Some (Some (x, ?tl))"
    using Cons.prems n by simp
  moreover have "decode_seq E k ?tl = Some (Some (l, rest))"
    using Cons.prems n t(1) by (intro Cons.IH) simp_all
  ultimately show ?case using n t by simp
qed

lemma two_le_D: "2 \<le> n \<Longrightarrow> \<exists>k. n = Suc k"
  by (cases n) simp_all

lemma unat_length: "length a < 2 ^ 64 \<Longrightarrow> unat (of_nat (length a) :: u64) = length a"
  by (simp add: unat_of_nat)

lemma decode_dv_encode:
  assumes "ext_ok E" "wf_dv E v" "2 * length (encode_datavalue v) \<le> n"
  shows "decode_dv E n (encode_datavalue v @ rest) = Some (Some (v, rest))"
  using assms(2,3)
proof (induction v arbitrary: n rest)
  case (Num x)
  then show ?case by (cases n) (simp_all add: num_decode_encode)
next
  case (Uuid u)
  then show ?case
    by (cases n; cases u) (simp_all add: decode_encode_uuid)
next
  case (List l)
  then obtain k where n: "n = Suc k" by (cases n) simp_all
  have "decode_seq E k (concat (map encode_datavalue l) @ INIT_TAG # rest) = Some (Some (l, rest))"
    using List n by (intro decode_seq_encode) (auto simp: list_all_iff)
  then show ?case using n by simp
next
  case (Set l)
  then obtain k where n: "n = Suc k" by (cases n) simp_all
  have "decode_seq E k (concat (map encode_datavalue l) @ INIT_TAG # rest) = Some (Some (l, rest))"
    using Set n by (intro decode_seq_encode) (auto simp: list_all_iff)
  then show ?case using n Set.prems by (simp add: btree_collect_sorted[OF assms(1)])
next
  case (Vec v)
  then obtain k where n: "n = Suc k" by (cases n) simp_all
  have 32: "decode_lanes 4 (\<lambda>b. F32 (of_nat (be_read b))) (length a)
      (concat (map (\<lambda>el. be_bytes 4 (unat (to_bits32 el))) a) @ rest) = Some (a, rest)" for a
    using unsigned_less[where 'a = nat and 'b = 32]
    by (intro decode_encode_lanes) simp_all
  have 64: "decode_lanes 8 (\<lambda>b. F64 (read_u64 b)) (length a)
      (concat (map (\<lambda>el. write_u64 (to_bits el)) a) @ rest) = Some (a, rest)" for a
    by (intro decode_encode_lanes) simp_all
  show ?case
    using Vec.prems n 32 64 by (cases v) (simp_all add: decode_vec_def unat_length)
next
  case (Validity v)
  then show ?case
    using decode_encode_validity[of v rest] by (cases n) simp_all
qed (auto simp: decode_encode_bytes dest!: Suc_le_D two_le_D)

text \<open>Every successful decoding consumes input, so twice the input's length bounds the
  recursion: more steps change nothing.\<close>

lemma split_at_length: "split_at n bs = Some (a, b) \<Longrightarrow> length b + n = length bs \<and> length a = n"
  by (auto simp: split_at_def split: if_splits)

lemma decode_bytes_consumes: "decode_bytes bs = Some (k, r) \<Longrightarrow> length r < length bs"
proof (induction bs arbitrary: k r rule: decode_bytes.induct)
  case (1 data)
  have l: "ENC_GROUP_SIZE + 1 \<le> length data"
    using "1.prems" by (subst (asm) decode_bytes.simps) (simp split: if_splits)
  show ?case
  proof (cases "unat (ENC_MARKER - data ! ENC_GROUP_SIZE) = 0")
    case True
    then obtain k' where "decode_bytes (drop (ENC_GROUP_SIZE + 1) data) = Some (k', r)"
      using "1.prems" l
      by (subst (asm) decode_bytes.simps) (auto split: option.splits)
    then have "length r < length (drop (ENC_GROUP_SIZE + 1) data)"
      using "1.IH" l True by simp
    then show ?thesis by simp
  next
    case False
    then have "r = drop (ENC_GROUP_SIZE + 1) data"
      using "1.prems" l
      by (subst (asm) decode_bytes.simps) (auto simp: Let_def split: if_splits)
    then show ?thesis using l by simp
  qed
qed

lemma num_decode_consumes: "num_decode_from_key bs = Some (k, r) \<Longrightarrow> length r < length bs"
  by (auto simp: num_decode_from_key_def Let_def dest!: split_at_length split: option.splits list.splits if_splits)

lemma decode_lanes_consumes: "decode_lanes w rd n bs = Some (k, r) \<Longrightarrow> length r \<le> length bs"
  by (induction n arbitrary: bs k) (fastforce dest!: split_at_length split: option.splits)+

lemma decode_vec_consumes: "decode_vec bs = Some (k, r) \<Longrightarrow> length r < length bs"
  by (auto simp: decode_vec_def Let_def dest!: split_at_length decode_lanes_consumes
      split: option.splits list.splits if_splits)

lemma decode_uuid_consumes: "decode_uuid bs = Some (k, r) \<Longrightarrow> length r < length bs"
  by (auto simp: decode_uuid_def dest!: split_at_length split: option.splits)

lemma decode_validity_consumes: "decode_validity bs = Some (k, r) \<Longrightarrow> length r < length bs"
  by (auto simp: decode_validity_def dest!: split_at_length split: option.splits list.splits)

definition shrinks :: "nat \<Rightarrow> ('a \<times> bytes) option \<Rightarrow> bool" where
  "shrinks n res \<longleftrightarrow> (\<forall>v r. res = Some (v, r) \<longrightarrow> length r \<le> n)"

lemma shrinks_rules:
  "shrinks n None" "length r \<le> n \<Longrightarrow> shrinks n (Some (v, r))"
  "shrinks n p \<Longrightarrow> shrinks n q \<Longrightarrow> shrinks n (if b then p else q)"
  "shrinks n res \<Longrightarrow> shrinks n (map_option (\<lambda>(x, r). (c x, r)) res)"
  by (auto simp: shrinks_def)

lemma shrinks_bind:
  "(\<And>x r. res = Some (x, r) \<Longrightarrow> shrinks n (k x r)) \<Longrightarrow>
   shrinks n (case res of None \<Rightarrow> None | Some (x, r) \<Rightarrow> k x r)"
  by (cases res) (auto simp: shrinks_rules)

lemma shrinks_leaf:
  "shrinks (length bs) (decode_bytes bs)" "shrinks (length bs) (num_decode_from_key bs)"
  "shrinks (length bs) (decode_vec bs)" "shrinks (length bs) (decode_uuid bs)"
  "shrinks (length bs) (decode_validity bs)"
  using decode_bytes_consumes num_decode_consumes decode_vec_consumes decode_uuid_consumes
    decode_validity_consumes
  by (auto simp: shrinks_def intro: less_imp_le)

lemma answer_simps [simp]:
  "answer None = None" "answer (Some r) = r" "answer (if b then p else q) = (if b then answer p else answer q)"
  "answer (map_option (map_option f) p) = map_option f (answer p)"
  by (simp_all add: answer_def split: option.split)

lemma answer_eq_Some: "answer p = Some x \<longleftrightarrow> p = Some (Some x)"
  by (cases p) simp_all

lemma decode_shrinks:
  "shrinks (length bs - 1) (answer (decode_dv E n bs)) \<and> (bs = [] \<longrightarrow> answer (decode_dv E n bs) = None)"
  "shrinks (length bs - 1) (answer (decode_seq E n bs)) \<and> (bs = [] \<longrightarrow> answer (decode_seq E n bs) = None)"
proof (induction n arbitrary: bs)
  case (Suc n)
  {
    case 1
    have s: "shrinks (length r) (answer (decode_seq E n r))" for r
      using Suc.IH(2)[of r] unfolding shrinks_def by (meson diff_le_self le_trans)
    have j: "shrinks m (map_option (\<lambda>j. (Json j, r)) q)" if "length r \<le> m" for m r q
      using that by (cases q) (simp_all add: shrinks_def)
    show ?case
    proof (cases bs)
      case (Cons t r)
      have "shrinks (length r) (answer (decode_dv E (Suc n) (t # r)))"
        unfolding decode_dv.simps list.case answer_simps
        by (intro shrinks_rules shrinks_leaf s shrinks_bind j order_refl
            decode_bytes_consumes[THEN less_imp_le]) simp_all
      then show ?thesis using Cons by simp
    qed (simp add: shrinks_rules)
  next
    case 2
    show ?case
    proof (cases bs)
      case (Cons t r)
      have "length r2 \<le> length r" if "decode_dv E n (t # r) = Some (Some (v, r1))"
          "decode_seq E n r1 = Some (Some (l, r2))" for v r1 l r2
        using Suc.IH(1)[of "t # r"] Suc.IH(2)[of r1] that unfolding shrinks_def by force
      then show ?thesis using Cons by (auto simp: shrinks_def answer_eq_Some split: option.splits)
    qed (simp add: shrinks_rules)
  }
qed (simp_all add: shrinks_rules)

lemma decode_consumes:
  assumes "decode_dv E n bs = Some (Some (v, r))"
  shows "length r < length bs"
proof -
  have "bs \<noteq> []" "length r \<le> length bs - 1"
    using decode_shrinks(1)[of bs E n] assms by (auto simp: shrinks_def)
  then show ?thesis by (cases bs) simp_all
qed

lemma decode_from_key_consumes: "decode_from_key E bs = Some (v, r) \<Longrightarrow> length r < length bs"
  unfolding decode_from_key_def answer_eq_Some by (rule decode_consumes)

lemma decode_fuel:
  "2 * length bs < n \<Longrightarrow> 2 * length bs < m \<Longrightarrow> \<exists>res. decode_dv E n bs = Some res \<and> decode_dv E m bs = Some res"
  "Suc (2 * length bs) < n \<Longrightarrow> Suc (2 * length bs) < m \<Longrightarrow> \<exists>res. decode_seq E n bs = Some res \<and> decode_seq E m bs = Some res"
proof (induction n arbitrary: m bs)
  case (Suc n)
  {
    case 1
    then obtain k where m: "m = Suc k" by (cases m) simp_all
    show ?case
    proof (cases bs)
      case (Cons t r)
      then have "\<exists>res. decode_seq E n r = Some res \<and> decode_seq E k r = Some res" using 1 m by (intro Suc.IH) simp_all
      then show ?thesis using Cons m by auto
    qed (simp add: m)
  next
    case 2
    then obtain k where m: "m = Suc k" by (cases m) simp_all
    obtain res where d: "decode_dv E n bs = Some res" "decode_dv E k bs = Some res"
      using Suc.IH(1)[of bs k] 2 m by auto
    have s: "\<exists>res. decode_seq E n r = Some res \<and> decode_seq E k r = Some res" if "res = Some (v, r)" for v r
      using 2 m decode_consumes d(2) that by (intro Suc.IH) fastforce+
    show ?case using m d s by (cases bs; cases res) auto
  }
qed simp_all

lemma decode_from_key_fuel: "2 * length bs < n \<Longrightarrow> decode_dv E n bs = Some (decode_from_key E bs)"
  using decode_fuel(1)[of bs n "2 * length bs + 1" E] unfolding decode_from_key_def by auto

lemma decode_encode_datavalue:
  "ext_ok E \<Longrightarrow> wf_dv E v \<Longrightarrow> decode_from_key E (encode_datavalue v @ rest) = Some (v, rest)"
  unfolding decode_from_key_def answer_eq_Some by (rule decode_dv_encode) simp_all

section \<open>The encoding preserves order\<close>

text \<open>One group of \<open>encode_bytes\<close>: the bytes padded with zeros, and the marker that says how
  many of them count.\<close>

definition enc_group :: "bytes \<Rightarrow> bytes" where
  "enc_group g = g @ replicate (8 - length g) 0 @ [0xFF - of_nat (8 - length g)]"

lemma encode_bytes_group:
  "encode_bytes key = enc_group (take 8 key) @ (if 8 \<le> length key then encode_bytes (drop 8 key) else [])"
  by (cases "8 \<le> length key") (simp_all add: enc_group_def encode_bytes_short encode_bytes_long)

lemma zeros_least: "length ys = n \<Longrightarrow> bytes_cmp (replicate n 0) ys \<noteq> Greater"
proof (induction n arbitrary: ys)
  case (Suc n)
  then obtain y zs where "ys = y # zs" "length zs = n" by (cases ys) simp_all
  then show ?case using Suc.IH[of zs] by (auto simp: cmp_of_def word_neq_0_conv)
qed simp

lemma zeros_most: "length ys = n \<Longrightarrow> bytes_cmp ys (replicate n 0) \<noteq> Less"
  using zeros_least[of ys n] bytes_order.cmp_dual[of "replicate n 0" ys]
  by (cases "bytes_cmp ys (replicate n 0)") auto

lemma padded_cmp:
  "length a \<le> n \<Longrightarrow> length b \<le> n \<Longrightarrow>
   then_with (bytes_cmp (a @ replicate (n - length a) 0) (b @ replicate (n - length b) 0))
     (cmp_of (length a) (length b)) = bytes_cmp a b"
proof (induction n arbitrary: a b)
  case (Suc n)
  show ?case
  proof (cases a)
    case Nil
    then show ?thesis
      using Suc.prems zeros_least[of "b @ replicate (Suc n - length b) 0" "Suc n"]
      by (cases b; cases "bytes_cmp (replicate (Suc n) 0) (b @ replicate (Suc n - length b) 0)")
        (simp_all add: cmp_of_def)
  next
    case a: (Cons x xs)
    show ?thesis
    proof (cases b)
      case Nil
      then show ?thesis
        using a Suc.prems zeros_most[of "a @ replicate (Suc n - length a) 0" "Suc n"]
        by (cases "bytes_cmp (a @ replicate (Suc n - length a) 0) (replicate (Suc n) 0)")
          (simp_all add: cmp_of_def)
    next
      case (Cons y ys)
      have "cmp_of (Suc k) (Suc l) = cmp_of k l" for k l by (simp add: cmp_of_def)
      then show ?thesis
        using a Cons Suc.prems Suc.IH[of xs ys] by (simp add: then_with_assoc)
    qed
  qed
qed simp

lemma marker_cmp:
  assumes "l \<le> 8" "m \<le> 8"
  shows "cmp_of (0xFF - of_nat (8 - l) :: u8) (0xFF - of_nat (8 - m)) = cmp_of l m"
proof -
  have u: "unat (0xFF - of_nat (8 - k) :: u8) = 247 + k" if "k \<le> 8" for k
  proof -
    have "k = 0 \<or> k = 1 \<or> k = 2 \<or> k = 3 \<or> k = 4 \<or> k = 5 \<or> k = 6 \<or> k = 7 \<or> k = 8"
      using that by arith
    then show ?thesis by (elim disjE) simp_all
  qed
  have "(0xFF - of_nat (8 - l) :: u8) < 0xFF - of_nat (8 - m) \<longleftrightarrow> l < m"
    unfolding word_less_nat_alt u[OF assms(1)] u[OF assms(2)] by simp
  moreover have "(0xFF - of_nat (8 - l) :: u8) = 0xFF - of_nat (8 - m) \<longleftrightarrow> l = m"
    unfolding word_unat_eq_iff u[OF assms(1)] u[OF assms(2)] by simp
  ultimately show ?thesis by (simp only: cmp_of_def)
qed

lemma enc_group_cmp:
  assumes "length a \<le> 8" "length b \<le> 8"
  shows "bytes_cmp (enc_group a @ r) (enc_group b @ s) = then_with (bytes_cmp a b) (bytes_cmp r s)"
proof -
  let ?p = "\<lambda>a. a @ replicate (8 - length a) 0" and ?m = "\<lambda>a. 0xFF - of_nat (8 - length a) :: u8"
  have "length (?p a) = length (?p b)" using assms by simp
  from bytes_cmp_append_eq_length[OF this]
  have "bytes_cmp (?p a @ ?m a # r) (?p b @ ?m b # s)
      = then_with (bytes_cmp (?p a) (?p b)) (bytes_cmp (?m a # r) (?m b # s))" .
  also have "\<dots> = then_with (then_with (bytes_cmp (?p a) (?p b)) (cmp_of (length a) (length b))) (bytes_cmp r s)"
    by (simp only: bytes_cmp_simps marker_cmp[OF assms] then_with_assoc)
  finally show ?thesis unfolding padded_cmp[OF assms] by (simp only: enc_group_def append_assoc append_Cons append_Nil)
qed

lemma bytes_cmp_take_drop:
  "bytes_cmp a b = then_with (bytes_cmp (take n a) (take n b)) (bytes_cmp (drop n a) (drop n b))"
proof (induction n arbitrary: a b)
  case (Suc n)
  show ?case by (cases a; cases b) (simp_all add: then_with_assoc flip: Suc.IH)
qed simp

lemma encode_bytes_cmp:
  "bytes_cmp (encode_bytes a @ r) (encode_bytes b @ s) = then_with (bytes_cmp a b) (bytes_cmp r s)"
proof (induction a arbitrary: b rule: length_induct)
  case (1 a)
  let ?t = "\<lambda>k. if 8 \<le> length k then encode_bytes (drop 8 k) else []"
  have "bytes_cmp (encode_bytes a @ r) (encode_bytes b @ s)
      = then_with (bytes_cmp (take 8 a) (take 8 b)) (bytes_cmp (?t a @ r) (?t b @ s))"
    using enc_group_cmp[of "take 8 a" "take 8 b"] by (simp add: encode_bytes_group[of a] encode_bytes_group[of b])
  also have "\<dots> = then_with (then_with (bytes_cmp (take 8 a) (take 8 b)) (bytes_cmp (drop 8 a) (drop 8 b))) (bytes_cmp r s)"
  proof (cases "take 8 a = take 8 b")
    case True
    then have "min (length a) 8 = min (length b) 8" by (metis length_take)
    then have l: "8 \<le> length a \<longleftrightarrow> 8 \<le> length b" by linarith
    show ?thesis
    proof (cases "8 \<le> length a")
      case 8: True
      then have "length (drop 8 a) < length a" by simp
      then have "bytes_cmp (encode_bytes (drop 8 a) @ r) (encode_bytes (drop 8 b) @ s)
          = then_with (bytes_cmp (drop 8 a) (drop 8 b)) (bytes_cmp r s)"
        using 1 by blast
      then show ?thesis using 8 l True by simp
    qed (use l True in simp)
  next
    case False
    then have "bytes_cmp (take 8 a) (take 8 b) \<noteq> Equal" by simp
    then show ?thesis by (cases "bytes_cmp (take 8 a) (take 8 b)") simp_all
  qed
  also have "\<dots> = then_with (bytes_cmp a b) (bytes_cmp r s)"
    using bytes_cmp_take_drop[of a b 8] by simp
  finally show ?case .
qed

interpretation bytes_enc: order_encoding encode_bytes bytes_cmp "\<lambda>_. True"
  by unfold_locales (rule encode_bytes_cmp)

lemma encode_num_cmp:
  "bytes_cmp (encode_num a @ r) (encode_num b @ s) = then_with (number_cmp a b) (bytes_cmp r s)"
proof -
  let ?t = "\<lambda>v. case v of
        NInt i \<Rightarrow>
          if - EXACT_INT_BOUND < sint i \<and> sint i < EXACT_INT_BOUND then [IS_EXACT_INT]
          else IS_APPROX_INT # write_u64 (order_encode_i64 i)
      | NFloat _ \<Rightarrow> [IS_FLOAT]"
  have tail: "bytes_cmp (?t a @ r) (?t b @ s) =
      then_with (then_with (cmp_of (is_Float a) (is_Float b)) (cmp_of (int_key a) (int_key b))) (bytes_cmp r s)"
    if f: "num_get_float a = num_get_float b"
  proof (cases a; cases b)
    fix i j assume ab: "a = NInt i" "b = NInt j"
    have "i = j" if "exact_int i \<or> exact_int j"
      using that f ab exact_int_separates[of i j] exact_int_separates[of j i]
        f64_as_i64_exact[of i] f64_as_i64_exact[of j] by auto
    then show ?thesis
      using ab by (auto simp: u64_enc.enc_cmp simp flip: exact_int_bound)
  qed (auto simp: cmp_of_def)
  have "bytes_cmp (encode_num a @ r) (encode_num b @ s) =
      then_with (total_cmp (num_get_float a) (num_get_float b)) (bytes_cmp (?t a @ r) (?t b @ s))"
    by (simp add: encode_num_def u64_enc.enc_cmp)
  then show ?thesis
    using tail unfolding number_cmp_key
    by (cases "total_cmp (num_get_float a) (num_get_float b)") (simp_all add: total_cmp_Equal total_float.cmp_refl)
qed

interpretation num_enc: order_encoding encode_num number_cmp "\<lambda>_. True"
  by unfold_locales (rule encode_num_cmp)

definition encode_validity :: "validity \<Rightarrow> bytes" where
  "encode_validity vld = write_u64 (NOT (order_encode_i64 (timestamp vld))) @ [if is_assert vld then 0 else 1]"

definition encode_uuid :: "uuid \<Rightarrow> bytes" where
  "encode_uuid u = (case u of Uuid_fields s_l s_m s_h s_rest \<Rightarrow>
     be_bytes 2 (unat s_h) @ be_bytes 2 (unat s_m) @ be_bytes 4 (unat s_l) @ s_rest)"

definition uuid_ok :: "uuid \<Rightarrow> bool" where
  "uuid_ok u \<longleftrightarrow> (case u of Uuid_fields _ _ _ r \<Rightarrow> length r = 8)"

interpretation validity_enc: order_encoding encode_validity validity_cmp "\<lambda>_. True"
proof unfold_locales
  fix x y r s
  show "bytes_cmp (encode_validity x @ r) (encode_validity y @ s) =
      then_with (validity_cmp x y) (bytes_cmp r s)"
    by (cases "is_assert x"; cases "is_assert y")
      (simp_all add: encode_validity_def validity_cmp_def u64_enc.enc_cmp then_with_assoc, simp_all add: cmp_of_def)
qed

interpretation uuid_enc: order_encoding encode_uuid uuid_cmp uuid_ok
proof (rule order_encoding_by_key)
  fix x y assume xy: "uuid_ok x" "uuid_ok y"
  obtain l m h t l' m' h' t' where [simp]: "x = Uuid_fields l m h t" "y = Uuid_fields l' m' h' t'"
    by (cases x; cases y)
  show "length (encode_uuid x) = length (encode_uuid y)"
    using xy by (simp add: encode_uuid_def uuid_ok_def)
  have be: "bytes_cmp (be_bytes k a @ u) (be_bytes k b @ v) = then_with (cmp_of a b) (bytes_cmp u v)"
    if "a < 256 ^ k" "b < 256 ^ k" for k a b u v
    using that bytes_cmp_append_eq_length[of "be_bytes k a" "be_bytes k b" u v] be_bytes_cmp by simp
  have 2: "unat w < 256 ^ 2" for w :: "16 word" using unsigned_less[of w, where 'a = nat] by simp
  have 4: "unat w < 256 ^ 4" for w :: "32 word" using unsigned_less[of w, where 'a = nat] by simp
  have w2: "cmp_of (unat a) (unat b) = cmp_of a b" for a b :: "16 word"
    by (auto simp: cmp_of_def word_less_nat_alt word_unat_eq_iff)
  have w4: "cmp_of (unat a) (unat b) = cmp_of a b" for a b :: "32 word"
    by (auto simp: cmp_of_def word_less_nat_alt word_unat_eq_iff)
  show "bytes_cmp (encode_uuid x) (encode_uuid y) = uuid_cmp x y"
    by (simp only: encode_uuid_def uuid.case uuid_cmp.simps be[OF 2 2] be[OF 4 4] w2 w4
        \<open>x = _\<close> \<open>y = _\<close>)
qed

text \<open>The values on which the byte order is the derived order: everything built without vectors
  and JSON.\<close>

fun memcmp_ordered :: "data_value \<Rightarrow> bool" where
  "memcmp_ordered (Vec _) = False"
| "memcmp_ordered (Json _) = False"
| "memcmp_ordered (Uuid u) = uuid_ok u"
| "memcmp_ordered (List l) = list_all memcmp_ordered l"
| "memcmp_ordered (Set l) = list_all memcmp_ordered l"
| "memcmp_ordered _ = True"

lemma encode_seq_cmp:
  assumes "\<And>x y r s. x \<in> set xs \<Longrightarrow> y \<in> set ys \<Longrightarrow>
      bytes_cmp (encode_datavalue x @ r) (encode_datavalue y @ s) = then_with (dv_cmp E x y) (bytes_cmp r s)"
  shows "bytes_cmp (concat (map encode_datavalue xs) @ INIT_TAG # r) (concat (map encode_datavalue ys) @ INIT_TAG # s)
    = then_with (dvs_cmp E xs ys) (bytes_cmp r s)"
  using assms
proof (induction xs arbitrary: ys)
  case Nil
  show ?case
  proof (cases ys)
    case (Cons y zs)
    obtain t bs where "encode_datavalue y = t # bs" "t \<noteq> INIT_TAG"
      using encode_datavalue_Cons by blast
    then show ?thesis using Cons by (auto simp: cmp_of_def word_neq_0_conv)
  qed simp
next
  case (Cons x xs)
  show ?case
  proof (cases ys)
    case Nil
    obtain t bs where "encode_datavalue x = t # bs" "t \<noteq> INIT_TAG"
      using encode_datavalue_Cons by blast
    then show ?thesis using Nil by (auto simp: cmp_of_def)
  next
    case ys: (Cons y zs)
    then show ?thesis
      using Cons.IH[of zs] Cons.prems by (simp add: then_with_assoc)
  qed
qed

lemma encode_datavalue_cmp:
  "memcmp_ordered x \<Longrightarrow> memcmp_ordered y \<Longrightarrow>
   bytes_cmp (encode_datavalue x @ r) (encode_datavalue y @ s) = then_with (dv_cmp E x y) (bytes_cmp r s)"
proof (induction x arbitrary: y r s)
  case (List l)
  then show ?case
    by (cases y) (simp_all add: encode_seq_cmp[unfolded INIT_TAG_def] list_all_iff, simp_all add: cmp_of_def)
next
  case (Set l)
  then show ?case
    by (cases y) (simp_all add: encode_seq_cmp[unfolded INIT_TAG_def] list_all_iff, simp_all add: cmp_of_def)
next
  case (Num n)
  then show ?case by (cases y) (simp_all add: num_enc.enc_cmp, simp_all add: cmp_of_def)
next
  case (Uuid u)
  then show ?case
    using uuid_enc.enc_cmp by (cases y) (simp_all add: encode_uuid_def, simp_all add: cmp_of_def)
next
  case (Validity v)
  then show ?case
    using validity_enc.enc_cmp by (cases y) (simp_all add: encode_validity_def, simp_all add: cmp_of_def)
next
  case Null
  then show ?case by (cases y) (simp_all add: cmp_of_def)
next
  case (Bool b)
  then show ?case by (cases y) (simp_all add: cmp_of_def)
next
  case (Bot)
  then show ?case by (cases y) (simp_all add: cmp_of_def)
next
  case (Str s)
  then show ?case by (cases y) (simp_all add: bytes_enc.enc_cmp, simp_all add: cmp_of_def)
next
  case (Bytes s)
  then show ?case by (cases y) (simp_all add: bytes_enc.enc_cmp, simp_all add: cmp_of_def)
next
  case (Regex s)
  then show ?case by (cases y) (simp_all add: bytes_enc.enc_cmp, simp_all add: cmp_of_def)
qed simp_all

interpretation dv_enc: order_encoding encode_datavalue "dv_cmp E" memcmp_ordered for E
  by unfold_locales (rule encode_datavalue_cmp)

section \<open>Properties\<close>

text \<open>C2. The key encoding is order preserving: on values built without vectors and JSON,
  comparing the encoded bytes is comparing the values.  Integers and floats of any magnitude are
  interleaved correctly, strings of any length are compared as strings although they are stored
  in groups of eight bytes, and validities are stored newest first.\<close>

theorem memcmp_order_preserving:
  assumes "memcmp_ordered x" "memcmp_ordered y"
  shows "bytes_cmp (encode_datavalue x) (encode_datavalue y) = dv_cmp E x y"
  by (rule dv_enc.enc_order[OF assms])

theorem memcmp_order_preserving_witness:
  "bytes_cmp (encode_datavalue (List [Str [97, 98], Num (NInt 7)]))
     (encode_datavalue (List [Str [97, 98, 0], Null])) = Less"
  using memcmp_order_preserving[of "List [Str [97, 98], Num (NInt 7)]" "List [Str [97, 98, 0], Null]"
      sample_ext]
  by simp

text \<open>C11. Decoding inverts encoding: a well-formed value followed by any bytes is read back
  exactly, and the bytes after it are returned untouched.\<close>

theorem memcmp_roundtrip:
  assumes "ext_ok E" "wf_dv E v"
  shows "decode_from_key E (encode_datavalue v @ rest) = Some (v, rest)"
  by (rule decode_encode_datavalue[OF assms])

theorem memcmp_roundtrip_witness:
  "decode_from_key sample_ext
     (encode_datavalue (Set [Null, Num (NInt (- 1)), List [Str [1, 2, 3, 4, 5, 6, 7, 8, 9]]]) @ [42])
   = Some (Set [Null, Num (NInt (- 1)), List [Str [1, 2, 3, 4, 5, 6, 7, 8, 9]]], [42])"
  by (rule memcmp_roundtrip[OF sample_ext_ok]) (simp add: cmp_of_def)

text \<open>C36. Decoding ends on every input, corrupted keys included: once the depth of the recursion may
  exceed twice the length of the input, the decoder has an answer, a value or a panic, and more depth
  does not change it.\<close>

theorem decode_terminates:
  assumes "2 * length bs < n"
  shows "decode_dv E n bs = Some (decode_from_key E bs)"
  by (rule decode_from_key_fuel[OF assms])

theorem decode_terminates_witness:
  "decode_dv sample_ext 100 [0x0A, 0x05, 0x01] = Some (decode_from_key sample_ext [0x0A, 0x05, 0x01])"
  by (rule decode_terminates) simp

section \<open>Where the byte order is not the value order\<close>

lemma negative_lane_misordered:
  "bytes_cmp (encode_datavalue (Vec (VecF64 [F64 0xBFF0000000000000])))
     (encode_datavalue (Vec (VecF64 [F64 0x3FF0000000000000]))) = Greater
   \<and> dv_cmp sample_ext (Vec (VecF64 [F64 0xBFF0000000000000]))
       (Vec (VecF64 [F64 0x3FF0000000000000])) = Less"
proof -
  have "bytes_cmp (write_u64 0xBFF0000000000000) (write_u64 0x3FF0000000000000) = Greater"
    unfolding write_u64_cmp by (simp add: cmp_of_def)
  moreover have "vector_cmp sample_ext (VecF64 [F64 0xBFF0000000000000]) (VecF64 [F64 0x3FF0000000000000]) = Less"
    by (simp add: sample_ext_def ordered_key64_def f64_is_nan_def ieee_key_def f64_sign_def
        f64_mag_def cmp_of_def)
  ultimately show ?thesis by simp
qed

text \<open>C37. Outside that fragment the stored order and the value order differ: every vector sorts
  after every number as a value and before it as a key; every validity sorts after every JSON
  value and before it as a key; and lanes are stored as raw IEEE bits, so the vector
  \<open>[-1.0]\<close> is stored after \<open>[1.0]\<close>.\<close>

theorem key_order_divergence:
  "dv_cmp E (Vec v) (Num n) = Greater
     \<and> bytes_cmp (encode_datavalue (Vec v)) (encode_datavalue (Num n)) = Less
   \<and> dv_cmp E (Validity vld) (Json j) = Greater
     \<and> bytes_cmp (encode_datavalue (Validity vld)) (encode_datavalue (Json j)) = Less
   \<and> dv_cmp sample_ext (Vec (VecF64 [F64 0xBFF0000000000000]))
         (Vec (VecF64 [F64 0x3FF0000000000000])) = Less
     \<and> bytes_cmp (encode_datavalue (Vec (VecF64 [F64 0xBFF0000000000000])))
         (encode_datavalue (Vec (VecF64 [F64 0x3FF0000000000000]))) = Greater"
  using negative_lane_misordered by (simp add: cmp_of_def)

end
