(* ===== verification/Tuples.thy ===== *)
theory Tuples
  imports Memcmp "HOL-Library.Sublist"
begin

text \<open>
  Tuples and their keys (\<open>data/tuple.rs\<close>, and the row decoding of \<open>runtime/relation.rs\<close>): a
  key is the relation id in eight big-endian bytes followed by the encoded key columns; a row's
  value is a MessagePack blob.  The facts here are the ones every scan relies on: keys decode to
  the tuple they encode, keys of a relation never run into each other (no encoded tuple is a
  proper prefix of another one of the same arity), and the versions of one row, which differ in
  the trailing validity only, are contiguous and stored newest first.
\<close>

type_synonym tuple = "data_value list"

text \<open>A symbol is the bytes of its name, which is what its order and equality read.\<close>

type_synonym symbol = bytes

text \<open>The failures the modelled operations report; \<open>Panic\<close> is a Rust panic.\<close>

datatype error =
    Panic
  | CorruptValueBlob
  | WriteInReadTx
  | StoredRelArityMismatch
  | InsufficientAccessLevel
  | InvalidNullValue
  | DataCoercionFailed
  | BadListLength
  | DataCoercionFromBot
  | BadBase64EncodedString
  | TxTimeUserSupplied
  | InvalidValidity
  | FloatValidity
  | TimestampOutOfRange
  | ColumnNotProvided
  | IncompatibleTyping
  | ColumnNotFound
  | InvalidTemporalAxes nat
  | BelowGcFloor
  | NoVtAxis
  | NoTtAxis
  | InvalidTimeTravelScanning
  | CorruptBitemporalKey
  | CorruptTtHwm
  | TtAssertRetractConflict
  | StorageUnversioned
  | StorageVersionMismatch
  | UnStratifiableProgram
  | ProcessKilled
  | OpFailed
  | EvalRaised
  | UnboundVariable symbol
  | TupleTooShort symbol nat nat
  | PredicateType data_value
  | NoImplementation bytes
  | BadBinding symbol
  | NotConst
  | StrRangeScan data_value
  | InvalidFields
  | EmptyCond
  | WrongArgsToIf

type_synonym 'a result = "error + 'a"

fun bind_res :: "'a result \<Rightarrow> ('a \<Rightarrow> 'b result) \<Rightarrow> 'b result" where
  "bind_res (Inl e) f = Inl e"
| "bind_res (Inr x) f = f x"

fun map_res :: "('a \<Rightarrow> 'b) \<Rightarrow> 'a result \<Rightarrow> 'b result" where
  "map_res f (Inl e) = Inl e"
| "map_res f (Inr x) = Inr (f x)"

fun ok_or :: "error \<Rightarrow> 'a option \<Rightarrow> 'a result" where
  "ok_or e None = Inl e"
| "ok_or e (Some x) = Inr x"

fun map_err :: "error \<Rightarrow> 'a result \<Rightarrow> 'a result" where
  "map_err e (Inl _) = Inl e"
| "map_err e (Inr x) = Inr x"

lemma map_err_eq_Inr [simp]: "map_err e r = Inr y \<longleftrightarrow> r = Inr y"
  by (cases r) simp_all

lemma bind_res_eq_Inr: "bind_res r f = Inr y \<longleftrightarrow> (\<exists>x. r = Inr x \<and> f x = Inr y)"
  by (cases r) simp_all

lemma map_res_eq_Inr: "map_res f r = Inr y \<longleftrightarrow> (\<exists>x. r = Inr x \<and> y = f x)"
  by (cases r) auto

lemma ok_or_eq_Inr [simp]: "ok_or e q = Inr y \<longleftrightarrow> q = Some y"
  by (cases q) simp_all

text \<open>\<open>try_collect\<close> on an iterator of results: the first error ends it.\<close>

fun collect_res :: "('a \<Rightarrow> 'b result) \<Rightarrow> 'a list \<Rightarrow> 'b list result" where
  "collect_res f [] = Inr []"
| "collect_res f (x # xs) = bind_res (f x) (\<lambda>y. map_res (\<lambda>ys. y # ys) (collect_res f xs))"

lemma collect_res_cong [fundef_cong]:
  "xs = ys \<Longrightarrow> (\<And>x. x \<in> set ys \<Longrightarrow> f x = g x) \<Longrightarrow> collect_res f xs = collect_res g ys"
  by (induction xs arbitrary: ys) auto

lemma collect_res_eq_Inr: "collect_res f xs = Inr ys \<longleftrightarrow> list_all2 (\<lambda>x y. f x = Inr y) xs ys"
  by (induction xs arbitrary: ys) (auto simp: bind_res_eq_Inr map_res_eq_Inr list_all2_Cons1)

section \<open>Relation ids\<close>

definition relation_id_new :: "u64 \<Rightarrow> u64 option" where
  "relation_id_new u = (if 2 ^ 48 < unat u then None else Some u)"

definition relation_id_next :: "u64 \<Rightarrow> u64 option" where
  "relation_id_next u = relation_id_new (u + 1)"

definition raw_encode :: "u64 \<Rightarrow> bytes" where
  "raw_encode u = write_u64 u"

definition raw_decode :: "bytes \<Rightarrow> u64 option" where
  "raw_decode src = (if length src < 8 then None else relation_id_new (read_u64 (take 8 src)))"

section \<open>Keys\<close>

definition ENCODED_KEY_MIN_LEN :: nat where [simp]: "ENCODED_KEY_MIN_LEN = 8"

definition encode_as_key :: "u64 \<Rightarrow> tuple \<Rightarrow> bytes" where
  "encode_as_key rel t = write_u64 rel @ concat (map encode_datavalue t)"

text \<open>The loop \<open>while !remaining.is_empty()\<close>.\<close>

function decode_values :: "ext \<Rightarrow> bytes \<Rightarrow> tuple option" where
  "decode_values E remaining =
     (if remaining = [] then Some []
      else case decode_from_key E remaining of
          None \<Rightarrow> None
        | Some (val, next) \<Rightarrow> map_option (\<lambda>ret. val # ret) (decode_values E next))"
  by pat_completeness auto
termination
  by (relation "measure (\<lambda>(E, remaining). length remaining)")
    (auto dest: decode_from_key_consumes)

declare decode_values.simps [simp del]

definition decode_tuple_from_key :: "ext \<Rightarrow> bytes \<Rightarrow> tuple option" where
  "decode_tuple_from_key E key =
     (if length key < ENCODED_KEY_MIN_LEN then None
      else decode_values E (drop ENCODED_KEY_MIN_LEN key))"

definition MAX_VALIDITY_TS :: i64 where
  "MAX_VALIDITY_TS = 0x7FFFFFFFFFFFFFFF"

definition TERMINAL_VALIDITY :: validity where
  "TERMINAL_VALIDITY = \<lparr>timestamp = 0x8000000000000000, is_assert = False\<rparr>"

text \<open>The first component is the tuple to return, the second the next seek bound.  Timestamps
  are wrapped in \<open>Reverse\<close>, so \<open>vld.timestamp < valid_at\<close> says that the row is later than
  \<open>valid_at\<close>.\<close>

definition check_key_for_validity :: "ext \<Rightarrow> bytes \<Rightarrow> i64 \<Rightarrow> (tuple option \<times> bytes) option" where
  "check_key_for_validity E key valid_at =
     (case decode_tuple_from_key E key of
        None \<Rightarrow> None
      | Some decoded \<Rightarrow>
          (case raw_decode key of
             None \<Rightarrow> None
           | Some rel_id \<Rightarrow>
               if decoded = [] then None
               else (case last decoded of
                   Validity vld \<Rightarrow>
                     if sint valid_at < sint (timestamp vld) then
                       Some (None, encode_as_key rel_id
                         (butlast decoded @ [Validity \<lparr>timestamp = valid_at, is_assert = True\<rparr>]))
                     else if \<not> is_assert vld then
                       Some (None, encode_as_key rel_id (butlast decoded @ [Validity TERMINAL_VALIDITY]))
                     else
                       Some (Some decoded, encode_as_key rel_id (butlast decoded @ [Validity TERMINAL_VALIDITY]))
                 | _ \<Rightarrow> None)))"

section \<open>Rows\<close>

text \<open>\<open>from_slice\<close> is \<open>rmp_serde::from_slice\<close> at \<open>Vec<DataValue>\<close>, which is not part of the
  repository.\<close>

definition decode_val_blob :: "(bytes \<Rightarrow> tuple option) \<Rightarrow> bytes \<Rightarrow> tuple result" where
  "decode_val_blob from_slice val =
     (if length val < ENCODED_KEY_MIN_LEN then Inl CorruptValueBlob
      else ok_or CorruptValueBlob (from_slice (drop ENCODED_KEY_MIN_LEN val)))"

definition try_extend_tuple_from_v :: "(bytes \<Rightarrow> tuple option) \<Rightarrow> tuple \<Rightarrow> bytes \<Rightarrow> tuple result" where
  "try_extend_tuple_from_v from_slice key val =
     (if val \<noteq> [] then map_res (\<lambda>vals. key @ vals) (decode_val_blob from_slice val) else Inr key)"

definition try_decode_tuple_from_kv :: "ext \<Rightarrow> (bytes \<Rightarrow> tuple option) \<Rightarrow> bytes \<Rightarrow> bytes \<Rightarrow> tuple result" where
  "try_decode_tuple_from_kv E from_slice key val =
     bind_res (ok_or Panic (decode_tuple_from_key E key))
       (\<lambda>tup. try_extend_tuple_from_v from_slice tup val)"

definition try_decode_val_only :: "(bytes \<Rightarrow> tuple option) \<Rightarrow> bytes \<Rightarrow> tuple result" where
  "try_decode_val_only from_slice val =
     (if val = [] then Inr [] else decode_val_blob from_slice val)"

section \<open>Keys decode to the tuple they encode\<close>

abbreviation wf_tuple :: "ext \<Rightarrow> tuple \<Rightarrow> bool" where
  "wf_tuple E t \<equiv> list_all (wf_dv E) t"

definition rel_ok :: "u64 \<Rightarrow> bool" where
  "rel_ok rid \<longleftrightarrow> unat rid \<le> 2 ^ 48"

lemma decode_encode_values:
  "ext_ok E \<Longrightarrow> wf_tuple E t \<Longrightarrow> decode_values E (concat (map encode_datavalue t)) = Some t"
proof (induction t)
  case (Cons v t)
  have "encode_datavalue v \<noteq> []" using encode_datavalue_Cons[of v] by auto
  then show ?case
    using Cons by (simp add: decode_values.simps[of E "_ @ _"] decode_encode_datavalue)
qed (simp add: decode_values.simps)

lemma decode_encode_as_key:
  "ext_ok E \<Longrightarrow> wf_tuple E t \<Longrightarrow> decode_tuple_from_key E (encode_as_key rid t) = Some t"
  by (simp add: decode_tuple_from_key_def encode_as_key_def decode_encode_values)

lemma raw_decode_encode_as_key: "rel_ok rid \<Longrightarrow> raw_decode (encode_as_key rid t) = Some rid"
  by (simp add: raw_decode_def encode_as_key_def relation_id_new_def rel_ok_def)

lemma wf_Validity [simp]: "wf_dv E (Validity v)"
  by simp

lemma check_key_encoded:
  assumes "ext_ok E" "wf_tuple E p" "rel_ok rid"
  shows "check_key_for_validity E (encode_as_key rid (p @ [Validity v])) at =
    Some (if sint at < sint (timestamp v)
            then (None, encode_as_key rid (p @ [Validity \<lparr>timestamp = at, is_assert = True\<rparr>]))
          else (if is_assert v then Some (p @ [Validity v]) else None,
                encode_as_key rid (p @ [Validity TERMINAL_VALIDITY])))"
  using assms
  by (simp add: check_key_for_validity_def decode_encode_as_key raw_decode_encode_as_key)

section \<open>No key runs into another\<close>

lemma bytes_cmp_diverging:
  "\<not> prefix a b \<Longrightarrow> \<not> prefix b a \<Longrightarrow> bytes_cmp (a @ r) (b @ s) = bytes_cmp a b \<and> bytes_cmp a b \<noteq> Equal"
proof (induction a arbitrary: b)
  case (Cons x xs)
  then obtain y ys where b: "b = y # ys" by (cases b) simp_all
  show ?case
  proof (cases "x = y")
    case True
    then show ?thesis using Cons b by simp
  next
    case False
    then show ?thesis using b by (auto simp: cmp_of_def)
  qed
qed simp

lemma encode_not_prefix:
  assumes "ext_ok E" "wf_dv E x" "wf_dv E y" "x \<noteq> y"
  shows "\<not> prefix (encode_datavalue x) (encode_datavalue y)"
proof
  assume "prefix (encode_datavalue x) (encode_datavalue y)"
  then obtain t where "encode_datavalue y = encode_datavalue x @ t" by (auto simp: prefix_def)
  then have "decode_from_key E (encode_datavalue y @ []) = Some (x, t)"
    using decode_encode_datavalue[OF assms(1,2), of t] by simp
  then show False
    using decode_encode_datavalue[OF assms(1,3), of "[]"] assms(4) by simp
qed

lemma encode_tuple_diverging:
  assumes "ext_ok E"
  shows "length p = length q \<Longrightarrow> wf_tuple E p \<Longrightarrow> wf_tuple E q \<Longrightarrow> p \<noteq> q \<Longrightarrow>
    \<exists>c \<in> {Less, Greater}. \<forall>r s. bytes_cmp (concat (map encode_datavalue p) @ r) (concat (map encode_datavalue q) @ s) = c"
proof (induction p q rule: list_induct2)
  case (Cons x xs y ys)
  show ?case
  proof (cases "x = y")
    case True
    then show ?thesis using Cons by simp
  next
    case False
    then have "\<not> prefix (encode_datavalue x) (encode_datavalue y)"
      "\<not> prefix (encode_datavalue y) (encode_datavalue x)"
      using Cons.prems encode_not_prefix[OF assms] by auto
    note d = bytes_cmp_diverging[OF this]
    let ?c = "bytes_cmp (encode_datavalue x) (encode_datavalue y)"
    have "?c \<in> {Less, Greater}" using d by (cases ?c) simp_all
    moreover have "\<forall>r s. bytes_cmp (concat (map encode_datavalue (x # xs)) @ r)
        (concat (map encode_datavalue (y # ys)) @ s) = ?c"
      using d by simp
    ultimately show ?thesis by (intro bexI[of _ ?c])
  qed
qed simp

abbreviation vkey :: "u64 \<Rightarrow> tuple \<Rightarrow> validity \<Rightarrow> bytes" where
  "vkey rid p v \<equiv> encode_as_key rid (p @ [Validity v])"

lemma encode_as_key_append: "encode_as_key rid (p @ q) = encode_as_key rid p @ concat (map encode_datavalue q)"
  by (simp add: encode_as_key_def)

lemma vkey_same_prefix: "bytes_cmp (vkey rid p v) (vkey rid p w) = validity_cmp v w"
  using validity_enc.enc_order[of v w]
  by (simp add: encode_as_key_append encode_validity_def)

text \<open>Rows of different prefixes compare the same way whatever their validities: the versions of
  one row are contiguous.\<close>

lemma key_other_prefix:
  assumes "ext_ok E" "wf_tuple E p" "wf_tuple E q" "length p = length q" "p \<noteq> q"
  shows "\<exists>c \<in> {Less, Greater}. \<forall>r s. bytes_cmp (encode_as_key rid p @ r) (encode_as_key rid q @ s) = c"
proof -
  obtain c where "c \<in> {Less, Greater}"
    "\<forall>r s. bytes_cmp (concat (map encode_datavalue p) @ r) (concat (map encode_datavalue q) @ s) = c"
    using encode_tuple_diverging[OF assms(1,4,2,3,5)] by blast
  then show ?thesis
    by (intro bexI[of _ c]) (simp_all only: encode_as_key_def append_assoc bytes_cmp_same_prefix simp_thms)
qed

lemma vkey_other_prefix:
  assumes "ext_ok E" "wf_tuple E p" "wf_tuple E q" "length p = length q" "p \<noteq> q"
  shows "bytes_cmp (vkey rid p v) (vkey rid q w) = bytes_cmp (vkey rid p v') (vkey rid q w')
    \<and> bytes_cmp (vkey rid p v) (vkey rid q w) \<noteq> Equal"
proof -
  obtain c where "c \<in> {Less, Greater}"
    "\<forall>r s. bytes_cmp (encode_as_key rid p @ r) (encode_as_key rid q @ s) = c"
    using key_other_prefix[OF assms] by blast
  then show ?thesis by (auto simp only: encode_as_key_append)
qed

lemma vkey_inj:
  assumes "ext_ok E" "wf_tuple E p" "wf_tuple E q"
  shows "vkey rid p v = vkey rid q w \<longleftrightarrow> p = q \<and> v = w"
proof
  assume e: "vkey rid p v = vkey rid q w"
  have "decode_tuple_from_key E (vkey rid p v) = Some (p @ [Validity v])"
    "decode_tuple_from_key E (vkey rid q w) = Some (q @ [Validity w])"
    using assms by (simp_all add: decode_encode_as_key)
  then show "p = q \<and> v = w" unfolding e by simp
qed simp

section \<open>Properties\<close>

text \<open>A stored row decodes to what was written: the key columns are read back from the key,
  a non-empty value blob gives the remaining columns, an empty one none, and a value blob that is
  shorter than its header or is rejected by the decoder is reported as corrupt.\<close>

lemma row_decoding:
  assumes "ext_ok E" "wf_tuple E t"
  shows "try_decode_tuple_from_kv E from_slice (encode_as_key rid t) val =
    (if val = [] then Inr t
     else if length val < 8 then Inl CorruptValueBlob
     else case from_slice (drop 8 val) of
         None \<Rightarrow> Inl CorruptValueBlob
       | Some vals \<Rightarrow> Inr (t @ vals))"
  using assms
  by (simp add: try_decode_tuple_from_kv_def decode_encode_as_key try_extend_tuple_from_v_def
      decode_val_blob_def split: option.splits)

end
