(* ===== verification/Btree.thy ===== *)
theory Btree
  imports Tuples
begin

text \<open>
  \<open>std::collections::BTreeMap<Vec<u8>, _>\<close>, the ordered map under the in-memory storage
  engines: the entries in iteration order, which is the byte order of the keys.  \<open>range\<close> with an
  inclusive lower and an exclusive upper bound panics when the bounds are inverted.  A map is
  determined by its lookups (\<open>bt_ext\<close>), which is how the scans are specified.
\<close>

type_synonym 'v btree = "(bytes \<times> 'v) list"

definition bt_get :: "'v btree \<Rightarrow> bytes \<Rightarrow> 'v option" where
  "bt_get m k = map_of m k"

fun bt_insert :: "bytes \<Rightarrow> 'v \<Rightarrow> 'v btree \<Rightarrow> 'v btree" where
  "bt_insert k v [] = [(k, v)]"
| "bt_insert k v ((k', v') # m) =
     (case bytes_cmp k k' of
        Less \<Rightarrow> (k, v) # (k', v') # m
      | Equal \<Rightarrow> (k, v) # m
      | Greater \<Rightarrow> (k', v') # bt_insert k v m)"

definition bt_remove :: "bytes \<Rightarrow> 'v btree \<Rightarrow> 'v btree" where
  "bt_remove k m = filter (\<lambda>e. fst e \<noteq> k) m"

definition in_range :: "bytes \<Rightarrow> bytes \<Rightarrow> bytes \<Rightarrow> bool" where
  "in_range lower upper k \<longleftrightarrow> bytes_le lower k \<and> bytes_less k upper"

definition bt_range :: "'v btree \<Rightarrow> bytes \<Rightarrow> bytes \<Rightarrow> 'v btree option" where
  "bt_range m lower upper =
     (if bytes_less upper lower then None
      else Some (filter (\<lambda>e. in_range lower upper (fst e)) m))"

definition bt_inv :: "'v btree \<Rightarrow> bool" where
  "bt_inv m \<longleftrightarrow> sorted_wrt bytes_less (map fst m)"

section \<open>Ranges of keys\<close>

lemma bytes_le_append: "bytes_le a (a @ b)"
  using bytes_cmp_same_prefix[of a "[]" b] by (cases b) (simp_all add: bytes_le_def)

lemma bytes_less_not_le: "bytes_less a b \<Longrightarrow> bytes_le b a = False"
  using bytes_not_le by blast

lemma encode_as_key_rel:
  "bytes_cmp (encode_as_key r t) (encode_as_key s u) =
     then_with (cmp_of r s) (bytes_cmp (concat (map encode_datavalue t)) (concat (map encode_datavalue u)))"
  by (simp add: encode_as_key_def u64_enc.enc_cmp)

lemma rel_ok_next:
  assumes "rel_ok rid"
  shows "r < rid + 1 \<longleftrightarrow> r \<le> rid"
proof -
  have "unat (rid + 1) = unat rid + 1"
    using assms unat_word_ariths(1)[of rid 1] by (simp add: rel_ok_def)
  then show ?thesis by (simp add: word_less_nat_alt word_le_nat_alt less_Suc_eq_le)
qed

lemma relation_bounds: "rel_ok rid \<Longrightarrow> bytes_le (encode_as_key rid []) (encode_as_key (rid + 1) [])"
  using rel_ok_next[of rid rid] by (simp add: bytes_le_def encode_as_key_rel cmp_of_def)

text \<open>The keys between the empty tuples of a relation and of the next one are the relation's keys.\<close>

lemma in_relation:
  assumes "rel_ok rid"
  shows "in_range (encode_as_key rid []) (encode_as_key (rid + 1) []) (encode_as_key r t) \<longleftrightarrow> r = rid"
proof -
  have "bytes_cmp [] bs \<noteq> Greater" "bytes_cmp bs [] \<noteq> Less" for bs by (cases bs; simp)+
  then have "bytes_le (encode_as_key rid []) (encode_as_key r t) \<longleftrightarrow> rid \<le> r"
    "bytes_less (encode_as_key r t) (encode_as_key (rid + 1) []) \<longleftrightarrow> r < rid + 1"
    by (auto simp: bytes_le_def bytes_less_def encode_as_key_rel cmp_of_def)
  then show ?thesis using rel_ok_next[OF assms, of r] by (auto simp: in_range_def)
qed

section \<open>Laws\<close>

lemma bt_inv_Nil [simp]: "bt_inv []"
  by (simp add: bt_inv_def)

lemma bt_inv_Cons: "bt_inv ((k, v) # m) \<longleftrightarrow> (\<forall>k' \<in> fst ` set m. bytes_less k k') \<and> bt_inv m"
  by (simp add: bt_inv_def)

lemma bt_inv_filter: "bt_inv m \<Longrightarrow> bt_inv (filter P m)"
  by (induction m) (auto simp: bt_inv_def)

lemma bt_inv_distinct: "bt_inv m \<Longrightarrow> distinct (map fst m)"
  unfolding bt_inv_def
  by (induction m) (auto simp: bytes_less_def)

lemma bt_get_Nil [simp]: "bt_get [] k = None"
  by (simp add: bt_get_def)

lemma bt_get_Cons: "bt_get ((k', v) # m) k = (if k' = k then Some v else bt_get m k)"
  by (simp add: bt_get_def)

lemma bt_get_iff: "bt_inv m \<Longrightarrow> bt_get m k = Some v \<longleftrightarrow> (k, v) \<in> set m"
  unfolding bt_get_def by (rule map_of_eq_Some_iff) (rule bt_inv_distinct)

lemma bt_get_None: "bt_get m k = None \<longleftrightarrow> k \<notin> fst ` set m"
  unfolding bt_get_def by (rule map_of_eq_None_iff)

lemma bt_get_insert: "bt_get (bt_insert k v m) = (bt_get m)(k \<mapsto> v)"
  by (induction m) (auto simp: bt_get_Cons fun_eq_iff bytes_cmp_Equal split: ordering.splits)

lemma bt_insert_keys: "fst ` set (bt_insert k v m) = insert k (fst ` set m)"
proof (induction m)
  case (Cons e m)
  then show ?case by (cases e; cases "bytes_cmp k (fst e)") (simp_all add: insert_commute)
qed simp

lemma bt_inv_insert: "bt_inv m \<Longrightarrow> bt_inv (bt_insert k v m)"
proof (induction m)
  case (Cons e m)
  obtain k' v' where e: "e = (k', v')" by (cases e)
  show ?case
  proof (cases "bytes_cmp k k'")
    case Less
    then have "bytes_less k k'" by (simp add: bytes_less_def)
    then show ?thesis
      using Cons.prems e Less by (auto simp: bt_inv_Cons intro: bytes_less_trans)
  next
    case Equal
    then show ?thesis using Cons.prems e by (auto simp: bt_inv_Cons bytes_cmp_Equal)
  next
    case Greater
    then have "bytes_less k' k"
      using bytes_order.cmp_Less_iff_Greater by (simp add: bytes_less_def)
    then show ?thesis
      using Cons e Greater by (simp add: bt_inv_Cons bt_insert_keys)
  qed
qed (simp add: bt_inv_def)

lemma bt_inv_remove: "bt_inv m \<Longrightarrow> bt_inv (bt_remove k m)"
  unfolding bt_remove_def by (rule bt_inv_filter)

lemma bt_get_remove: "bt_get (bt_remove k m) = (bt_get m)(k := None)"
  by (induction m) (auto simp: bt_remove_def bt_get_Cons fun_eq_iff)

lemma bt_get_filter:
  "bt_get (filter (\<lambda>e. P (fst e)) m) k = (if P k then bt_get m k else None)"
  by (induction m) (auto simp: bt_get_Cons)

lemma bt_range_spec:
  "bytes_le lo hi \<Longrightarrow> bt_range m lo hi = Some (filter (\<lambda>e. in_range lo hi (fst e)) m)"
  by (simp add: bt_range_def bytes_le_def bytes_less_def bytes_order.cmp_Less_iff_Greater)

text \<open>An ordered map is determined by its lookups.\<close>

lemma bt_ext:
  assumes "bt_inv m" "bt_inv n" "bt_get m = bt_get n"
  shows "m = n"
proof -
  have "set m = set n"
    using bt_get_iff[OF assms(1)] bt_get_iff[OF assms(2)] assms(3) by auto
  moreover have "sorted_wrt (\<lambda>a b. bytes_less (fst a) (fst b)) m" "sorted_wrt (\<lambda>a b. bytes_less (fst a) (fst b)) n"
    using assms(1,2) by (simp_all add: bt_inv_def sorted_wrt_map)
  ultimately show ?thesis
  proof (induction m arbitrary: n)
    case (Cons a m)
    obtain b n' where n: "n = b # n'" using Cons.prems(1) by (cases n) auto
    have am: "\<forall>x \<in> set m. bytes_less (fst a) (fst x)" and bn: "\<forall>x \<in> set n'. bytes_less (fst b) (fst x)"
      using Cons.prems(2,3) n by simp_all
    have s: "insert a (set m) = insert b (set n')" using Cons.prems(1) n by simp
    have "a = b"
    proof (rule ccontr)
      assume "a \<noteq> b"
      moreover have "a \<in> insert b (set n')" unfolding s[symmetric] by simp
      moreover have "b \<in> insert a (set m)" unfolding s by simp
      ultimately have "bytes_less (fst b) (fst a)" "bytes_less (fst a) (fst b)" using am bn by simp_all
      then show False using bytes_less_asym by blast
    qed
    moreover have "a \<notin> set m" "b \<notin> set n'" using am bn by auto
    then have "set m = set n'" using s calculation by (simp add: insert_ident)
    ultimately show ?case using Cons.IH[of n'] Cons.prems n by simp
  qed simp
qed

end
