(* ===== verification/MemStore.thy ===== *)
theory MemStore
  imports Btree
begin

text \<open>
  The in-memory storage engines (\<open>storage/mem.rs\<close>, \<open>storage/temp.rs\<close>) behind the trait
  \<open>StoreTx\<close> of \<open>storage/mod.rs\<close>.  A write transaction of \<open>MemStorage\<close> holds the store and a
  cache of pending changes, where a deletion is a \<open>None\<close>; scans merge the two on the fly.  The
  interface \<open>store_tx\<close> states the trait's contract against a finite map \<open>view\<close>; \<open>MemTx\<close> and
  \<open>TempTx\<close> are shown to implement it.  The lock that serialises writers is the ownership of the
  transaction value.
\<close>

section \<open>Transactions\<close>

datatype mem_tx =
    Reader "bytes btree"
  | Writer "bytes btree" "bytes option btree"

definition mem_transact :: "bytes btree \<Rightarrow> bool \<Rightarrow> mem_tx" where
  "mem_transact store write = (if write then Writer store [] else Reader store)"

text \<open>\<open>batch_put\<close> stops at the first failing pair, keeping what it has inserted.\<close>

fun mem_batch_put :: "bytes btree \<Rightarrow> (bytes \<times> bytes) result list \<Rightarrow> bytes btree \<times> unit result" where
  "mem_batch_put store [] = (store, Inr ())"
| "mem_batch_put store (Inl e # data) = (store, Inl e)"
| "mem_batch_put store (Inr (k, v) # data) = mem_batch_put (bt_insert k v store) data"

fun mem_get :: "mem_tx \<Rightarrow> bytes \<Rightarrow> bytes option" where
  "mem_get (Reader rdr) key = bt_get rdr key"
| "mem_get (Writer wtr cache) key =
     (case bt_get cache key of Some r \<Rightarrow> r | None \<Rightarrow> bt_get wtr key)"

fun mem_put :: "mem_tx \<Rightarrow> bytes \<Rightarrow> bytes \<Rightarrow> mem_tx result" where
  "mem_put (Reader _) key val = Inl WriteInReadTx"
| "mem_put (Writer wtr cache) key val = Inr (Writer wtr (bt_insert key (Some val) cache))"

fun mem_del :: "mem_tx \<Rightarrow> bytes \<Rightarrow> mem_tx result" where
  "mem_del (Reader _) key = Inl WriteInReadTx"
| "mem_del (Writer wtr cache) key = Inr (Writer wtr (bt_insert key None cache))"

fun mem_del_range_from_persisted :: "mem_tx \<Rightarrow> bytes \<Rightarrow> bytes \<Rightarrow> mem_tx result" where
  "mem_del_range_from_persisted (Reader _) lower upper = Inl WriteInReadTx"
| "mem_del_range_from_persisted (Writer wtr cache) lower upper =
     (case bt_range wtr lower upper of
        None \<Rightarrow> Inl Panic
      | Some entries \<Rightarrow> Inr (Writer (fold bt_remove (map fst entries) wtr) cache))"

fun mem_exists :: "mem_tx \<Rightarrow> bytes \<Rightarrow> bool" where
  "mem_exists (Reader rdr) key = (bt_get rdr key \<noteq> None)"
| "mem_exists (Writer wtr cache) key =
     (case bt_get cache key of Some r \<Rightarrow> r \<noteq> None | None \<Rightarrow> bt_get wtr key \<noteq> None)"

definition commit_change :: "bytes \<times> bytes option \<Rightarrow> bytes btree \<Rightarrow> bytes btree" where
  "commit_change kmv wtr =
     (case snd kmv of None \<Rightarrow> bt_remove (fst kmv) wtr | Some v \<Rightarrow> bt_insert (fst kmv) v wtr)"

fun mem_commit :: "mem_tx \<Rightarrow> mem_tx" where
  "mem_commit (Reader rdr) = Reader rdr"
| "mem_commit (Writer wtr cached) = Writer (fold commit_change cached wtr) []"

section \<open>The merging iterators\<close>

text \<open>\<open>CacheIterRaw\<close> and \<open>CacheIter\<close> have the same fields and the same loop; they differ in
  what they make of the entry they return, the argument \<open>emit\<close>.\<close>

record cache_iter =
  change_iter :: "(bytes \<times> bytes option) list"
  db_iter :: "(bytes \<times> bytes) list"
  change_cache :: "(bytes \<times> bytes option) option"
  db_cache :: "(bytes \<times> bytes) option"

definition fill_change :: "cache_iter \<Rightarrow> cache_iter" where
  "fill_change it =
     (if change_cache it = None
      then (case change_iter it of [] \<Rightarrow> it
            | kmv # rest \<Rightarrow> it\<lparr>change_cache := Some kmv, change_iter := rest\<rparr>)
      else it)"

definition fill_db :: "cache_iter \<Rightarrow> cache_iter" where
  "fill_db it =
     (if db_cache it = None
      then (case db_iter it of [] \<Rightarrow> it
            | kv # rest \<Rightarrow> it\<lparr>db_cache := Some kv, db_iter := rest\<rparr>)
      else it)"

definition fill_cache :: "cache_iter \<Rightarrow> cache_iter" where
  "fill_cache it = fill_db (fill_change it)"

definition iter_size :: "cache_iter \<Rightarrow> nat" where
  "iter_size it = length (change_iter it) + length (db_iter it)
     + (if change_cache it = None then 0 else 1) + (if db_cache it = None then 0 else 1)"

lemma iter_size_fill [simp]: "iter_size (fill_cache it) = iter_size it"
  by (auto simp: fill_cache_def fill_change_def fill_db_def iter_size_def split: list.splits)

function next_inner :: "(bytes \<Rightarrow> bytes \<Rightarrow> 'r) \<Rightarrow> cache_iter \<Rightarrow> 'r option \<times> cache_iter" where
  "next_inner emit it0 =
     (let it = fill_cache it0 in
      case (change_cache it, db_cache it) of
        (None, None) \<Rightarrow> (None, it)
      | (Some (k, cv), None) \<Rightarrow>
          (case cv of
             None \<Rightarrow> next_inner emit (it\<lparr>change_cache := None\<rparr>)
           | Some v \<Rightarrow> (Some (emit k v), it\<lparr>change_cache := None\<rparr>))
      | (None, Some (k, v)) \<Rightarrow> (Some (emit k v), it\<lparr>db_cache := None\<rparr>)
      | (Some (ck, sv), Some (dk, v)) \<Rightarrow>
          (case bytes_cmp ck dk of
             Less \<Rightarrow> (case sv of
                 None \<Rightarrow> next_inner emit (it\<lparr>change_cache := None\<rparr>)
               | Some v' \<Rightarrow> (Some (emit ck v'), it\<lparr>change_cache := None\<rparr>))
           | Greater \<Rightarrow> (Some (emit dk v), it\<lparr>db_cache := None\<rparr>)
           | Equal \<Rightarrow> next_inner emit (it\<lparr>db_cache := None\<rparr>)))"
  by pat_completeness auto

lemma iter_size_take:
  "Some x = change_cache (fill_cache it) \<Longrightarrow> iter_size (fill_cache it\<lparr>change_cache := None\<rparr>) < iter_size it"
  "Some y = db_cache (fill_cache it) \<Longrightarrow> iter_size (fill_cache it\<lparr>db_cache := None\<rparr>) < iter_size it"
  by (drule sym, subst iter_size_fill[of it, symmetric], simp add: iter_size_def)+

termination next_inner
  by (relation "measure (\<lambda>(_, it). iter_size it)") (auto intro: iter_size_take)

declare next_inner.simps [simp del]

lemma next_inner_shrinks: "next_inner emit it = (Some x, it') \<Longrightarrow> iter_size it' < iter_size it"
proof (induction it rule: measure_induct_rule[where f = iter_size])
  case (less it0)
  let ?it = "fill_cache it0"
  have IH: "iter_size it' < iter_size it0"
    if "next_inner emit it = (Some x, it')" "iter_size it < iter_size it0" for it
    using less.IH[OF that(2,1)] that(2) by simp
  show ?case
    using less.prems iter_size_take[of _ it0] IH
    by (subst (asm) next_inner.simps)
      (auto simp: Let_def split: option.splits ordering.splits prod.splits)
qed

text \<open>What a caller that drains the iterator receives.\<close>

function drain :: "(bytes \<Rightarrow> bytes \<Rightarrow> 'r) \<Rightarrow> cache_iter \<Rightarrow> 'r list" where
  "drain emit it =
     (case next_inner emit it of (None, _) \<Rightarrow> [] | (Some x, it') \<Rightarrow> x # drain emit it')"
  by pat_completeness auto
termination
  by (relation "measure (\<lambda>(_, it). iter_size it)") (auto intro: next_inner_shrinks[OF sym])

declare drain.simps [simp del]

section \<open>Scans\<close>

definition cache_iter_new :: "(bytes \<times> bytes option) list \<Rightarrow> (bytes \<times> bytes) list \<Rightarrow> cache_iter" where
  "cache_iter_new changes db =
     \<lparr>change_iter = changes, db_iter = db, change_cache = None, db_cache = None\<rparr>"

fun mem_range_scan :: "mem_tx \<Rightarrow> bytes \<Rightarrow> bytes \<Rightarrow> (bytes \<times> bytes) list option" where
  "mem_range_scan (Reader rdr) lower upper = bt_range rdr lower upper"
| "mem_range_scan (Writer wtr cache) lower upper =
     (case (bt_range cache lower upper, bt_range wtr lower upper) of
        (Some changes, Some db) \<Rightarrow> Some (drain Pair (cache_iter_new changes db))
      | _ \<Rightarrow> None)"

fun mem_range_scan_tuple ::
  "ext \<Rightarrow> (bytes \<Rightarrow> tuple option) \<Rightarrow> mem_tx \<Rightarrow> bytes \<Rightarrow> bytes \<Rightarrow> tuple result list option" where
  "mem_range_scan_tuple E from_slice (Reader rdr) lower upper =
     map_option (map (\<lambda>(k, v). try_decode_tuple_from_kv E from_slice k v)) (bt_range rdr lower upper)"
| "mem_range_scan_tuple E from_slice (Writer wtr cache) lower upper =
     (case (bt_range cache lower upper, bt_range wtr lower upper) of
        (Some changes, Some db) \<Rightarrow>
          Some (drain (try_decode_tuple_from_kv E from_slice) (cache_iter_new changes db))
      | _ \<Rightarrow> None)"

fun mem_range_count :: "mem_tx \<Rightarrow> bytes \<Rightarrow> bytes \<Rightarrow> nat option" where
  "mem_range_count (Reader rdr) lower upper = map_option length (bt_range rdr lower upper)"
| "mem_range_count (Writer wtr cache) lower upper =
     (case (bt_range cache lower upper, bt_range wtr lower upper) of
        (Some changes, Some db) \<Rightarrow> Some (length (drain Pair (cache_iter_new changes db)))
      | _ \<Rightarrow> None)"

fun mem_total_scan :: "mem_tx \<Rightarrow> (bytes \<times> bytes) list" where
  "mem_total_scan (Reader rdr) = rdr"
| "mem_total_scan (Writer wtr cache) = drain Pair (cache_iter_new cache wtr)"

section \<open>The merge computes the overlay\<close>

fun overlay :: "(bytes \<times> bytes option) list \<Rightarrow> (bytes \<times> bytes) list \<Rightarrow> (bytes \<times> bytes) list" where
  "overlay [] d = d"
| "overlay ((ck, cv) # c) [] =
     (case cv of None \<Rightarrow> overlay c [] | Some v \<Rightarrow> (ck, v) # overlay c [])"
| "overlay ((ck, cv) # c) ((dk, v) # d) =
     (case bytes_cmp ck dk of
        Less \<Rightarrow> (case cv of None \<Rightarrow> overlay c ((dk, v) # d) | Some v' \<Rightarrow> (ck, v') # overlay c ((dk, v) # d))
      | Greater \<Rightarrow> (dk, v) # overlay ((ck, cv) # c) d
      | Equal \<Rightarrow> overlay ((ck, cv) # c) d)"

definition pending_c :: "cache_iter \<Rightarrow> (bytes \<times> bytes option) list" where
  "pending_c it = (case change_cache it of None \<Rightarrow> [] | Some x \<Rightarrow> [x]) @ change_iter it"

definition pending_d :: "cache_iter \<Rightarrow> (bytes \<times> bytes) list" where
  "pending_d it = (case db_cache it of None \<Rightarrow> [] | Some x \<Rightarrow> [x]) @ db_iter it"

lemma pending_fill:
  "pending_c it = (case change_cache (fill_cache it) of None \<Rightarrow> [] | Some x \<Rightarrow> x # change_iter (fill_cache it))"
  "pending_d it = (case db_cache (fill_cache it) of None \<Rightarrow> [] | Some x \<Rightarrow> x # db_iter (fill_cache it))"
  by (auto simp: pending_c_def pending_d_def fill_cache_def fill_change_def fill_db_def
      split: list.splits option.splits)

lemma pending_fill_cache: "pending_c (fill_cache it) = pending_c it" "pending_d (fill_cache it) = pending_d it"
  by (auto simp: pending_c_def pending_d_def fill_cache_def fill_change_def fill_db_def
      split: list.splits option.splits)

lemma pending_take:
  "pending_c (it\<lparr>change_cache := None\<rparr>) = change_iter it"
  "pending_d (it\<lparr>change_cache := None\<rparr>) = pending_d it"
  "pending_c (it\<lparr>db_cache := None\<rparr>) = pending_c it"
  "pending_d (it\<lparr>db_cache := None\<rparr>) = db_iter it"
  by (simp_all add: pending_c_def pending_d_def)

lemma next_inner_overlay:
  "\<exists>it'. next_inner emit it =
       (map_option (\<lambda>(k, v). emit k v) (case overlay (pending_c it) (pending_d it) of [] \<Rightarrow> None | e # _ \<Rightarrow> Some e), it')
     \<and> overlay (pending_c it') (pending_d it') = tl (overlay (pending_c it) (pending_d it))"
proof (induction it rule: measure_induct_rule[where f = iter_size])
  case (less it0)
  let ?it = "fill_cache it0"
  note c = pending_take[of ?it, unfolded pending_fill_cache] pending_fill_cache[of it0]
  show ?case
    using less.IH[OF iter_size_take(1)[of _ it0]] less.IH[OF iter_size_take(2)[of _ it0]] c
    by (subst next_inner.simps)
      (auto simp: Let_def pending_fill[of it0] split: option.splits ordering.splits prod.splits)
qed

lemma drain_overlay:
  "drain emit it = map (\<lambda>(k, v). emit k v) (overlay (pending_c it) (pending_d it))"
proof (induction it rule: measure_induct_rule[where f = iter_size])
  case (less it)
  obtain it' where n: "next_inner emit it = (map_option (\<lambda>(k, v). emit k v)
        (case overlay (pending_c it) (pending_d it) of [] \<Rightarrow> None | e # _ \<Rightarrow> Some e), it')"
    and o: "overlay (pending_c it') (pending_d it') = tl (overlay (pending_c it) (pending_d it))"
    using next_inner_overlay by blast
  show ?case
  proof (cases "overlay (pending_c it) (pending_d it)")
    case Nil
    then show ?thesis using n by (simp add: drain.simps[of emit it])
  next
    case (Cons e es)
    then have "iter_size it' < iter_size it" using n next_inner_shrinks by fastforce
    then show ?thesis using less n o Cons by (simp add: drain.simps[of emit it])
  qed
qed

lemma drain_new: "drain emit (cache_iter_new c d) = map (\<lambda>(k, v). emit k v) (overlay c d)"
  by (simp add: drain_overlay pending_c_def pending_d_def cache_iter_new_def)

lemma overlay_keys: "fst ` set (overlay c d) \<subseteq> fst ` set c \<union> fst ` set d"
  by (induction c d rule: overlay.induct) (simp_all split: ordering.splits option.splits, blast+)

lemma bytes_cmp_less:
  "bytes_cmp a b = Less \<Longrightarrow> bytes_less a b" "bytes_cmp a b = Greater \<Longrightarrow> bytes_less b a"
  using bytes_order.cmp_Less_iff_Greater by (simp_all add: bytes_less_def)

lemma bt_inv_ConsI:
  "\<forall>k' \<in> K. bytes_less k k' \<Longrightarrow> fst ` set m \<subseteq> K \<Longrightarrow> bt_inv m \<Longrightarrow> bt_inv ((k, v) # m)"
  unfolding bt_inv_Cons by blast

lemma bt_inv_overlay: "bt_inv c \<Longrightarrow> bt_inv d \<Longrightarrow> bt_inv (overlay c d)"
proof (induction c d rule: overlay.induct)
  case (2 ck cv c)
  then have "bt_inv (overlay c [])" "\<forall>k \<in> fst ` set c \<union> fst ` set []. bytes_less ck k"
    by (cases cv; simp add: bt_inv_Cons)+
  then show ?case using bt_inv_ConsI[OF _ overlay_keys] by (cases cv) simp_all
next
  case (3 ck cv c dk v d)
  show ?case
  proof (cases "bytes_cmp ck dk")
    case Less
    then have "bytes_less ck dk" by (rule bytes_cmp_less)
    then have "\<forall>k \<in> fst ` set c \<union> fst ` set ((dk, v) # d). bytes_less ck k"
      using "3.prems" by (auto simp: bt_inv_Cons intro: bytes_less_trans)
    moreover have "bt_inv (overlay c ((dk, v) # d))"
      using 3 Less by (cases cv) (simp_all add: bt_inv_Cons)
    ultimately show ?thesis
      using Less bt_inv_ConsI[OF _ overlay_keys] by (cases cv) simp_all
  next
    case Equal
    then show ?thesis using 3 by (simp add: bt_inv_Cons)
  next
    case Greater
    then have "bytes_less dk ck" by (rule bytes_cmp_less)
    then have "\<forall>k \<in> fst ` set ((ck, cv) # c) \<union> fst ` set d. bytes_less dk k"
      using "3.prems" by (auto simp: bt_inv_Cons intro: bytes_less_trans)
    moreover have "bt_inv (overlay ((ck, cv) # c) d)"
      using 3 Greater by (simp add: bt_inv_Cons)
    ultimately show ?thesis
      using Greater bt_inv_ConsI[OF _ overlay_keys] by simp
  qed
qed simp

lemma bt_get_less: "\<forall>k' \<in> fst ` set m. bytes_less k k' \<Longrightarrow> bt_get m k = None"
  by (auto simp: bt_get_None)

lemma bt_get_overlay:
  "bt_inv c \<Longrightarrow> bt_inv d \<Longrightarrow>
   bt_get (overlay c d) k = (case bt_get c k of Some r \<Rightarrow> r | None \<Rightarrow> bt_get d k)"
proof (induction c d rule: overlay.induct)
  case (2 ck cv c)
  then show ?case
    by (auto simp: bt_inv_Cons bt_get_Cons bt_get_less split: option.splits)
next
  case (3 ck cv c dk v d)
  show ?case
  proof (cases "bytes_cmp ck dk")
    case Less
    then have l: "bytes_less ck dk" by (rule bytes_cmp_less)
    then have "\<forall>k' \<in> fst ` set ((dk, v) # d). bytes_less ck k'"
      using "3.prems" by (auto simp: bt_inv_Cons intro: bytes_less_trans)
    then have "bt_get ((dk, v) # d) ck = None" "bt_get c ck = None"
      using bt_get_less "3.prems"(1) by (blast, simp add: bt_inv_Cons bt_get_less)
    then show ?thesis
      using 3 Less by (cases cv) (auto simp: bt_inv_Cons bt_get_Cons split: option.splits)
  next
    case Equal
    then show ?thesis using 3 by (auto simp: bt_inv_Cons bt_get_Cons split: option.splits)
  next
    case Greater
    then have "bytes_less dk ck" by (rule bytes_cmp_less)
    then have "\<forall>k' \<in> fst ` set ((ck, cv) # c). bytes_less dk k'"
      using "3.prems" by (auto simp: bt_inv_Cons intro: bytes_less_trans)
    then have "bt_get ((ck, cv) # c) dk = None" using bt_get_less by blast
    then show ?thesis
      using 3 Greater by (auto simp: bt_inv_Cons bt_get_Cons split: option.splits if_splits)
  qed
qed simp

lemma overlay_filter:
  assumes "bt_inv c" "bt_inv d"
  shows "overlay (filter (\<lambda>e. P (fst e)) c) (filter (\<lambda>e. P (fst e)) d) = filter (\<lambda>e. P (fst e)) (overlay c d)"
  using assms
  by (intro bt_ext bt_inv_overlay bt_inv_filter) (auto simp: fun_eq_iff bt_get_overlay bt_inv_filter bt_get_filter split: option.splits)

section \<open>The contract of a storage transaction\<close>

text \<open>The trait \<open>StoreTx\<close> against the map \<open>view\<close> of what the transaction sees: reads look it
  up, writes update it, a read-only transaction refuses writes, committing changes nothing the
  transaction sees, and a range scan enumerates the entries of the range in key order.\<close>

locale store_tx =
  fixes inv :: "'tx \<Rightarrow> bool"
    and writable :: "'tx \<Rightarrow> bool"
    and view :: "'tx \<Rightarrow> bytes \<Rightarrow> bytes option"
    and get :: "'tx \<Rightarrow> bytes \<Rightarrow> bytes option"
    and exists :: "'tx \<Rightarrow> bytes \<Rightarrow> bool"
    and put :: "'tx \<Rightarrow> bytes \<Rightarrow> bytes \<Rightarrow> 'tx result"
    and del :: "'tx \<Rightarrow> bytes \<Rightarrow> 'tx result"
    and commit :: "'tx \<Rightarrow> 'tx"
    and range_scan :: "'tx \<Rightarrow> bytes \<Rightarrow> bytes \<Rightarrow> (bytes \<times> bytes) list option"
  assumes get_view: "inv tx \<Longrightarrow> get tx k = view tx k"
    and exists_view: "inv tx \<Longrightarrow> exists tx k \<longleftrightarrow> view tx k \<noteq> None"
    and put_view: "inv tx \<Longrightarrow> writable tx \<Longrightarrow>
      \<exists>tx'. put tx k v = Inr tx' \<and> inv tx' \<and> writable tx' \<and> view tx' = (view tx)(k \<mapsto> v)"
    and del_view: "inv tx \<Longrightarrow> writable tx \<Longrightarrow>
      \<exists>tx'. del tx k = Inr tx' \<and> inv tx' \<and> writable tx' \<and> view tx' = (view tx)(k := None)"
    and read_only: "\<not> writable tx \<Longrightarrow> put tx k v = Inl WriteInReadTx \<and> del tx k = Inl WriteInReadTx"
    and commit_view: "inv tx \<Longrightarrow> inv (commit tx) \<and> view (commit tx) = view tx"
    and scan_view: "inv tx \<Longrightarrow> bytes_le lo hi \<Longrightarrow> \<exists>es. range_scan tx lo hi = Some es \<and> bt_inv es
      \<and> bt_get es = (\<lambda>k. if in_range lo hi k then view tx k else None)"

datatype write_op = PutOp bytes bytes | DelOp bytes

fun view_op :: "write_op \<Rightarrow> (bytes \<Rightarrow> bytes option) \<Rightarrow> bytes \<Rightarrow> bytes option" where
  "view_op (PutOp k v) m = m(k \<mapsto> v)"
| "view_op (DelOp k) m = m(k := None)"

fun run_op :: "('tx \<Rightarrow> bytes \<Rightarrow> bytes \<Rightarrow> 'tx result) \<Rightarrow> ('tx \<Rightarrow> bytes \<Rightarrow> 'tx result) \<Rightarrow>
    'tx \<Rightarrow> write_op \<Rightarrow> 'tx result" where
  "run_op put del tx (PutOp k v) = put tx k v"
| "run_op put del tx (DelOp k) = del tx k"

fun run_ops :: "('tx \<Rightarrow> bytes \<Rightarrow> bytes \<Rightarrow> 'tx result) \<Rightarrow> ('tx \<Rightarrow> bytes \<Rightarrow> 'tx result) \<Rightarrow>
    'tx \<Rightarrow> write_op list \<Rightarrow> 'tx result" where
  "run_ops put del tx [] = Inr tx"
| "run_ops put del tx (w # ws) = bind_res (run_op put del tx w) (\<lambda>tx'. run_ops put del tx' ws)"

context store_tx
begin

lemma run_op_view:
  "inv tx \<Longrightarrow> writable tx \<Longrightarrow>
   \<exists>tx'. run_op put del tx w = Inr tx' \<and> inv tx' \<and> writable tx' \<and> view tx' = view_op w (view tx)"
  using put_view del_view by (cases w) simp_all

lemma run_ops_view:
  "inv tx \<Longrightarrow> writable tx \<Longrightarrow>
   \<exists>tx'. run_ops put del tx ws = Inr tx' \<and> inv tx' \<and> writable tx' \<and> view tx' = fold view_op ws (view tx)"
proof (induction ws arbitrary: tx)
  case (Cons w ws)
  obtain tx1 where "run_op put del tx w = Inr tx1" "inv tx1" "writable tx1" "view tx1 = view_op w (view tx)"
    using run_op_view Cons.prems by blast
  then show ?case using Cons.IH[of tx1] by simp
qed simp

lemma scan_entries:
  assumes "inv tx" "bytes_le lo hi" "range_scan tx lo hi = Some es"
  shows "(k, v) \<in> set es \<longleftrightarrow> in_range lo hi k \<and> view tx k = Some v"
proof -
  have "bt_inv es" "bt_get es = (\<lambda>k. if in_range lo hi k then view tx k else None)"
    using scan_view[OF assms(1,2)] assms(3) by auto
  then show ?thesis using bt_get_iff[of es k v] by (auto split: if_splits)
qed

lemma scan_unique:
  assumes "inv tx" "inv tx'" "view tx = view tx'" "bytes_le lo hi"
  shows "range_scan tx lo hi = range_scan tx' lo hi"
proof -
  obtain es where es: "range_scan tx lo hi = Some es" "bt_inv es"
    "bt_get es = (\<lambda>k. if in_range lo hi k then view tx k else None)"
    using scan_view[OF assms(1,4)] by blast
  obtain es' where es': "range_scan tx' lo hi = Some es'" "bt_inv es'"
    "bt_get es' = (\<lambda>k. if in_range lo hi k then view tx' k else None)"
    using scan_view[OF assms(2,4)] by blast
  have "es = es'" by (rule bt_ext[OF es(2) es'(2)]) (simp add: es(3) es'(3) assms(3) cong: if_cong)
  then show ?thesis using es es' by simp
qed

lemma write_then_read:
  assumes "inv tx" "writable tx" "run_ops put del tx ws = Inr tx'"
  shows "get tx' k = fold view_op ws (view tx) k" "get (commit tx') k = fold view_op ws (view tx) k"
  using run_ops_view[OF assms(1,2), of ws] assms(3) get_view commit_view by auto

end

section \<open>MemTx implements the contract\<close>

fun mem_inv :: "mem_tx \<Rightarrow> bool" where
  "mem_inv (Reader rdr) = bt_inv rdr"
| "mem_inv (Writer wtr cache) = (bt_inv wtr \<and> bt_inv cache)"

fun mem_writable :: "mem_tx \<Rightarrow> bool" where
  "mem_writable (Reader rdr) = False"
| "mem_writable (Writer wtr cache) = True"

fun mem_view :: "mem_tx \<Rightarrow> bytes \<Rightarrow> bytes option" where
  "mem_view (Reader rdr) = bt_get rdr"
| "mem_view (Writer wtr cache) = (\<lambda>k. case bt_get cache k of Some r \<Rightarrow> r | None \<Rightarrow> bt_get wtr k)"

lemma commit_changes:
  "bt_inv cache \<Longrightarrow> bt_inv wtr \<Longrightarrow> bt_inv (fold commit_change cache wtr)
     \<and> bt_get (fold commit_change cache wtr) =
        (\<lambda>k. case bt_get cache k of Some r \<Rightarrow> r | None \<Rightarrow> bt_get wtr k)"
proof (induction cache arbitrary: wtr)
  case (Cons e cache)
  obtain k mv where e: "e = (k, mv)" by (cases e)
  have "bt_inv (commit_change e wtr)"
    using Cons.prems by (simp add: commit_change_def bt_inv_insert bt_inv_remove split: option.splits)
  moreover have "bt_get (commit_change e wtr) = (bt_get wtr)(k := mv)"
    using e by (simp add: commit_change_def bt_get_insert bt_get_remove split: option.splits)
  moreover have "bt_get cache k = None"
    using Cons.prems(1) e by (simp add: bt_inv_Cons bt_get_less)
  ultimately show ?case
    using Cons e by (auto simp: bt_inv_Cons bt_get_Cons fun_eq_iff split: option.splits)
qed simp

lemma mem_range_scan_overlay:
  "bytes_le lo hi \<Longrightarrow> mem_range_scan (Writer wtr cache) lo hi =
     Some (overlay (filter (\<lambda>e. in_range lo hi (fst e)) cache) (filter (\<lambda>e. in_range lo hi (fst e)) wtr))"
  by (simp add: bt_range_spec drain_new)

interpretation mem: store_tx mem_inv mem_writable mem_view mem_get mem_exists mem_put mem_del mem_commit mem_range_scan
proof (unfold_locales, goal_cases)
  case (1 tx k) then show ?case by (cases tx) simp_all
next
  case (2 tx k) then show ?case by (cases tx) (simp_all split: option.splits)
next
  case (3 tx k v) then show ?case
    by (cases tx) (auto simp: bt_inv_insert bt_get_insert fun_eq_iff)
next
  case (4 tx k) then show ?case
    by (cases tx) (auto simp: bt_inv_insert bt_get_insert fun_eq_iff)
next
  case (5 tx k v) then show ?case by (cases tx) simp_all
next
  case (6 tx) then show ?case by (cases tx) (simp_all add: commit_changes)
next
  case (7 tx lo hi)
  show ?case
  proof (cases tx)
    case (Reader rdr)
    then show ?thesis using 7 by (auto simp: bt_range_spec bt_inv_filter bt_get_filter)
  next
    case (Writer wtr cache)
    then show ?thesis
      using 7
      by (auto simp: mem_range_scan_overlay bt_inv_overlay bt_inv_filter bt_get_overlay bt_get_filter fun_eq_iff
          simp del: mem_range_scan.simps split: option.splits)
  qed
qed

section \<open>TempTx implements the contract\<close>

type_synonym temp_tx = "bytes btree"

definition temp_get :: "temp_tx \<Rightarrow> bytes \<Rightarrow> bytes option" where
  "temp_get store key = bt_get store key"

definition temp_put :: "temp_tx \<Rightarrow> bytes \<Rightarrow> bytes \<Rightarrow> temp_tx result" where
  "temp_put store key val = Inr (bt_insert key val store)"

definition temp_del :: "temp_tx \<Rightarrow> bytes \<Rightarrow> temp_tx result" where
  "temp_del store key = Inr (bt_remove key store)"

definition temp_del_range_from_persisted :: "temp_tx \<Rightarrow> bytes \<Rightarrow> bytes \<Rightarrow> temp_tx result" where
  "temp_del_range_from_persisted store lower upper = Inr store"

definition temp_exists :: "temp_tx \<Rightarrow> bytes \<Rightarrow> bool" where
  "temp_exists store key \<longleftrightarrow> bt_get store key \<noteq> None"

definition temp_commit :: "temp_tx \<Rightarrow> temp_tx" where
  "temp_commit store = store"

definition temp_range_scan :: "temp_tx \<Rightarrow> bytes \<Rightarrow> bytes \<Rightarrow> (bytes \<times> bytes) list option" where
  "temp_range_scan store lower upper = bt_range store lower upper"

definition temp_range_scan_tuple ::
  "ext \<Rightarrow> (bytes \<Rightarrow> tuple option) \<Rightarrow> temp_tx \<Rightarrow> bytes \<Rightarrow> bytes \<Rightarrow> tuple result list option" where
  "temp_range_scan_tuple E from_slice store lower upper =
     map_option (map (\<lambda>(k, v). try_decode_tuple_from_kv E from_slice k v)) (bt_range store lower upper)"

definition temp_range_count :: "temp_tx \<Rightarrow> bytes \<Rightarrow> bytes \<Rightarrow> nat option" where
  "temp_range_count store lower upper = map_option length (bt_range store lower upper)"

definition temp_total_scan :: "temp_tx \<Rightarrow> (bytes \<times> bytes) list" where
  "temp_total_scan store = store"

interpretation temp: store_tx bt_inv "\<lambda>_. True" bt_get temp_get temp_exists temp_put temp_del temp_commit temp_range_scan
  by unfold_locales
    (simp_all add: temp_get_def temp_exists_def temp_put_def temp_del_def temp_commit_def temp_range_scan_def
      bt_inv_insert bt_get_insert bt_inv_remove bt_get_remove bt_range_spec bt_inv_filter bt_get_filter fun_eq_iff)

section \<open>Properties\<close>

lemma run_ops_store:
  "run_ops mem_put mem_del (Writer wtr cache) ws = Inr tx \<Longrightarrow> \<exists>cache'. tx = Writer wtr cache'"
proof (induction ws arbitrary: cache)
  case (Cons w ws)
  then show ?case by (cases w) auto
qed auto

text \<open>C22. A write transaction reads its own writes, keeps them to itself until it commits, and commits
  exactly them: after any sequence of puts and deletes, none of which fails, every lookup answers as the
  starting map updated by the sequence in order, with the store untouched; \<open>commit\<close> leaves no pending change
  and a store in which every later transaction reads that map.\<close>

theorem mem_write_then_read:
  assumes "bt_inv store"
  shows "\<exists>cache. run_ops mem_put mem_del (mem_transact store True) ws = Inr (Writer store cache)
    \<and> (\<forall>k. mem_get (Writer store cache) k = fold view_op ws (bt_get store) k)
    \<and> (\<exists>store'. mem_commit (Writer store cache) = Writer store' [] \<and> bt_inv store'
        \<and> (\<forall>wr k. mem_get (mem_transact store' wr) k = fold view_op ws (bt_get store) k))"
proof -
  have i: "mem_inv (mem_transact store True)" "mem_writable (mem_transact store True)"
    "mem_view (mem_transact store True) = bt_get store"
    using assms by (simp_all add: mem_transact_def)
  obtain tx where tx: "run_ops mem_put mem_del (mem_transact store True) ws = Inr tx" "mem_inv tx"
    "mem_view tx = fold view_op ws (bt_get store)"
    using mem.run_ops_view[OF i(1,2)] i(3) by fastforce
  obtain cache where c: "tx = Writer store cache"
    using run_ops_store tx(1) by (fastforce simp: mem_transact_def)
  have "bt_inv (fold commit_change cache store)" "bt_get (fold commit_change cache store) = mem_view tx"
    using commit_changes[of cache store] tx(2) c by auto
  then show ?thesis
    using tx c mem.write_then_read(1)[OF i(1,2) tx(1)] i(3) by (intro exI[of _ cache]) (auto simp: mem_transact_def)
qed

theorem mem_write_then_read_witness:
  "\<exists>cache. run_ops mem_put mem_del (mem_transact [([1], [10]), ([2], [20])] True) [PutOp [3] [30], DelOp [1]]
        = Inr (Writer [([1], [10]), ([2], [20])] cache)
    \<and> (\<exists>store'. mem_commit (Writer [([1], [10]), ([2], [20])] cache) = Writer store' []
        \<and> mem_get (mem_transact store' False) [3] = Some [30] \<and> mem_get (mem_transact store' False) [1] = None)"
proof -
  have "bt_inv [([1], [10 :: 8 word]), ([2], [20])]" by (simp add: bt_inv_def bytes_less_def cmp_of_def)
  from mem_write_then_read[OF this, of "[PutOp [3] [30], DelOp [1]]"] show ?thesis by auto
qed

text \<open>C21. A range scan of the merged view of store and pending changes is exact: it lists, in
  strictly ascending key order, exactly the entries of the half-open range that lookups of the
  same transaction see; in particular pending puts shadow stored values and pending deletes hide
  them.\<close>

theorem mem_scan_exact:
  assumes "mem_inv tx" "bytes_le lo hi"
  shows "\<exists>es. mem_range_scan tx lo hi = Some es \<and> sorted_wrt bytes_less (map fst es)
    \<and> (\<forall>k v. (k, v) \<in> set es \<longleftrightarrow> in_range lo hi k \<and> mem_get tx k = Some v)
    \<and> mem_range_count tx lo hi = Some (length es)"
proof -
  obtain es where es: "mem_range_scan tx lo hi = Some es" "bt_inv es"
    using mem.scan_view[OF assms] by blast
  have "mem_range_count tx lo hi = Some (length es)"
    using es(1) by (cases tx) (auto split: option.splits)
  then show ?thesis
    using es mem.scan_entries[OF assms es(1)] mem.get_view[OF assms(1)]
    by (auto simp: bt_inv_def)
qed

theorem mem_scan_exact_witness:
  "\<exists>es. mem_range_scan (Writer [([1], [10]), ([2], [20])] [([1], None), ([3], Some [30])]) [1] [9] = Some es
    \<and> sorted_wrt bytes_less (map fst es)
    \<and> (\<forall>k v. (k, v) \<in> set es \<longleftrightarrow> in_range [1] [9] k
         \<and> mem_get (Writer [([1], [10]), ([2], [20])] [([1], None), ([3], Some [30])]) k = Some v)
    \<and> mem_range_count (Writer [([1], [10]), ([2], [20])] [([1], None), ([3], Some [30])]) [1] [9] = Some (length es)"
  by (rule mem_scan_exact) (simp_all add: bt_inv_def bytes_less_def bytes_le_def cmp_of_def)

end
