(* ===== verification/SkipScan.thy ===== *)
theory SkipScan
  imports MemStore
begin

text \<open>
  Time-travel scans of the in-memory engines (\<open>storage/mem.rs\<close>: \<open>SkipIterator\<close>,
  \<open>SkipDualIterator\<close>; \<open>storage/temp.rs\<close>).  The versions of a row are stored next to each other,
  newest first; the iterators seek from version to version instead of reading all of them.  One
  turn of the loop is \<open>skip_step\<close> or \<open>skip_dual_step\<close>; \<open>skip_drain\<close> runs \<open>next\<close> until the
  iterator ends, with fuel, and \<open>None\<close> means that the fuel did not suffice.  The specification
  is \<open>visible_rows\<close>: of the versions valid at the given time the newest counts, and it is
  returned if it is an assertion.
\<close>

section \<open>The iterators\<close>

datatype skip_out =
    SkEnd
  | SkPanic
  | SkItem "tuple result" bytes
  | SkSkip bytes

definition skip_candidate :: "ext \<Rightarrow> (bytes \<Rightarrow> tuple option) \<Rightarrow> i64 \<Rightarrow> bytes \<Rightarrow> bytes \<Rightarrow> skip_out" where
  "skip_candidate E from_slice valid_at candidate_key candidate_val =
     (case check_key_for_validity E candidate_key valid_at of
        None \<Rightarrow> SkPanic
      | Some (ret, nxt_bound) \<Rightarrow>
          (case ret of
             Some nk \<Rightarrow> SkItem (try_extend_tuple_from_v from_slice nk candidate_val) nxt_bound
           | None \<Rightarrow> SkSkip nxt_bound))"

definition skip_step ::
  "ext \<Rightarrow> (bytes \<Rightarrow> tuple option) \<Rightarrow> bytes btree \<Rightarrow> bytes \<Rightarrow> i64 \<Rightarrow> bytes \<Rightarrow> skip_out" where
  "skip_step E from_slice inner upper valid_at next_bound =
     (case bt_range inner next_bound upper of
        None \<Rightarrow> SkPanic
      | Some [] \<Rightarrow> SkEnd
      | Some ((candidate_key, candidate_val) # _) \<Rightarrow>
          skip_candidate E from_slice valid_at candidate_key candidate_val)"

definition skip_tombstone :: "ext \<Rightarrow> i64 \<Rightarrow> bytes \<Rightarrow> skip_out" where
  "skip_tombstone E valid_at delta_key =
     (case check_key_for_validity E delta_key valid_at of
        None \<Rightarrow> SkPanic
      | Some (_, nxt_seek) \<Rightarrow> SkSkip nxt_seek)"

definition skip_dual_step ::
  "ext \<Rightarrow> (bytes \<Rightarrow> tuple option) \<Rightarrow> bytes btree \<Rightarrow> bytes option btree \<Rightarrow> bytes \<Rightarrow> i64 \<Rightarrow> bytes \<Rightarrow> skip_out" where
  "skip_dual_step E from_slice stored delta upper valid_at next_bound =
     (case (bt_range stored next_bound upper, bt_range delta next_bound upper) of
        (Some stored_nxt, Some delta_nxt) \<Rightarrow>
          (case (stored_nxt, delta_nxt) of
             ([], []) \<Rightarrow> SkEnd
           | ([], (delta_key, maybe_delta_val) # _) \<Rightarrow>
               (case maybe_delta_val of
                  None \<Rightarrow> skip_tombstone E valid_at delta_key
                | Some delta_val \<Rightarrow> skip_candidate E from_slice valid_at delta_key delta_val)
           | ((stored_key, stored_val) # _, []) \<Rightarrow>
               skip_candidate E from_slice valid_at stored_key stored_val
           | ((stored_key, stored_val) # _, (delta_key, maybe_delta_val) # _) \<Rightarrow>
               if bytes_less stored_key delta_key
               then skip_candidate E from_slice valid_at stored_key stored_val
               else (case maybe_delta_val of
                  None \<Rightarrow> skip_tombstone E valid_at delta_key
                | Some delta_val \<Rightarrow> skip_candidate E from_slice valid_at delta_key delta_val))
      | _ \<Rightarrow> SkPanic)"

fun skip_drain :: "nat \<Rightarrow> (bytes \<Rightarrow> skip_out) \<Rightarrow> bytes \<Rightarrow> tuple result list result option" where
  "skip_drain 0 step next_bound = None"
| "skip_drain (Suc n) step next_bound =
     (case step next_bound of
        SkEnd \<Rightarrow> Some (Inr [])
      | SkPanic \<Rightarrow> Some (Inl Panic)
      | SkItem x nb \<Rightarrow> map_option (map_res (\<lambda>xs. x # xs)) (skip_drain n step nb)
      | SkSkip nb \<Rightarrow> skip_drain n step nb)"

fun mem_range_skip_scan_tuple ::
  "nat \<Rightarrow> ext \<Rightarrow> (bytes \<Rightarrow> tuple option) \<Rightarrow> mem_tx \<Rightarrow> bytes \<Rightarrow> bytes \<Rightarrow> i64 \<Rightarrow> tuple result list result option" where
  "mem_range_skip_scan_tuple n E from_slice (Reader stored) lower upper valid_at =
     skip_drain n (skip_step E from_slice stored upper valid_at) lower"
| "mem_range_skip_scan_tuple n E from_slice (Writer stored delta) lower upper valid_at =
     skip_drain n (skip_dual_step E from_slice stored delta upper valid_at) lower"

definition temp_range_skip_scan_tuple ::
  "nat \<Rightarrow> ext \<Rightarrow> (bytes \<Rightarrow> tuple option) \<Rightarrow> temp_tx \<Rightarrow> bytes \<Rightarrow> bytes \<Rightarrow> i64 \<Rightarrow> tuple result list result option" where
  "temp_range_skip_scan_tuple n E from_slice store lower upper valid_at =
     skip_drain n (skip_step E from_slice store upper valid_at) lower"

section \<open>The specification\<close>

text \<open>A stored version: the columns before the validity, the validity, the value blob.\<close>

type_synonym version = "tuple \<times> validity \<times> bytes"

abbreviation v_row :: "version \<Rightarrow> tuple" where "v_row \<equiv> fst"
abbreviation v_vld :: "version \<Rightarrow> validity" where "v_vld r \<equiv> fst (snd r)"
abbreviation v_val :: "version \<Rightarrow> bytes" where "v_val r \<equiv> snd (snd r)"

definition version_key :: "u64 \<Rightarrow> version \<Rightarrow> bytes" where
  "version_key rid r = vkey rid (v_row r) (v_vld r)"

definition store_of :: "u64 \<Rightarrow> version list \<Rightarrow> bytes btree" where
  "store_of rid rows = map (\<lambda>r. (version_key rid r, v_val r)) rows"

definition valid_by :: "i64 \<Rightarrow> version \<Rightarrow> bool" where
  "valid_by at r \<longleftrightarrow> sint (timestamp (v_vld r)) \<le> sint at"

definition shadowed :: "i64 \<Rightarrow> version list \<Rightarrow> version \<Rightarrow> bool" where
  "shadowed at rows r \<longleftrightarrow>
     list_ex (\<lambda>s. v_row s = v_row r \<and> valid_by at s \<and> validity_cmp (v_vld s) (v_vld r) = Less) rows"

definition visible_rows :: "i64 \<Rightarrow> version list \<Rightarrow> version list" where
  "visible_rows at rows =
     filter (\<lambda>r. is_assert (v_vld r) \<and> valid_by at r \<and> \<not> shadowed at rows r) rows"

definition row_tuple :: "(bytes \<Rightarrow> tuple option) \<Rightarrow> version \<Rightarrow> tuple result" where
  "row_tuple from_slice r = try_extend_tuple_from_v from_slice (v_row r @ [Validity (v_vld r)]) (v_val r)"

text \<open>Every version of a relation has the same number of columns and no version carries the
  engine's terminal validity, which \<open>op_validity\<close> and the write paths refuse.\<close>

definition version_ok :: "ext \<Rightarrow> nat \<Rightarrow> version \<Rightarrow> bool" where
  "version_ok E n r \<longleftrightarrow> wf_tuple E (v_row r) \<and> length (v_row r) = n \<and> v_vld r \<noteq> TERMINAL_VALIDITY"

definition upper_clear :: "u64 \<Rightarrow> bytes \<Rightarrow> version list \<Rightarrow> bool" where
  "upper_clear rid upper rows \<longleftrightarrow> list_all (\<lambda>r. bytes_le (vkey rid (v_row r) TERMINAL_VALIDITY) upper) rows"

section \<open>Version keys\<close>

lemma validity_less_terminal: "v \<noteq> TERMINAL_VALIDITY \<Longrightarrow> validity_cmp v TERMINAL_VALIDITY = Less"
proof -
  assume v: "v \<noteq> TERMINAL_VALIDITY"
  have m: "sint (0x8000000000000000 :: i64) = - (2 ^ 63)" by simp
  have "sint (0x8000000000000000 :: i64) \<le> sint (timestamp v)"
    unfolding m using sint_i64_bounds[of "timestamp v"] by simp
  moreover have "timestamp v = 0x8000000000000000" if "sint (timestamp v) = sint (0x8000000000000000 :: i64)"
    using that by (simp only: signed_word_eqI)
  ultimately show ?thesis
    using v by (cases v) (auto simp: validity_cmp_def TERMINAL_VALIDITY_def cmp_of_def simp del: sint_numeral)
qed

lemma vkey_less_terminal: "v \<noteq> TERMINAL_VALIDITY \<Longrightarrow> bytes_less (vkey rid p v) (vkey rid p TERMINAL_VALIDITY)"
  by (simp add: bytes_less_def vkey_same_prefix validity_less_terminal)

lemma vkey_le_terminal: "bytes_le (vkey rid p v) (vkey rid p TERMINAL_VALIDITY)"
  using vkey_less_terminal[of v rid p] by (cases "v = TERMINAL_VALIDITY") (auto intro: bytes_less_imp_le)

text \<open>A key between two versions of a row is a version of that row.\<close>

lemma vkey_between:
  assumes "ext_ok E" "wf_tuple E p" "wf_tuple E q" "length p = length q"
    and "bytes_le (vkey rid p v) (vkey rid q w)" "bytes_less (vkey rid q w) (vkey rid p u)"
  shows "q = p"
proof (rule ccontr)
  assume "q \<noteq> p"
  with vkey_other_prefix[OF assms(1-4), of rid v w u w] assms(5)
  have "bytes_cmp (vkey rid p u) (vkey rid q w) = Less"
    by (cases "bytes_cmp (vkey rid p v) (vkey rid q w)") (auto simp: bytes_le_def)
  then show False using assms(6) bytes_less_asym by (auto simp: bytes_less_def)
qed

section \<open>Seeking loses nothing\<close>

lemma shadowed_iff:
  "shadowed at rows r \<longleftrightarrow>
     (\<exists>s \<in> set rows. v_row s = v_row r \<and> valid_by at s \<and> validity_cmp (v_vld s) (v_vld r) = Less)"
  by (simp add: shadowed_def list_ex_iff)

text \<open>Versions later than the time asked for neither count nor shadow.\<close>

lemma visible_drop_future:
  assumes "\<forall>r \<in> set rows. \<not> P r \<longrightarrow> \<not> valid_by at r"
  shows "visible_rows at (filter P rows) = visible_rows at rows"
proof -
  have s: "shadowed at (filter P rows) r = shadowed at rows r" for r
    using assms unfolding shadowed_iff set_filter by blast
  show ?thesis
    unfolding visible_rows_def filter_filter s by (rule filter_cong[OF refl]) (use assms in blast)
qed

text \<open>The newest version that counts decides for its row; all other versions of the row may be
  skipped.\<close>

lemma visible_decided:
  assumes "valid_by at r"
    and "\<forall>s \<in> set rest. v_row s = v_row r \<longrightarrow> validity_cmp (v_vld r) (v_vld s) = Less"
  shows "visible_rows at (r # rest) =
    (if is_assert (v_vld r) then [r] else []) @ visible_rows at (filter (\<lambda>s. v_row s \<noteq> v_row r) rest)"
proof -
  let ?rest = "filter (\<lambda>s. v_row s \<noteq> v_row r) rest"
  have asym: "validity_cmp w v \<noteq> Less" if "validity_cmp v w = Less" for v w
    using that validity_order.cmp_dual[of w v] by simp
  have self: "\<not> shadowed at (r # rest) r"
    unfolding shadowed_iff using assms(2) asym validity_order.cmp_refl[of "v_vld r"] by auto
  have same: "shadowed at (r # rest) s" if "s \<in> set rest" "v_row s = v_row r" for s
    unfolding shadowed_iff using that assms by (intro bexI[of _ r]) simp_all
  have other: "shadowed at (r # rest) s = shadowed at ?rest s" if "v_row s \<noteq> v_row r" for s
    using that unfolding shadowed_iff set_filter list.set(2) Bex_def insert_iff mem_Collect_eq by metis
  have "filter (\<lambda>s. is_assert (v_vld s) \<and> valid_by at s \<and> \<not> shadowed at (r # rest) s) rest
      = filter (\<lambda>s. is_assert (v_vld s) \<and> valid_by at s \<and> \<not> shadowed at ?rest s) ?rest"
    unfolding filter_filter by (rule filter_cong[OF refl]) (use same other in blast)
  then show ?thesis using assms(1) self by (simp add: visible_rows_def)
qed

lemma store_of_simps [simp]:
  "store_of rid [] = []" "store_of rid (r # rows) = (version_key rid r, v_val r) # store_of rid rows"
  by (simp_all add: store_of_def)

lemma store_of_range:
  "bytes_le b upper \<Longrightarrow> bt_range (store_of rid rows) b upper
     = Some (store_of rid (filter (\<lambda>r. in_range b upper (version_key rid r)) rows))"
  by (simp add: bt_range_spec store_of_def filter_map comp_def)

lemma rows_after:
  assumes "filter (\<lambda>r. in_range b upper (version_key rid r)) rows = r # rest"
    and "bytes_less (version_key rid r) b'"
  shows "filter (\<lambda>r. in_range b' upper (version_key rid r)) rows
    = filter (\<lambda>r. bytes_le b' (version_key rid r)) (r # rest)"
proof -
  have "r \<in> set (filter (\<lambda>r. in_range b upper (version_key rid r)) rows)" using assms(1) by simp
  then have "bytes_le b (version_key rid r)" by (simp add: in_range_def)
  then have "bytes_le b b'" using assms(2) by (auto intro: bytes_le_trans bytes_less_imp_le)
  then show ?thesis
    unfolding assms(1)[symmetric] filter_filter
    by (intro filter_cong) (auto simp: in_range_def intro: bytes_le_trans)
qed

text \<open>The state of a scan at \<open>bound\<close>: what is left to read.\<close>

definition scan_ok :: "ext \<Rightarrow> u64 \<Rightarrow> nat \<Rightarrow> bytes \<Rightarrow> version list \<Rightarrow> bool" where
  "scan_ok E rid n upper rows \<longleftrightarrow> ext_ok E \<and> rel_ok rid \<and> list_all (version_ok E n) rows
     \<and> bt_inv (store_of rid rows)"

lemma scan_ok_sorted: "scan_ok E rid n upper rows \<Longrightarrow> sorted_wrt (\<lambda>r s. bytes_less (version_key rid r) (version_key rid s)) rows"
  by (simp add: scan_ok_def bt_inv_def store_of_def sorted_wrt_map comp_def)

lemma skip_past_future:
  assumes "scan_ok E rid n upper rows" "filter (\<lambda>r. in_range b upper (version_key rid r)) rows = r # rest"
    and "\<not> valid_by at r"
  defines "b' \<equiv> vkey rid (v_row r) \<lparr>timestamp = at, is_assert = True\<rparr>"
  shows "bytes_less (version_key rid r) b'"
    "visible_rows at (filter (\<lambda>r. in_range b' upper (version_key rid r)) rows) = visible_rows at (r # rest)"
proof -
  show lt: "bytes_less (version_key rid r) b'"
    using assms(3)
    by (simp add: b'_def version_key_def bytes_less_def vkey_same_prefix validity_cmp_def valid_by_def cmp_of_def)
  have in_rows: "set (r # rest) \<subseteq> set rows"
    unfolding assms(2)[symmetric] by auto
  have sorted: "sorted_wrt (\<lambda>r s. bytes_less (version_key rid r) (version_key rid s)) (r # rest)"
    unfolding assms(2)[symmetric] by (intro sorted_wrt_filter scan_ok_sorted[OF assms(1)])
  have "\<not> valid_by at s" if "s \<in> set (r # rest)" "\<not> bytes_le b' (version_key rid s)" for s
  proof -
    have ok: "version_ok E n r" "version_ok E n s" "ext_ok E"
      using assms(1) in_rows that(1) by (auto simp: scan_ok_def list_all_iff)
    have "bytes_le (version_key rid r) (version_key rid s)"
      using sorted that(1) by (auto intro: bytes_less_imp_le)
    then have "v_row s = v_row r"
      using that(2) ok vkey_between[of E "v_row r" "v_row s" rid]
      by (simp add: version_key_def b'_def version_ok_def)
    then have "validity_cmp (v_vld s) \<lparr>timestamp = at, is_assert = True\<rparr> = Less"
      using that(2) by (simp add: b'_def version_key_def bytes_less_def vkey_same_prefix)
    then show ?thesis
      by (auto simp: validity_cmp_def valid_by_def cmp_of_def then_with_eq_Less split: if_splits)
  qed
  then show "visible_rows at (filter (\<lambda>r. in_range b' upper (version_key rid r)) rows) = visible_rows at (r # rest)"
    unfolding rows_after[OF assms(2) lt] by (intro visible_drop_future) blast
qed

lemma skip_past_row:
  assumes "scan_ok E rid n upper rows" "filter (\<lambda>r. in_range b upper (version_key rid r)) rows = r # rest"
    and "valid_by at r"
  defines "b' \<equiv> vkey rid (v_row r) TERMINAL_VALIDITY"
  shows "bytes_less (version_key rid r) b'"
    "visible_rows at (r # rest) = (if is_assert (v_vld r) then [r] else [])
       @ visible_rows at (filter (\<lambda>r. in_range b' upper (version_key rid r)) rows)"
proof -
  have in_rows: "set (r # rest) \<subseteq> set rows"
    unfolding assms(2)[symmetric] by auto
  have ok: "version_ok E n s" if "s \<in> set (r # rest)" for s
    using assms(1) in_rows that by (auto simp: scan_ok_def list_all_iff)
  show lt: "bytes_less (version_key rid r) b'"
    using ok[of r] by (simp add: b'_def version_key_def version_ok_def vkey_less_terminal)
  have sorted: "sorted_wrt (\<lambda>r s. bytes_less (version_key rid r) (version_key rid s)) (r # rest)"
    unfolding assms(2)[symmetric] by (intro sorted_wrt_filter scan_ok_sorted[OF assms(1)])
  have newer: "\<forall>s \<in> set rest. v_row s = v_row r \<longrightarrow> validity_cmp (v_vld r) (v_vld s) = Less"
    using sorted by (auto simp: version_key_def bytes_less_def vkey_same_prefix)
  have "bytes_le b' (version_key rid s) \<longleftrightarrow> v_row s \<noteq> v_row r" if "s \<in> set (r # rest)" for s
  proof
    assume "bytes_le b' (version_key rid s)"
    then show "v_row s \<noteq> v_row r"
      using vkey_less_terminal[of "v_vld s" rid "v_row s"] ok[OF that]
      by (auto simp: b'_def version_key_def version_ok_def simp flip: bytes_not_less)
  next
    assume "v_row s \<noteq> v_row r"
    moreover have "bytes_le (version_key rid r) (version_key rid s)"
      using sorted that by (auto intro: bytes_less_imp_le)
    ultimately show "bytes_le b' (version_key rid s)"
      using vkey_between[of E "v_row r" "v_row s" rid] ok[OF that] ok[of r] assms(1)
      by (auto simp: version_key_def b'_def version_ok_def scan_ok_def simp flip: bytes_not_less)
  qed
  then have "filter (\<lambda>r. in_range b' upper (version_key rid r)) rows = filter (\<lambda>s. v_row s \<noteq> v_row r) (r # rest)"
    unfolding rows_after[OF assms(2) lt] by (intro filter_cong) auto
  then show "visible_rows at (r # rest) = (if is_assert (v_vld r) then [r] else [])
       @ visible_rows at (filter (\<lambda>r. in_range b' upper (version_key rid r)) rows)"
    using visible_decided[OF assms(3) newer] by simp
qed

lemma candidate_version:
  assumes "ext_ok E" "rel_ok rid" "version_ok E n r"
  shows "skip_candidate E from_slice at (version_key rid r) (v_val r) =
    (if \<not> valid_by at r then SkSkip (vkey rid (v_row r) \<lparr>timestamp = at, is_assert = True\<rparr>)
     else if is_assert (v_vld r) then SkItem (row_tuple from_slice r) (vkey rid (v_row r) TERMINAL_VALIDITY)
     else SkSkip (vkey rid (v_row r) TERMINAL_VALIDITY))"
  using assms check_key_encoded[of E "v_row r" rid "v_vld r" at]
  by (auto simp: skip_candidate_def version_key_def version_ok_def valid_by_def row_tuple_def)

lemma skip_step_version:
  assumes "scan_ok E rid n upper rows" "bytes_le b upper"
  shows "skip_step E from_slice (store_of rid rows) upper at b =
    (case filter (\<lambda>r. in_range b upper (version_key rid r)) rows of
       [] \<Rightarrow> SkEnd
     | r # _ \<Rightarrow>
         if \<not> valid_by at r then SkSkip (vkey rid (v_row r) \<lparr>timestamp = at, is_assert = True\<rparr>)
         else if is_assert (v_vld r) then SkItem (row_tuple from_slice r) (vkey rid (v_row r) TERMINAL_VALIDITY)
         else SkSkip (vkey rid (v_row r) TERMINAL_VALIDITY))"
proof (cases "filter (\<lambda>r. in_range b upper (version_key rid r)) rows")
  case (Cons r rest)
  have "r \<in> set (filter (\<lambda>r. in_range b upper (version_key rid r)) rows)" using Cons by simp
  then have "version_ok E n r" using assms(1) by (simp add: scan_ok_def list_all_iff)
  then show ?thesis
    using Cons candidate_version assms by (simp add: skip_step_def store_of_range scan_ok_def)
qed (simp add: skip_step_def store_of_range[OF assms(2)])

text \<open>A store that holds, between two keys, the given versions and nothing else; it may hold
  other relations outside.\<close>

definition holds_rows :: "u64 \<Rightarrow> bytes btree \<Rightarrow> bytes \<Rightarrow> bytes \<Rightarrow> version list \<Rightarrow> bool" where
  "holds_rows rid m lower upper rows \<longleftrightarrow> filter (\<lambda>e. in_range lower upper (fst e)) m = store_of rid rows"

lemma holds_rows_filter:
  assumes "holds_rows rid m lower upper rows" "bytes_le lower b"
  shows "filter (\<lambda>e. in_range b upper (fst e)) m = filter (\<lambda>e. in_range b upper (fst e)) (store_of rid rows)"
proof -
  have "filter (\<lambda>e. in_range b upper (fst e)) m = filter (\<lambda>e. in_range b upper (fst e)) (filter (\<lambda>e. in_range lower upper (fst e)) m)"
    using assms(2) unfolding filter_filter by (intro filter_cong) (auto simp: in_range_def intro: bytes_le_trans)
  then show ?thesis using assms(1) by (simp only: holds_rows_def)
qed

lemma skip_step_holds:
  assumes "holds_rows rid m lower upper rows" "bytes_le lower b" "bytes_le b upper"
  shows "skip_step E from_slice m upper at b = skip_step E from_slice (store_of rid rows) upper at b"
  using holds_rows_filter[OF assms(1,2)] assms(3) by (simp add: skip_step_def bt_range_spec)

text \<open>A scan that acts on the first version after its position, and passes over the assertions
  that \<open>dead\<close> marks.\<close>

definition version_step ::
  "(bytes \<Rightarrow> tuple option) \<Rightarrow> u64 \<Rightarrow> (version \<Rightarrow> bool) \<Rightarrow> bytes \<Rightarrow> i64 \<Rightarrow> version list \<Rightarrow> bytes \<Rightarrow> skip_out" where
  "version_step from_slice rid dead upper at rows b =
    (case filter (\<lambda>r. in_range b upper (version_key rid r)) rows of
       [] \<Rightarrow> SkEnd
     | r # _ \<Rightarrow>
         if \<not> valid_by at r then SkSkip (vkey rid (v_row r) \<lparr>timestamp = at, is_assert = True\<rparr>)
         else if is_assert (v_vld r) \<and> \<not> dead r then SkItem (row_tuple from_slice r) (vkey rid (v_row r) TERMINAL_VALIDITY)
         else SkSkip (vkey rid (v_row r) TERMINAL_VALIDITY))"

lemma skip_drain_versions:
  assumes "scan_ok E rid n upper rows"
    and steps: "\<And>b. bytes_le lower b \<Longrightarrow> bytes_le b upper \<Longrightarrow> step b = version_step from_slice rid dead upper at rows b"
    and "bytes_le lower b" "bytes_le b upper"
    and "upper_clear rid upper (filter (\<lambda>r. in_range b upper (version_key rid r)) rows)"
    and "length (filter (\<lambda>r. in_range b upper (version_key rid r)) rows) < fuel"
  shows "skip_drain fuel step b =
    Some (Inr (map (row_tuple from_slice) (filter (\<lambda>r. \<not> dead r)
      (visible_rows at (filter (\<lambda>r. in_range b upper (version_key rid r)) rows)))))"
  using assms(3-)
proof (induction fuel arbitrary: b)
  case (Suc fuel)
  let ?rem = "\<lambda>b. filter (\<lambda>r. in_range b upper (version_key rid r)) rows"
  note step = steps[OF Suc.prems(1,2), unfolded version_step_def]
  show ?case
  proof (cases "?rem b")
    case Nil
    then show ?thesis using step by (simp add: visible_rows_def)
  next
    case (Cons r rest)
    have up: "bytes_le (vkey rid (v_row r) TERMINAL_VALIDITY) upper"
      using Suc.prems(3) Cons by (simp add: upper_clear_def)
    have "r \<in> set (?rem b)" using Cons by simp
    then have lo: "bytes_le lower (version_key rid r)"
      using Suc.prems(1) by (auto simp: in_range_def intro: bytes_le_trans)
    have IH: "skip_drain fuel step b' =
        Some (Inr (map (row_tuple from_slice) (filter (\<lambda>r. \<not> dead r) (visible_rows at (?rem b')))))"
      if "bytes_less (version_key rid r) b'" "bytes_le b' upper" for b'
    proof (rule Suc.IH[OF _ that(2)])
      have rem: "?rem b' = filter (\<lambda>r. bytes_le b' (version_key rid r)) (r # rest)"
        by (rule rows_after[OF Cons that(1)])
      show "bytes_le lower b'" using lo that(1) by (auto intro: bytes_le_trans bytes_less_imp_le)
      show "length (?rem b') < fuel"
        using Suc.prems(4) Cons le_less_trans[OF length_filter_le[of "\<lambda>r. bytes_le b' (version_key rid r)" rest]]
        unfolding rem by (simp add: bytes_less_not_le[OF that(1)])
      show "upper_clear rid upper (?rem b')"
        using Suc.prems(3) Cons unfolding rem by (simp add: upper_clear_def list_all_iff)
    qed
    show ?thesis
    proof (cases "valid_by at r")
      case True
      note s = skip_past_row[OF assms(1) Cons True]
      show ?thesis using IH[OF s(1) up] s(2) True Cons step by simp
    next
      case False
      note s = skip_past_future[OF assms(1) Cons False]
      have "bytes_le (vkey rid (v_row r) \<lparr>timestamp = at, is_assert = True\<rparr>) upper"
        using vkey_le_terminal up bytes_le_trans by blast
      from IH[OF s(1) this] show ?thesis using s(2) False Cons step by simp
    qed
  qed
qed simp

lemma holds_rows_in_range:
  assumes "holds_rows rid m lower upper rows"
  shows "filter (\<lambda>r. in_range lower upper (version_key rid r)) rows = rows"
proof -
  have "\<forall>e \<in> set (store_of rid rows). in_range lower upper (fst e)"
    using assms unfolding holds_rows_def by (metis mem_Collect_eq set_filter)
  then show ?thesis by (auto simp: store_of_def intro: filter_True)
qed

lemma skip_scan_versions:
  assumes "ext_ok E" "rel_ok rid" "list_all (version_ok E n) rows" "bt_inv m"
    and "holds_rows rid m lower upper rows" "bytes_le lower upper" "upper_clear rid upper rows" "length rows < fuel"
  shows "skip_drain fuel (skip_step E from_slice m upper at) lower =
    Some (Inr (map (row_tuple from_slice) (visible_rows at rows)))"
proof -
  have "bt_inv (store_of rid rows)"
    using assms(4,5) bt_inv_filter unfolding holds_rows_def by metis
  then have ok: "scan_ok E rid n upper rows" using assms(1-3) by (simp add: scan_ok_def)
  have "skip_step E from_slice m upper at b = version_step from_slice rid (\<lambda>_. False) upper at rows b"
    if "bytes_le lower b" "bytes_le b upper" for b
    using skip_step_holds[OF assms(5) that] skip_step_version[OF ok that(2)]
    by (simp add: version_step_def split: list.split)
  from skip_drain_versions[OF ok this bytes_le_refl assms(6)] show ?thesis
    using assms(7,8) holds_rows_in_range[OF assms(5)] by simp
qed

section \<open>Scans inside a write transaction\<close>

definition no_tombstones :: "bytes option btree \<Rightarrow> bool" where
  "no_tombstones delta \<longleftrightarrow> list_all (\<lambda>e. snd e \<noteq> None) delta"

lemma overlay_head:
  assumes "no_tombstones c" "bt_inv c" "bt_inv d"
  shows "(case overlay c d of [] \<Rightarrow> None | e # _ \<Rightarrow> Some e) =
    (case (d, c) of
       ([], []) \<Rightarrow> None
     | ([], (ck, cv) # _) \<Rightarrow> Some (ck, the cv)
     | ((dk, dv) # _, []) \<Rightarrow> Some (dk, dv)
     | ((dk, dv) # _, (ck, cv) # _) \<Rightarrow> if bytes_less dk ck then Some (dk, dv) else Some (ck, the cv))"
proof (cases c)
  case c: (Cons ce c')
  obtain ck cv where ce: "ce = (ck, Some cv)" using assms(1) c by (cases ce) (auto simp: no_tombstones_def)
  show ?thesis
  proof (cases d)
    case d: (Cons de d')
    obtain dk dv where de: "de = (dk, dv)" by (cases de)
    show ?thesis
    proof (cases "bytes_cmp ck dk")
      case Less
      then show ?thesis using c ce d de bytes_less_asym[of ck dk] by (auto simp: bytes_less_def)
    next
      case Equal
      then have "ck = dk" by simp
      moreover have "bytes_cmp ck k = Less" if "k \<in> fst ` set d'" for k
        using assms(3) d de that calculation by (auto simp: bt_inv_Cons bytes_less_def)
      ultimately show ?thesis
        using c ce d de by (cases d') auto
    next
      case Greater
      then show ?thesis using c ce d de by (simp add: bytes_less_def bytes_order.cmp_Less_iff_Greater)
    qed
  qed (simp add: c ce)
qed (cases d; simp)

lemma skip_dual_step_overlay:
  assumes "no_tombstones delta" "bt_inv delta" "bt_inv stored"
  shows "skip_dual_step E from_slice stored delta upper at b = skip_step E from_slice (overlay delta stored) upper at b"
proof (cases "bytes_le b upper")
  case True
  let ?f = "\<lambda>e. in_range b upper (fst e)"
  have n: "no_tombstones (filter ?f delta)" using assms(1) by (simp add: no_tombstones_def list_all_iff)
  have r: "bt_range (overlay delta stored) b upper = Some (overlay (filter ?f delta) (filter ?f stored))"
    using bt_range_spec[OF True] overlay_filter[OF assms(2,3)] by simp
  have "list_all (\<lambda>e. snd e \<noteq> None) (filter ?f delta)" using n by (simp add: no_tombstones_def)
  then show ?thesis
    using overlay_head[OF n bt_inv_filter[OF assms(2)] bt_inv_filter[OF assms(3)], of ?f]
      True r by (auto simp: skip_dual_step_def skip_step_def bt_range_spec bytes_less_not_le split: list.splits option.splits if_splits)
next
  case False
  then show ?thesis by (simp add: skip_dual_step_def skip_step_def bt_range_def)
qed

section \<open>Properties\<close>

text \<open>C12. A time-travel scan outside a write transaction returns exactly the visible versions:
  for every row, the newest version not later than the time asked for, if it is an assertion (an
  assertion winning over a retraction of the same instant), in key order, each decoded with its
  value columns; and it returns, after at most one seek per stored version.  The store may hold
  anything outside the range; the condition on the upper end says that it does not separate
  versions of one row.\<close>

theorem skip_scan_exact:
  assumes "ext_ok E" "rel_ok rid" "list_all (version_ok E n) rows" "bt_inv m"
    and "holds_rows rid m lower upper rows" "bytes_le lower upper" "upper_clear rid upper rows" "length rows < fuel"
  shows "mem_range_skip_scan_tuple fuel E from_slice (Reader m) lower upper at =
    Some (Inr (map (row_tuple from_slice) (visible_rows at rows)))"
  using skip_scan_versions[OF assms] by simp

definition vld :: "int \<Rightarrow> bool \<Rightarrow> validity" where
  "vld ts a = \<lparr>timestamp = of_int ts, is_assert = a\<rparr>"

abbreviation sample_rows :: "version list" where
  "sample_rows \<equiv> [([Null], vld 30 True, []), ([Null], vld 10 True, []), ([Bool True], vld 20 False, []), ([Bool True], vld 5 True, [])]"

lemma sample_rows_inv: "bt_inv (store_of 1 sample_rows)"
  by (simp add: bt_inv_def version_key_def bytes_less_def encode_as_key_def vld_def u64_enc.enc_cmp)
    (simp add: cmp_of_def)

lemma sample_bounds:
  "holds_rows 1 (store_of 1 sample_rows) (encode_as_key 1 []) (encode_as_key 2 []) sample_rows"
  "upper_clear 1 (encode_as_key 2 []) sample_rows" "bytes_le (encode_as_key 1 []) (encode_as_key 2 [])"
  using in_relation[of 1 1] relation_bounds[of 1]
  by (simp_all add: rel_ok_def holds_rows_def version_key_def upper_clear_def in_range_def bytes_less_imp_le)

theorem skip_scan_exact_witness:
  "mem_range_skip_scan_tuple 9 sample_ext (\<lambda>_. None) (Reader (store_of 1 sample_rows))
     (encode_as_key 1 []) (encode_as_key 2 []) 25 = Some (Inr [Inr [Null, Validity (vld 10 True)]])"
proof -
  have "mem_range_skip_scan_tuple 9 sample_ext (\<lambda>_. None) (Reader (store_of 1 sample_rows))
      (encode_as_key 1 []) (encode_as_key 2 []) 25 =
    Some (Inr (map (row_tuple (\<lambda>_. None)) (visible_rows 25 sample_rows)))"
    using sample_rows_inv sample_bounds
    by (intro skip_scan_exact[where n = 1 and rid = 1])
      (simp_all add: rel_ok_def version_ok_def vld_def TERMINAL_VALIDITY_def)
  moreover have "visible_rows 25 sample_rows = [([Null], vld 10 True, [])]"
    by (simp add: visible_rows_def shadowed_def valid_by_def vld_def validity_cmp_def cmp_of_def)
  ultimately show ?thesis by (simp add: row_tuple_def try_extend_tuple_from_v_def)
qed

text \<open>C26. Inside a write transaction that has only put versions, the scan that reads store and
  pending changes side by side is the scan of the merged store: it agrees step by step with the
  scan a reader makes after the commit.\<close>

theorem skip_scan_in_transaction:
  assumes "no_tombstones delta" "bt_inv delta" "bt_inv stored"
  shows "mem_range_skip_scan_tuple fuel E from_slice (Writer stored delta) lower upper at =
    mem_range_skip_scan_tuple fuel E from_slice (Reader (overlay delta stored)) lower upper at
    \<and> mem_commit (Writer stored delta) = Writer (overlay delta stored) []"
proof -
  have "skip_dual_step E from_slice stored delta upper at = skip_step E from_slice (overlay delta stored) upper at"
    using skip_dual_step_overlay[OF assms] by blast
  moreover have "fold commit_change delta stored = overlay delta stored"
    using commit_changes[OF assms(2,3)] assms
    by (intro bt_ext) (auto simp: bt_inv_overlay bt_get_overlay fun_eq_iff)
  ultimately show ?thesis by simp
qed

theorem skip_scan_in_transaction_witness:
  "mem_range_skip_scan_tuple 9 sample_ext (\<lambda>_. None)
      (Writer (store_of 1 (tl sample_rows)) [(version_key 1 (hd sample_rows), Some [])]) (encode_as_key 1 []) (encode_as_key 2 []) 40
      = Some (Inr [Inr [Null, Validity (vld 30 True)]])
   \<and> mem_commit (Writer (store_of 1 (tl sample_rows)) [(version_key 1 (hd sample_rows), Some [])]) = Writer (store_of 1 sample_rows) []"
proof -
  let ?stored = "store_of 1 (tl sample_rows)" and ?delta = "[(version_key 1 (hd sample_rows), Some [])]"
  have "bytes_cmp (version_key 1 (hd sample_rows)) (version_key 1 (sample_rows ! 1)) = Less"
    using sample_rows_inv by (simp add: bt_inv_def store_of_def bytes_less_def)
  then have o: "overlay ?delta ?stored = store_of 1 sample_rows" by (simp add: store_of_def)
  have "bt_inv ?stored" using sample_rows_inv by (simp add: bt_inv_def store_of_def)
  moreover have "no_tombstones ?delta" "bt_inv ?delta" by (simp_all add: no_tombstones_def bt_inv_def)
  ultimately have t: "mem_range_skip_scan_tuple 9 sample_ext (\<lambda>_. None) (Writer ?stored ?delta) (encode_as_key 1 []) (encode_as_key 2 []) 40 =
      mem_range_skip_scan_tuple 9 sample_ext (\<lambda>_. None) (Reader (store_of 1 sample_rows)) (encode_as_key 1 []) (encode_as_key 2 []) 40"
      "mem_commit (Writer ?stored ?delta) = Writer (store_of 1 sample_rows) []"
    using skip_scan_in_transaction[of ?delta ?stored 9 sample_ext "\<lambda>_. None" "encode_as_key 1 []" "encode_as_key 2 []" 40] unfolding o by auto
  have "list_all (version_ok sample_ext 1) sample_rows" "rel_ok 1" "length sample_rows < 9"
    by (simp_all add: version_ok_def rel_ok_def vld_def TERMINAL_VALIDITY_def)
  note skip_scan_versions[OF sample_ext_ok this(2,1) sample_rows_inv sample_bounds(1,3,2) this(3), of "\<lambda>_. None" 40]
  moreover have "visible_rows 40 sample_rows = [([Null], vld 30 True, [])]"
    by (simp add: visible_rows_def shadowed_def valid_by_def vld_def validity_cmp_def cmp_of_def)
  ultimately show ?thesis using t by (simp add: row_tuple_def try_extend_tuple_from_v_def)
qed

text \<open>The pending changes of a transaction that has deleted some of the stored versions.\<close>

definition deletions :: "u64 \<Rightarrow> version list \<Rightarrow> bytes option btree" where
  "deletions rid rows = map (\<lambda>r. (version_key rid r, None)) rows"

lemma deletions_range:
  "bytes_le b upper \<Longrightarrow> bt_range (deletions rid rows) b upper
     = Some (deletions rid (filter (\<lambda>r. in_range b upper (version_key rid r)) rows))"
  by (simp add: bt_range_spec deletions_def filter_map comp_def)

lemma tombstone_version:
  assumes "ext_ok E" "rel_ok rid" "version_ok E n r"
  shows "skip_tombstone E at (version_key rid r) =
    SkSkip (vkey rid (v_row r) (if valid_by at r then TERMINAL_VALIDITY else \<lparr>timestamp = at, is_assert = True\<rparr>))"
  using assms check_key_encoded[of E "v_row r" rid "v_vld r" at]
  by (auto simp: skip_tombstone_def version_key_def version_ok_def valid_by_def)

lemma skip_dual_step_version:
  assumes "scan_ok E rid n upper rows" "holds_rows rid m lower upper rows" "bytes_le lower b" "bytes_le b upper"
  shows "skip_dual_step E from_slice m (deletions rid (filter dead rows)) upper at b =
    version_step from_slice rid dead upper at rows b"
proof -
  let ?rem = "filter (\<lambda>r. in_range b upper (version_key rid r)) rows"
  have m: "bt_range m b upper = Some (store_of rid ?rem)"
    using holds_rows_filter[OF assms(2,3)] store_of_range[OF assms(4), of rid rows] assms(4) by (simp add: bt_range_spec)
  have d: "bt_range (deletions rid (filter dead rows)) b upper = Some (deletions rid (filter dead ?rem))"
    using deletions_range[OF assms(4)] by (simp add: filter_filter conj_commute)
  show ?thesis
  proof (cases ?rem)
    case Nil
    then show ?thesis using m d by (simp add: skip_dual_step_def version_step_def deletions_def)
  next
    case (Cons r rest)
    have in_rows: "set (r # rest) \<subseteq> set rows" unfolding Cons[symmetric] by auto
    then have ok: "ext_ok E" "rel_ok rid" "version_ok E n r" using assms(1) by (auto simp: scan_ok_def list_all_iff)
    have sorted: "sorted_wrt (\<lambda>r s. bytes_less (version_key rid r) (version_key rid s)) (r # rest)"
      unfolding Cons[symmetric] by (intro sorted_wrt_filter scan_ok_sorted[OF assms(1)])
    show ?thesis
    proof (cases "dead r")
      case True
      then show ?thesis using m d Cons tombstone_version[OF ok, of at]
        by (simp add: skip_dual_step_def version_step_def deletions_def)
    next
      case False
      have "bytes_less (version_key rid r) (version_key rid s)" if "s \<in> set (filter dead rest)" for s
        using sorted that by simp
      then show ?thesis using m d Cons False candidate_version[OF ok, of from_slice at]
        by (cases "filter dead rest") (auto simp: skip_dual_step_def version_step_def deletions_def)
    qed
  qed
qed

lemma commit_deletions:
  "fold commit_change (deletions rid ds) m = filter (\<lambda>e. fst e \<notin> version_key rid ` set ds) m"
proof (induction ds arbitrary: m)
  case (Cons r ds)
  have "fold commit_change (deletions rid (r # ds)) m = fold commit_change (deletions rid ds) (bt_remove (version_key rid r) m)"
    by (simp add: deletions_def commit_change_def)
  then show ?case by (auto simp: Cons.IH bt_remove_def intro!: filter_cong)
qed (simp add: deletions_def)

lemma holds_rows_deleted:
  assumes "bt_inv (store_of rid rows)" "holds_rows rid m lower upper rows"
  shows "holds_rows rid (filter (\<lambda>e. fst e \<notin> version_key rid ` set (filter dead rows)) m) lower upper
    (filter (\<lambda>r. \<not> dead r) rows)"
proof -
  have "distinct (map (version_key rid) rows)"
    using bt_inv_distinct[OF assms(1)] by (simp add: store_of_def comp_def)
  then have key: "version_key rid r \<in> version_key rid ` set (filter dead rows) \<longleftrightarrow> dead r" if "r \<in> set rows" for r
    using that by (auto simp: distinct_map inj_on_def)
  have "filter (\<lambda>e. in_range lower upper (fst e)) (filter (\<lambda>e. fst e \<notin> version_key rid ` set (filter dead rows)) m)
      = filter (\<lambda>e. fst e \<notin> version_key rid ` set (filter dead rows)) (store_of rid rows)"
    unfolding assms(2)[unfolded holds_rows_def, symmetric] by (simp add: conj_commute)
  also have "\<dots> = store_of rid (filter (\<lambda>r. \<not> dead r) rows)"
    unfolding store_of_def filter_map comp_def by (rule arg_cong[OF filter_cong[OF refl]]) (use key in simp)
  finally show ?thesis by (simp only: holds_rows_def)
qed

text \<open>C38. In a transaction that has deleted stored versions, its own scan still counts them: it returns the
  versions visible in the store before the deletions, less the deleted ones.  A deleted version that is not later
  than the time asked for thereby hides the older versions of its row, while a reader after the commit sees the
  versions visible among those that are left.\<close>

theorem skip_scan_deleted_version:
  assumes "ext_ok E" "rel_ok rid" "list_all (version_ok E n) rows" "bt_inv m"
    and "holds_rows rid m lower upper rows" "bytes_le lower upper" "upper_clear rid upper rows" "length rows < fuel"
  shows "mem_range_skip_scan_tuple fuel E from_slice (Writer m (deletions rid (filter dead rows))) lower upper at =
      Some (Inr (map (row_tuple from_slice) (filter (\<lambda>r. \<not> dead r) (visible_rows at rows))))
    \<and> (\<exists>m'. mem_commit (Writer m (deletions rid (filter dead rows))) = Writer m' []
       \<and> mem_range_skip_scan_tuple fuel E from_slice (Reader m') lower upper at =
           Some (Inr (map (row_tuple from_slice) (visible_rows at (filter (\<lambda>r. \<not> dead r) rows)))))"
proof (intro conjI exI)
  have inv: "bt_inv (store_of rid rows)" using assms(4,5) bt_inv_filter unfolding holds_rows_def by metis
  then have ok: "scan_ok E rid n upper rows" using assms(1-3) by (simp add: scan_ok_def)
  show "mem_range_skip_scan_tuple fuel E from_slice (Writer m (deletions rid (filter dead rows))) lower upper at =
      Some (Inr (map (row_tuple from_slice) (filter (\<lambda>r. \<not> dead r) (visible_rows at rows))))"
    using skip_drain_versions[OF ok skip_dual_step_version[OF ok assms(5)] bytes_le_refl assms(6)]
      assms(7,8) holds_rows_in_range[OF assms(5)] by simp
  let ?m = "filter (\<lambda>e. fst e \<notin> version_key rid ` set (filter dead rows)) m"
  show "mem_commit (Writer m (deletions rid (filter dead rows))) = Writer ?m []"
    by (simp only: mem_commit.simps commit_deletions)
  have "skip_drain fuel (skip_step E from_slice ?m upper at) lower =
      Some (Inr (map (row_tuple from_slice) (visible_rows at (filter (\<lambda>r. \<not> dead r) rows))))"
    using assms(3,7,8) holds_rows_deleted[OF inv assms(5)] le_less_trans[OF length_filter_le assms(8)]
    by (intro skip_scan_versions[OF assms(1,2) _ bt_inv_filter[OF assms(4)] _ assms(6)])
      (auto simp: list_all_iff upper_clear_def)
  then show "mem_range_skip_scan_tuple fuel E from_slice (Reader ?m) lower upper at =
      Some (Inr (map (row_tuple from_slice) (visible_rows at (filter (\<lambda>r. \<not> dead r) rows))))" by simp
qed

theorem skip_scan_deleted_version_witness:
  "mem_range_skip_scan_tuple 9 sample_ext (\<lambda>_. None)
      (Writer (store_of 1 sample_rows) (deletions 1 [([Null], vld 30 True, [])])) (encode_as_key 1 []) (encode_as_key 2 []) 40
      = Some (Inr [])
   \<and> (\<exists>m'. mem_commit (Writer (store_of 1 sample_rows) (deletions 1 [([Null], vld 30 True, [])])) = Writer m' []
       \<and> mem_range_skip_scan_tuple 9 sample_ext (\<lambda>_. None) (Reader m') (encode_as_key 1 []) (encode_as_key 2 []) 40
         = Some (Inr [Inr [Null, Validity (vld 10 True)]]))"
proof -
  let ?dead = "\<lambda>r :: version. timestamp (v_vld r) = 30"
  have "list_all (version_ok sample_ext 1) sample_rows" "rel_ok 1"
    by (simp_all add: version_ok_def rel_ok_def vld_def TERMINAL_VALIDITY_def)
  from skip_scan_deleted_version[OF sample_ext_ok this(2,1) sample_rows_inv sample_bounds(1,3,2), of 9 "\<lambda>_. None" ?dead 40]
  show ?thesis
    by (simp add: visible_rows_def shadowed_def valid_by_def validity_cmp_def vld_def cmp_of_def row_tuple_def
        try_extend_tuple_from_v_def)
qed

end
