(* ===== verification/Columns.thy ===== *)
theory Columns
  imports Tuples
begin

text \<open>
  Column types and coercion (\<open>data/relation.rs\<close>), with the conversion of values to JSON
  (\<open>data/json.rs\<close>) that the \<open>Json\<close> column type uses.  \<open>coerce\<close> is shown to be a projection
  onto the values of the column type (\<open>has_type\<close>): what it returns has the type, and a value
  that has the type is returned unchanged.
\<close>

section \<open>Column types\<close>

datatype vec_element_type = ElF32 | ElF64

datatype coltype =
    CAny
  | CBool
  | CInt
  | CFloat
  | CString
  | CBytes
  | CUuid
  | CList nullable_coltype "nat option"
  | CVec vec_element_type nat
  | CTuple "nullable_coltype list"
  | CValidity
  | CTxTime
  | CJson
and nullable_coltype = Nullable (coltype: coltype) (nullable: bool)

text \<open>Of the default expression of a column only its presence matters here.\<close>

record column_def =
  col_name :: bytes
  typing :: nullable_coltype
  has_default :: bool

record stored_relation_metadata =
  keys :: "column_def list"
  non_keys :: "column_def list"

fun satisfied_by_required_col_in :: "column_def list \<Rightarrow> column_def \<Rightarrow> unit result" where
  "satisfied_by_required_col_in [] col =
     (if coltype (typing col) = CTxTime then Inr ()
      else if \<not> has_default col then Inl ColumnNotProvided else Inr ())"
| "satisfied_by_required_col_in (target # targets) col =
     (if col_name target = col_name col then Inr () else satisfied_by_required_col_in targets col)"

definition satisfied_by_required_col :: "stored_relation_metadata \<Rightarrow> column_def \<Rightarrow> unit result" where
  "satisfied_by_required_col md col = satisfied_by_required_col_in (keys md @ non_keys md) col"

fun compatible_with_col_in :: "column_def list \<Rightarrow> column_def \<Rightarrow> unit result" where
  "compatible_with_col_in [] col = Inl ColumnNotFound"
| "compatible_with_col_in (target # targets) col =
     (if col_name target = col_name col
      then (if (\<not> nullable (typing col) \<or> coltype (typing col) \<noteq> CAny) \<and> typing target \<noteq> typing col
            then Inl IncompatibleTyping else Inr ())
      else compatible_with_col_in targets col)"

definition compatible_with_col :: "stored_relation_metadata \<Rightarrow> column_def \<Rightarrow> unit result" where
  "compatible_with_col md col = compatible_with_col_in (keys md @ non_keys md) col"

section \<open>Library code\<close>

text \<open>Behaviour of crates outside the repository: base64, UUID syntax, RFC 3339 (as nanoseconds
  from the epoch) and the text \<open>serde_json\<close> writes.\<close>

datatype json =
    JNull
  | JBool bool
  | JInt i64
  | JFloat f64
  | JString bytes
  | JArray "json list"
  | JText bytes

record col_lib =
  b64_decode :: "bytes \<Rightarrow> bytes option"
  b64_encode :: "bytes \<Rightarrow> bytes"
  uuid_parse :: "bytes \<Rightarrow> uuid option"
  uuid_text :: "uuid \<Rightarrow> bytes"
  rfc3339 :: "bytes \<Rightarrow> int option"
  render_json :: "json \<Rightarrow> bytes"

definition ascii :: "string \<Rightarrow> bytes" where
  "ascii s = map of_char s"

section \<open>Conversions between the float widths\<close>

definition f32_mag :: "f32 \<Rightarrow> nat" where
  "f32_mag f = unat (to_bits32 f) mod 2 ^ 31"

definition f32_sign :: "f32 \<Rightarrow> bool" where
  "f32_sign f \<longleftrightarrow> 2 ^ 31 \<le> unat (to_bits32 f)"

text \<open>\<open>f as f64\<close> is exact; \<open>f as f32\<close> rounds to nearest, ties to even.  NaNs stay NaNs.\<close>

definition f32_as_f64 :: "f32 \<Rightarrow> f64" where
  "f32_as_f64 f =
     (let m = f32_mag f; e = m div 2 ^ 23; frac = m mod 2 ^ 23;
          mag = (if e = 255 then 2047 * 2 ^ 52 + frac * 2 ^ 29 + (if frac = 0 \<or> 2 ^ 22 \<le> frac then 0 else 2 ^ 51)
                 else if 0 < e then (e + 896) * 2 ^ 52 + frac * 2 ^ 29
                 else if frac = 0 then 0
                 else nat_f64_mag frac - 149 * 2 ^ 52)
      in F64 (of_nat ((if f32_sign f then 2 ^ 63 else 0) + mag)))"

definition f64_as_f32 :: "f64 \<Rightarrow> f32" where
  "f64_as_f32 f =
     (let m = f64_mag f; e = m div 2 ^ 52; frac = m mod 2 ^ 52;
          mag = (if e = 2047 then 255 * 2 ^ 23 + (if frac = 0 then 0 else 2 ^ 22 + (frac div 2 ^ 29) mod 2 ^ 22)
                 else if 897 \<le> e then min (255 * 2 ^ 23) (round_half_even (m - 896 * 2 ^ 52) 29)
                 else if e = 0 then 0
                 else round_half_even (2 ^ 52 + frac) (29 + (897 - e)))
      in F32 (of_nat ((if f64_sign f then 2 ^ 31 else 0) + mag)))"

section \<open>Values to JSON\<close>

definition json_number :: "f64 \<Rightarrow> json" where
  "json_number f = (if f64_is_nan f \<or> f64_mag f = 2047 * 2 ^ 52 then JNull else JFloat f)"

fun value_to_json :: "col_lib \<Rightarrow> data_value \<Rightarrow> json" where
  "value_to_json L Null = JNull"
| "value_to_json L Bot = JNull"
| "value_to_json L (Bool b) = JBool b"
| "value_to_json L (Num (NInt i)) = JInt i"
| "value_to_json L (Num (NFloat f)) =
     (if f64_mag f = 2047 * 2 ^ 52
      then JString (if f64_sign f then ascii ''NEGATIVE_INFINITY'' else ascii ''INFINITY'')
      else json_number f)"
| "value_to_json L (Str t) = JString t"
| "value_to_json L (Bytes b) = JString (b64_encode L b)"
| "value_to_json L (List l) = JArray (map (value_to_json L) l)"
| "value_to_json L (Set l) = JArray (map (value_to_json L) l)"
| "value_to_json L (Regex r) = JString r"
| "value_to_json L (Uuid u) = JString (uuid_text L u)"
| "value_to_json L (Vec (VecF32 a)) = JArray (map (json_number \<circ> f32_as_f64) a)"
| "value_to_json L (Vec (VecF64 a)) = JArray (map json_number a)"
| "value_to_json L (Validity v) = JArray [JInt (timestamp v), JBool (is_assert v)]"
| "value_to_json L (Json j) = JText j"

text \<open>A \<open>DataValue::Json\<close> is kept as its text.\<close>

definition json_text :: "col_lib \<Rightarrow> json \<Rightarrow> bytes" where
  "json_text L j = (case j of JText t \<Rightarrow> t | _ \<Rightarrow> render_json L j)"

section \<open>Coercion\<close>

text \<open>A \<open>SystemTime\<close> is its distance from the epoch in nanoseconds.\<close>

definition system_time_to_micros :: "int \<Rightarrow> i64 result" where
  "system_time_to_micros st =
     (let micros = (if 0 \<le> st then st div 1000 else - ((- st) div 1000))
      in if - (2 ^ 63) \<le> micros \<and> micros < 2 ^ 63 then Inr (of_int micros) else Inl TimestampOutOfRange)"

definition I64_MAX :: i64 where "I64_MAX = 0x7FFFFFFFFFFFFFFF"
definition I64_MIN :: i64 where "I64_MIN = 0x8000000000000000"

definition get_uuid :: "col_lib \<Rightarrow> data_value \<Rightarrow> uuid option" where
  "get_uuid L v = (case v of Uuid u \<Rightarrow> Some u | Str s \<Rightarrow> uuid_parse L s | _ \<Rightarrow> None)"

definition vector_len :: "vector \<Rightarrow> nat" where
  "vector_len v = (case v of VecF32 a \<Rightarrow> length a | VecF64 a \<Rightarrow> length a)"

definition el_type :: "vector \<Rightarrow> vec_element_type" where
  "el_type v = (case v of VecF32 _ \<Rightarrow> ElF32 | VecF64 _ \<Rightarrow> ElF64)"

text \<open>The bytes of a base64 string reinterpreted as floats, little-endian as on the supported
  targets; bytes after the last whole float are not read.\<close>

fun le_chunks :: "nat \<Rightarrow> nat \<Rightarrow> bytes \<Rightarrow> nat list" where
  "le_chunks w 0 bs = []"
| "le_chunks w (Suc n) bs = be_read (rev (take w bs)) # le_chunks w n (drop w bs)"

definition coerce_vec :: "col_lib \<Rightarrow> vec_element_type \<Rightarrow> nat \<Rightarrow> data_value \<Rightarrow> data_value result" where
  "coerce_vec L eltype len data =
     (case data of
        List l \<Rightarrow>
          if length l \<noteq> len then Inl BadListLength
          else (case eltype of
              ElF32 \<Rightarrow> map_res (\<lambda>a. Vec (VecF32 a))
                (collect_res (\<lambda>el. map_res f64_as_f32 (ok_or DataCoercionFailed (get_float el))) l)
            | ElF64 \<Rightarrow> map_res (\<lambda>a. Vec (VecF64 a))
                (collect_res (\<lambda>el. ok_or DataCoercionFailed (get_float el)) l))
      | Vec arr \<Rightarrow>
          if eltype \<noteq> el_type arr \<or> len \<noteq> vector_len arr then Inl DataCoercionFailed else Inr data
      | Str s \<Rightarrow>
          (case b64_decode L s of
             None \<Rightarrow> Inl DataCoercionFailed
           | Some bs \<Rightarrow>
               (case eltype of
                  ElF32 \<Rightarrow> if length bs div 4 \<noteq> len then Inl DataCoercionFailed
                    else Inr (Vec (VecF32 (map (\<lambda>n. F32 (of_nat n)) (le_chunks 4 len bs))))
                | ElF64 \<Rightarrow> if length bs div 8 \<noteq> len then Inl DataCoercionFailed
                    else Inr (Vec (VecF64 (map (\<lambda>n. F64 (of_nat n)) (le_chunks 8 len bs))))))
      | _ \<Rightarrow> Inl DataCoercionFailed)"

definition coerce_validity :: "col_lib \<Rightarrow> i64 \<Rightarrow> data_value \<Rightarrow> data_value result" where
  "coerce_validity L cur_vld data =
     (case data of
        Validity v \<Rightarrow> Inr data
      | Str s \<Rightarrow>
          if s = ascii ''ASSERT'' then Inr (Validity \<lparr>timestamp = cur_vld, is_assert = True\<rparr>)
          else if s = ascii ''RETRACT'' then Inr (Validity \<lparr>timestamp = cur_vld, is_assert = False\<rparr>)
          else (let (asserted, ts_str) =
                  (case s of c # remaining \<Rightarrow> if [c] = ascii ''~'' then (False, remaining) else (True, s)
                   | [] \<Rightarrow> (True, s))
                in bind_res (ok_or InvalidValidity (rfc3339 L ts_str))
                  (\<lambda>st. bind_res (map_err InvalidValidity (system_time_to_micros st))
                    (\<lambda>microseconds.
                        if microseconds = I64_MAX \<or> microseconds = I64_MIN then Inl InvalidValidity
                        else Inr (Validity \<lparr>timestamp = microseconds, is_assert = asserted\<rparr>))))
      | List l \<Rightarrow>
          if length l = 2 then
            (case l ! 0 of
               Num (NFloat f) \<Rightarrow> Inl FloatValidity
             | _ \<Rightarrow>
                 (case (get_int_strict (l ! 0), get_bool (l ! 1)) of
                    (Some ts, Some asserted) \<Rightarrow>
                      if ts = I64_MAX \<or> ts = I64_MIN then Inl InvalidValidity
                      else Inr (Validity \<lparr>timestamp = ts, is_assert = asserted\<rparr>)
                  | _ \<Rightarrow> Inl InvalidValidity))
          else Inl InvalidValidity
      | _ \<Rightarrow> Inl InvalidValidity)"

lemma size_tuple_member: "(t, el) \<in> set (zip typ l) \<Longrightarrow> size t \<le> size_list size typ"
  by (meson order_refl set_zip_leftD size_list_estimation')

function (sequential) coerce :: "col_lib \<Rightarrow> i64 \<Rightarrow> nullable_coltype \<Rightarrow> data_value \<Rightarrow> data_value result"
  and coerce_to :: "col_lib \<Rightarrow> i64 \<Rightarrow> coltype \<Rightarrow> data_value \<Rightarrow> data_value result" where
  "coerce L cur_vld (Nullable ct null) data =
     (if data = Null then (if null then Inr data else Inl InvalidNullValue)
      else coerce_to L cur_vld ct data)"
| "coerce_to L cur_vld CAny data =
     (case data of Set s \<Rightarrow> Inr (List s) | Bot \<Rightarrow> Inl DataCoercionFromBot | d \<Rightarrow> Inr d)"
| "coerce_to L cur_vld CBool data = map_res Bool (ok_or DataCoercionFailed (get_bool data))"
| "coerce_to L cur_vld CInt data = map_res (\<lambda>i. Num (NInt i)) (ok_or DataCoercionFailed (get_int data))"
| "coerce_to L cur_vld CFloat data = map_res (\<lambda>f. Num (NFloat f)) (ok_or DataCoercionFailed (get_float data))"
| "coerce_to L cur_vld CString data = (case data of Str _ \<Rightarrow> Inr data | _ \<Rightarrow> Inl DataCoercionFailed)"
| "coerce_to L cur_vld CBytes data =
     (case data of
        Bytes _ \<Rightarrow> Inr data
      | Str s \<Rightarrow> map_res Bytes (ok_or BadBase64EncodedString (b64_decode L s))
      | _ \<Rightarrow> Inl DataCoercionFailed)"
| "coerce_to L cur_vld CUuid data = map_res Uuid (ok_or DataCoercionFailed (get_uuid L data))"
| "coerce_to L cur_vld (CList eltype len) data =
     (case data of
        List l \<Rightarrow>
          if len \<noteq> None \<and> len \<noteq> Some (length l) then Inl BadListLength
          else map_res List (collect_res (coerce L cur_vld eltype) l)
      | _ \<Rightarrow> Inl DataCoercionFailed)"
| "coerce_to L cur_vld (CVec eltype len) data = coerce_vec L eltype len data"
| "coerce_to L cur_vld (CTuple typ) data =
     (case data of
        List l \<Rightarrow>
          if length typ \<noteq> length l then Inl BadListLength
          else map_res List (collect_res (\<lambda>(t, el). coerce L cur_vld t el) (zip typ l))
      | _ \<Rightarrow> Inl DataCoercionFailed)"
| "coerce_to L cur_vld CTxTime data = Inl TxTimeUserSupplied"
| "coerce_to L cur_vld CValidity data = coerce_validity L cur_vld data"
| "coerce_to L cur_vld CJson data = Inr (Json (json_text L (value_to_json L data)))"
  by pat_completeness auto
termination
  by (relation "measure (case_sum (\<lambda>(_, _, t, _). size t) (\<lambda>(_, _, t, _). size t))")
    (auto dest: size_tuple_member)

section \<open>What it means to have a column type\<close>

function (sequential) has_type :: "nullable_coltype \<Rightarrow> data_value \<Rightarrow> bool"
  and has_coltype :: "coltype \<Rightarrow> data_value \<Rightarrow> bool" where
  "has_type (Nullable ct null) v = (if v = Null then null else has_coltype ct v)"
| "has_coltype CAny v = (case v of Set _ \<Rightarrow> False | Bot \<Rightarrow> False | _ \<Rightarrow> True)"
| "has_coltype CBool v = (case v of Bool _ \<Rightarrow> True | _ \<Rightarrow> False)"
| "has_coltype CInt v = (case v of Num (NInt _) \<Rightarrow> True | _ \<Rightarrow> False)"
| "has_coltype CFloat v = (case v of Num (NFloat _) \<Rightarrow> True | _ \<Rightarrow> False)"
| "has_coltype CString v = (case v of Str _ \<Rightarrow> True | _ \<Rightarrow> False)"
| "has_coltype CBytes v = (case v of Bytes _ \<Rightarrow> True | _ \<Rightarrow> False)"
| "has_coltype CUuid v = (case v of Uuid _ \<Rightarrow> True | _ \<Rightarrow> False)"
| "has_coltype (CList eltype len) v =
     (case v of List l \<Rightarrow> list_all (has_type eltype) l \<and> (len = None \<or> len = Some (length l)) | _ \<Rightarrow> False)"
| "has_coltype (CVec eltype len) v =
     (case v of Vec a \<Rightarrow> el_type a = eltype \<and> vector_len a = len | _ \<Rightarrow> False)"
| "has_coltype (CTuple typ) v =
     (case v of List l \<Rightarrow> length l = length typ \<and> list_all (\<lambda>(t, el). has_type t el) (zip typ l) | _ \<Rightarrow> False)"
| "has_coltype CValidity v = (case v of Validity _ \<Rightarrow> True | _ \<Rightarrow> False)"
| "has_coltype CTxTime v = False"
| "has_coltype CJson v = (case v of Json _ \<Rightarrow> True | _ \<Rightarrow> False)"
  by pat_completeness auto
termination
  by (relation "measure (case_sum (\<lambda>(t, _). size t) (\<lambda>(t, _). size t))")
    (auto dest: size_tuple_member)

lemma length_le_chunks [simp]: "length (le_chunks w n bs) = n"
  by (induction n arbitrary: bs) simp_all

lemma coerce_vec_sound: "coerce_vec L eltype len data = Inr w \<Longrightarrow> has_coltype (CVec eltype len) w"
  by (auto simp: coerce_vec_def collect_res_eq_Inr map_res_eq_Inr el_type_def vector_len_def
      split: data_value.splits vec_element_type.splits if_splits option.splits vector.splits dest: list_all2_lengthD)

lemma coerce_validity_sound: "coerce_validity L cur data = Inr w \<Longrightarrow> \<exists>v. w = Validity v"
  by (auto simp: coerce_validity_def bind_res_eq_Inr Let_def
      split: data_value.splits if_splits option.splits sum.splits number.splits prod.splits)

text \<open>What \<open>coerce\<close> returns has the type.\<close>

lemma collect_res_all2:
  "collect_res f xs = Inr ys \<Longrightarrow> (\<And>x y. x \<in> set xs \<Longrightarrow> f x = Inr y \<Longrightarrow> P x y) \<Longrightarrow> list_all2 P xs ys"
  by (auto simp: collect_res_eq_Inr intro: list.rel_mono_strong)

lemma coerce_to_not_Null: "coerce_to L cur ct data = Inr w \<Longrightarrow> data \<noteq> Null \<Longrightarrow> w \<noteq> Null"
  using coerce_vec_sound[of L] coerce_validity_sound[of L cur data w]
  by (cases ct) (auto simp: map_res_eq_Inr split: data_value.splits if_splits dest: coerce_vec_sound)

lemma coerce_sound:
  "coerce L cur ty data = Inr w \<Longrightarrow> has_type ty w"
  "coerce_to L cur ct data = Inr w \<Longrightarrow> data \<noteq> Null \<Longrightarrow> has_coltype ct w"
proof (induction L cur ty data and L cur ct data arbitrary: w and w rule: coerce_coerce_to.induct)
  case (1 L cur ct null data)
  then show ?case using coerce_to_not_Null by (auto split: if_splits)
next
  case (9 L cur eltype len data)
  then obtain l ys where d: "data = List l" "w = List ys" "collect_res (coerce L cur eltype) l = Inr ys"
    "len = None \<or> len = Some (length l)"
    by (auto simp: map_res_eq_Inr split: data_value.splits if_splits)
  have "list_all2 (\<lambda>x y. has_type eltype y) l ys"
    by (rule collect_res_all2[OF d(3)], rule "9.IH"[OF d(1)]) (use d(4) in auto)
  then show ?case using d by (simp add: list_all2_conv_all_nth list_all_length)
next
  case (11 L cur ts data)
  then obtain l ys where d: "data = List l" "w = List ys" "length ts = length l"
    "collect_res (\<lambda>(t, el). coerce L cur t el) (zip ts l) = Inr ys"
    by (auto simp: map_res_eq_Inr split: data_value.splits if_splits)
  have "list_all2 (\<lambda>x y. has_type (fst x) y) (zip ts l) ys"
    using "11.IH"[OF d(1)] d(3) by (intro collect_res_all2[OF d(4)]) auto
  then show ?case using d by (auto simp: list_all2_conv_all_nth list_all_length)
next
  case (10 L cur eltype len data)
  then show ?case by (simp add: coerce_vec_sound del: has_coltype.simps)
next
  case (13 L cur data)
  then show ?case using coerce_validity_sound by fastforce
qed (auto simp: map_res_eq_Inr split: data_value.splits if_splits)

text \<open>A value that has the type is returned unchanged.\<close>

lemma collect_res_id: "(\<And>x. x \<in> set xs \<Longrightarrow> f x = Inr (g x)) \<Longrightarrow> collect_res f xs = Inr (map g xs)"
  by (induction xs) simp_all

lemma coerce_complete:
  "has_type ty data \<Longrightarrow> coerce L cur ty data = Inr data"
  "has_coltype ct data \<Longrightarrow> data \<noteq> Null \<Longrightarrow> coerce_to L cur ct data = Inr data"
proof (induction L cur ty data and L cur ct data rule: coerce_coerce_to.induct)
  case (9 L cur eltype len data)
  then show ?case
    by (cases data) (auto simp: list_all_iff collect_res_id[where g = id])
next
  case (11 L cur ts data)
  then obtain l where l: "data = List l" "length l = length ts" "\<forall>(t, el) \<in> set (zip ts l). has_type t el"
    by (cases data) (auto simp: list_all_iff)
  have "collect_res (\<lambda>(t, el). coerce L cur t el) (zip ts l) = Inr (map snd (zip ts l))"
    using "11.IH"[OF l(1)] l(2,3) by (intro collect_res_id) auto
  then show ?case using l by simp
next
  case (10 L cur eltype len data)
  then show ?case by (cases data) (simp_all add: coerce_vec_def)
qed (auto simp: get_uuid_def coerce_validity_def json_text_def split: data_value.splits number.splits if_splits)

text \<open>A string for a vector column of 32-bit floats is accepted when its decoded length is the
  column's up to three trailing bytes, which are dropped without a report.\<close>

lemma coerce_vec_drops_tail:
  assumes "b64_decode L s = Some (bs @ tail)" "length bs = 4 * len" "length tail < 4"
  shows "\<exists>a. coerce_vec L ElF32 len (Str s) = Inr (Vec (VecF32 a)) \<and> length a = len
    \<and> (\<forall>L'. b64_decode L' s = Some bs \<longrightarrow> coerce_vec L' ElF32 len (Str s) = Inr (Vec (VecF32 a)))"
proof -
  have "le_chunks 4 n (xs @ ys) = le_chunks 4 n xs" if "length xs = 4 * n" for n xs ys
    using that
  proof (induction n arbitrary: xs)
    case (Suc n)
    then have "le_chunks 4 n (drop 4 xs @ ys) = le_chunks 4 n (drop 4 xs)" by simp
    then show ?case using Suc.prems by simp
  qed simp
  then show ?thesis using assms by (simp add: coerce_vec_def)
qed

section \<open>Properties\<close>

text \<open>C30. Coercion is a projection onto the values of the column type: whatever it returns has the
  type, a value that has the type comes back unchanged, and nothing has the type of a
  transaction-time column, so no write can supply one (a null for a nullable one excepted).\<close>

theorem coerce_projection:
  "(coerce L cur ty data = Inr w \<longrightarrow> has_type ty w) \<and> (has_type ty data \<longrightarrow> coerce L cur ty data = Inr data)
   \<and> (data \<noteq> Null \<longrightarrow> coerce L cur (Nullable CTxTime null) data = Inl TxTimeUserSupplied)"
  using coerce_sound(1) coerce_complete(1) by simp

definition sample_lib :: col_lib where
  "sample_lib = \<lparr>b64_decode = Some, b64_encode = id, uuid_parse = \<lambda>_. None, uuid_text = \<lambda>_. [],
     rfc3339 = \<lambda>_. None, render_json = \<lambda>_. []\<rparr>"

theorem coerce_projection_witness:
  "coerce sample_lib 7 (Nullable (CList (Nullable CInt True) (Some 2)) False) (List [Num (NInt 1), Null])
     = Inr (List [Num (NInt 1), Null])"
  using coerce_projection[of sample_lib 7 "Nullable (CList (Nullable CInt True) (Some 2)) False"
      "List [Num (NInt 1), Null]"]
  by simp

text \<open>The write path keeps the sentinel timestamps out of validity columns: a validity made
  from a string or a list never carries the first or the last 64-bit instant, unless the current
  time does.\<close>

lemma coerce_validity_no_sentinel:
  assumes "coerce_validity L cur data = Inr (Validity v)" "cur \<noteq> I64_MIN" "cur \<noteq> I64_MAX"
    and "\<nexists>v'. data = Validity v'"
  shows "timestamp v \<noteq> I64_MIN \<and> timestamp v \<noteq> I64_MAX"
  using assms
  by (auto simp: coerce_validity_def bind_res_eq_Inr Let_def
      split: data_value.splits if_splits option.splits sum.splits number.splits prod.splits)

end
