(* ===== verification/Relations.thy ===== *)
theory Relations
  imports SkipScan Columns
begin

text \<open>
  Stored relations (\<open>runtime/relation.rs\<close>): the handle of a relation, the encoding of its rows,
  point lookups and scans, access levels, index choice, the temporal axes a relation may declare
  and how a read is resolved against them.  A session holds a transaction of the main store and
  one of the temporary store; scans go to the one the relation lives in.  The range bounds of
  the prefix scans are shown to select exactly the keys with the prefix.
\<close>

section \<open>Handles\<close>

datatype access_level = Hidden | ReadOnly | Protected | Normal

fun access_rank :: "access_level \<Rightarrow> nat" where
  "access_rank Hidden = 0"
| "access_rank ReadOnly = 1"
| "access_rank Protected = 2"
| "access_rank Normal = 3"

text \<open>Of an ordinary index the id of its relation and the column mapper are kept.\<close>

record relation_handle =
  rel_name :: bytes
  rel_id :: u64
  metadata :: stored_relation_metadata
  rel_access :: access_level
  is_temp :: bool
  indices :: "(u64 \<times> nat list) list"
  tt_gc_floor :: "i64 option"

record input_relation_handle =
  inp_name :: bytes
  inp_metadata :: stored_relation_metadata

record session_tx =
  sess_store :: mem_tx
  sess_temp :: temp_tx

definition arity :: "relation_handle \<Rightarrow> nat" where
  "arity h = length (non_keys (metadata h)) + length (keys (metadata h))"

text \<open>Later insertions overwrite earlier ones of the same name.\<close>

definition raw_binding_map :: "relation_handle \<Rightarrow> bytes \<Rightarrow> nat option" where
  "raw_binding_map h =
     fold (\<lambda>(i, col) ret. ret(col_name col \<mapsto> i + length (keys (metadata h)))) (enumerate 0 (non_keys (metadata h)))
       (fold (\<lambda>(i, col) ret. ret(col_name col \<mapsto> i)) (enumerate 0 (keys (metadata h))) Map.empty)"

section \<open>Access\<close>

text \<open>\<open>split_once(':')\<close>.\<close>

fun split_once :: "u8 \<Rightarrow> bytes \<Rightarrow> (bytes \<times> bytes) option" where
  "split_once c [] = None"
| "split_once c (b # bs) =
     (if b = c then Some ([], bs) else map_option (\<lambda>(x, y). (b # x, y)) (split_once c bs))"

definition access_min :: "access_level \<Rightarrow> access_level \<Rightarrow> access_level" where
  "access_min a b = (if access_rank a \<le> access_rank b then a else b)"

text \<open>\<open>get_relation\<close> is the catalog lookup.\<close>

definition effective_read_access_level ::
  "(bytes \<Rightarrow> relation_handle result) \<Rightarrow> relation_handle \<Rightarrow> access_level result" where
  "effective_read_access_level get_relation h =
     (case split_once (of_char CHR '':'') (rel_name h) of
        Some (base_name, _) \<Rightarrow>
          map_res (\<lambda>base. access_min (rel_access h) (rel_access base)) (get_relation base_name)
      | None \<Rightarrow> Inr (rel_access h))"

definition get_relation_for_read ::
  "(bytes \<Rightarrow> relation_handle result) \<Rightarrow> bytes \<Rightarrow> relation_handle result" where
  "get_relation_for_read get_relation name =
     bind_res (get_relation name) (\<lambda>h.
       bind_res (effective_read_access_level get_relation h) (\<lambda>lvl.
         if access_rank lvl < access_rank ReadOnly then Inl InsufficientAccessLevel else Inr h))"

section \<open>Index choice\<close>

datatype index_position_use = Join | BindForLater | Ignored

fun join_prefix :: "index_position_use list \<Rightarrow> nat list \<Rightarrow> nat option" where
  "join_prefix arg_uses [] = Some 0"
| "join_prefix arg_uses (i # mapper) =
     (if length arg_uses \<le> i then None
      else if arg_uses ! i = Join then map_option Suc (join_prefix arg_uses mapper) else Some 0)"

definition required_positions :: "index_position_use list \<Rightarrow> nat list" where
  "required_positions arg_uses = filter (\<lambda>i. arg_uses ! i \<noteq> Ignored) [0..<length arg_uses]"

fun choose_index_loop ::
  "index_position_use list \<Rightarrow> bool \<Rightarrow> nat \<Rightarrow> (u64 \<times> nat list) list \<Rightarrow> nat \<Rightarrow>
     (u64 \<times> nat list \<times> bool) option \<Rightarrow> (u64 \<times> nat list \<times> bool) option option" where
  "choose_index_loop arg_uses validity_query n_keys [] max_prefix_len chosen = Some chosen"
| "choose_index_loop arg_uses validity_query n_keys ((manifest, mapper) # rest) max_prefix_len chosen =
     (if validity_query \<and> (mapper = [] \<or> n_keys = 0) then None
      else if validity_query \<and> last mapper \<noteq> n_keys - 1
      then choose_index_loop arg_uses validity_query n_keys rest max_prefix_len chosen
      else (case join_prefix arg_uses mapper of
              None \<Rightarrow> None
            | Some cur_prefix_len \<Rightarrow>
                if max_prefix_len < cur_prefix_len
                then choose_index_loop arg_uses validity_query n_keys rest cur_prefix_len
                  (Some (manifest, mapper, list_ex (\<lambda>p. p \<notin> set mapper) (required_positions arg_uses)))
                else choose_index_loop arg_uses validity_query n_keys rest max_prefix_len chosen))"

text \<open>The outer option is the panic of an index out of bounds.\<close>

definition choose_index ::
  "relation_handle \<Rightarrow> index_position_use list \<Rightarrow> bool \<Rightarrow> (u64 \<times> nat list \<times> bool) option option" where
  "choose_index h arg_uses validity_query =
     (if indices h = [] then Some None
      else if arg_uses = [] then None
      else if hd arg_uses = Join then Some None
      else choose_index_loop arg_uses validity_query (length (keys (metadata h))) (indices h) 0 None)"

section \<open>Row encoding\<close>

definition encode_key_prefix :: "relation_handle \<Rightarrow> bytes" where
  "encode_key_prefix h = write_u64 (rel_id h)"

definition amend_key_prefix :: "relation_handle \<Rightarrow> bytes \<Rightarrow> bytes option" where
  "amend_key_prefix h data = (if length data < 8 then None else Some (write_u64 (rel_id h) @ drop 8 data))"

definition encode_key_for_store :: "relation_handle \<Rightarrow> tuple \<Rightarrow> bytes result" where
  "encode_key_for_store h t =
     (let len = length (keys (metadata h))
      in if length t < len then Inl StoredRelArityMismatch
         else Inr (encode_key_prefix h @ concat (map encode_datavalue (take len t))))"

definition encode_partial_key_for_store :: "relation_handle \<Rightarrow> tuple \<Rightarrow> bytes" where
  "encode_partial_key_for_store h t = encode_key_prefix h @ concat (map encode_datavalue t)"

text \<open>\<open>to_vec\<close> is the MessagePack serialisation of a slice of values.\<close>

definition encode_val_for_store :: "(tuple \<Rightarrow> bytes) \<Rightarrow> relation_handle \<Rightarrow> tuple \<Rightarrow> bytes result" where
  "encode_val_for_store to_vec h t =
     (let start = length (keys (metadata h))
      in if length t < start then Inl Panic else Inr (encode_key_prefix h @ to_vec (drop start t)))"

definition encode_val_only_for_store :: "(tuple \<Rightarrow> bytes) \<Rightarrow> relation_handle \<Rightarrow> tuple \<Rightarrow> bytes result" where
  "encode_val_only_for_store to_vec h t = Inr (encode_key_prefix h @ to_vec t)"

section \<open>Compatibility of an input relation\<close>

datatype relation_op = Create | Replace | Reconcile | Put | Insert | Update | Rm | Delete | Ensure | EnsureNot

definition has_txtime :: "relation_handle \<Rightarrow> bool" where
  "has_txtime h \<longleftrightarrow> keys (metadata h) \<noteq> [] \<and> coltype (typing (last (keys (metadata h)))) = CTxTime"

definition is_tt_only :: "relation_handle \<Rightarrow> bool" where
  "is_tt_only h \<longleftrightarrow> has_txtime h \<and>
     (let n = length (keys (metadata h))
      in n < 2 \<or> coltype (typing (keys (metadata h) ! (n - 2))) \<noteq> CValidity)"

fun each_col :: "('a \<Rightarrow> unit result) \<Rightarrow> 'a list \<Rightarrow> unit result" where
  "each_col f [] = Inr ()"
| "each_col f (x # xs) = bind_res (f x) (\<lambda>_. each_col f xs)"

definition ensure_compatible :: "relation_handle \<Rightarrow> input_relation_handle \<Rightarrow> relation_op \<Rightarrow> unit result" where
  "ensure_compatible h inp rop =
     (let is_remove_or_update = (rop = Rm \<or> rop = Delete \<or> rop = Update);
          md = inp_metadata inp; n = length (keys (metadata h))
      in bind_res (each_col (compatible_with_col (metadata h)) (keys md @ non_keys (metadata h))) (\<lambda>_.
         bind_res (each_col (\<lambda>(i, col).
             if has_txtime h \<and> \<not> is_tt_only h \<and> i + 2 = n
                \<and> (rop = Update \<or> rop = Ensure \<or> rop = EnsureNot)
             then Inr () else satisfied_by_required_col md col) (enumerate 0 (keys (metadata h)))) (\<lambda>_.
         if is_remove_or_update then Inr ()
         else each_col (satisfied_by_required_col md) (non_keys (metadata h)))))"

section \<open>Temporal axes\<close>

definition is_tt :: "column_def \<Rightarrow> bool" where
  "is_tt c \<longleftrightarrow> coltype (typing c) = CTxTime"

definition is_vt :: "column_def \<Rightarrow> bool" where
  "is_vt c \<longleftrightarrow> coltype (typing c) = CValidity"

definition is_temp_store_name :: "bytes \<Rightarrow> bool" where
  "is_temp_store_name name \<longleftrightarrow> name \<noteq> [] \<and> hd name = of_char CHR ''_''"

text \<open>The errors are numbered in the order of the checks.\<close>

definition validate_temporal_axes :: "input_relation_handle \<Rightarrow> unit result" where
  "validate_temporal_axes inp =
     (let ks = keys (inp_metadata inp); vs = non_keys (inp_metadata inp); n = length ks;
          tt_in_keys = length (filter is_tt ks); tt_in_vals = length (filter is_tt vs);
          vt_in_keys = length (filter is_vt ks)
      in if tt_in_keys = 0 \<and> tt_in_vals = 0 then Inr ()
         else if is_temp_store_name (inp_name inp) then Inl (InvalidTemporalAxes 1)
         else if 0 < tt_in_vals then Inl (InvalidTemporalAxes 2)
         else if 1 < tt_in_keys then Inl (InvalidTemporalAxes 3)
         else if list_ex (\<lambda>c. is_tt c \<and> nullable (typing c)) ks then Inl (InvalidTemporalAxes 4)
         else if 1 < vt_in_keys then Inl (InvalidTemporalAxes 5)
         else if list_ex (\<lambda>c. is_vt c \<and> nullable (typing c)) ks then Inl (InvalidTemporalAxes 6)
         else if \<not> is_tt (ks ! (n - 1)) then Inl (InvalidTemporalAxes 7)
         else if vt_in_keys = 1 \<and> (n < 2 \<or> \<not> is_vt (ks ! (n - 2))) then Inl (InvalidTemporalAxes 8)
         else Inr ())"

datatype temporal_read =
    Plain
  | AsOf i64
  | Bitemporal "i64 option" i64

definition check_tt_gc_floor :: "relation_handle \<Rightarrow> i64 option \<Rightarrow> unit result" where
  "check_tt_gc_floor h tt =
     (case (tt, tt_gc_floor h) of
        (Some t, Some flr) \<Rightarrow> if sint t < sint flr then Inl BelowGcFloor else Inr ()
      | _ \<Rightarrow> Inr ())"

definition unwrap_or :: "'a \<Rightarrow> 'a option \<Rightarrow> 'a" where
  "unwrap_or d m = (case m of None \<Rightarrow> d | Some x \<Rightarrow> x)"

definition resolve_temporal_read :: "relation_handle \<Rightarrow> i64 option \<Rightarrow> i64 option \<Rightarrow> temporal_read result" where
  "resolve_temporal_read h vt tt =
     (if has_txtime h then
        if is_tt_only h then
          if vt \<noteq> None then Inl NoVtAxis
          else map_res (\<lambda>_. AsOf (unwrap_or MAX_VALIDITY_TS tt)) (check_tt_gc_floor h tt)
        else map_res (\<lambda>_. Bitemporal vt (unwrap_or MAX_VALIDITY_TS tt)) (check_tt_gc_floor h tt)
      else if tt \<noteq> None then Inl NoTtAxis
      else (case vt of
          None \<Rightarrow> Inr Plain
        | Some v \<Rightarrow>
            if keys (metadata h) = [] \<or> coltype (typing (last (keys (metadata h)))) \<noteq> CValidity
               \<or> nullable (typing (last (keys (metadata h))))
            then Inl InvalidTimeTravelScanning
            else Inr (AsOf v)))"

section \<open>Reads\<close>

text \<open>A scan is \<open>None\<close> where the store panics (an inverted range, or the successor of the last
  relation id).\<close>

definition route_scan ::
  "ext \<Rightarrow> (bytes \<Rightarrow> tuple option) \<Rightarrow> relation_handle \<Rightarrow> session_tx \<Rightarrow> bytes \<Rightarrow> bytes \<Rightarrow> tuple result list option" where
  "route_scan E from_slice h tx lower upper =
     (if is_temp h then temp_range_scan_tuple E from_slice (sess_temp tx) lower upper
      else mem_range_scan_tuple E from_slice (sess_store tx) lower upper)"

definition route_skip_scan ::
  "nat \<Rightarrow> ext \<Rightarrow> (bytes \<Rightarrow> tuple option) \<Rightarrow> relation_handle \<Rightarrow> session_tx \<Rightarrow> bytes \<Rightarrow> bytes \<Rightarrow> i64
     \<Rightarrow> tuple result list result option" where
  "route_skip_scan fuel E from_slice h tx lower upper valid_at =
     (if is_temp h then temp_range_skip_scan_tuple fuel E from_slice (sess_temp tx) lower upper valid_at
      else mem_range_skip_scan_tuple fuel E from_slice (sess_store tx) lower upper valid_at)"

definition scan_all ::
  "ext \<Rightarrow> (bytes \<Rightarrow> tuple option) \<Rightarrow> relation_handle \<Rightarrow> session_tx \<Rightarrow> tuple result list option" where
  "scan_all E from_slice h tx =
     (case relation_id_next (rel_id h) of
        None \<Rightarrow> None
      | Some nxt \<Rightarrow> route_scan E from_slice h tx (encode_as_key (rel_id h) []) (encode_as_key nxt []))"

definition skip_scan_all ::
  "nat \<Rightarrow> ext \<Rightarrow> (bytes \<Rightarrow> tuple option) \<Rightarrow> relation_handle \<Rightarrow> session_tx \<Rightarrow> i64 \<Rightarrow> tuple result list result option" where
  "skip_scan_all fuel E from_slice h tx valid_at =
     (case relation_id_next (rel_id h) of
        None \<Rightarrow> Some (Inl Panic)
      | Some nxt \<Rightarrow>
          route_skip_scan fuel E from_slice h tx (encode_as_key (rel_id h) []) (encode_as_key nxt []) valid_at)"

definition raw_get :: "relation_handle \<Rightarrow> session_tx \<Rightarrow> bytes \<Rightarrow> bytes option" where
  "raw_get h tx key = (if is_temp h then temp_get (sess_temp tx) key else mem_get (sess_store tx) key)"

text \<open>\<open>transpose\<close> of an optional result.\<close>

definition rel_get ::
  "ext \<Rightarrow> (bytes \<Rightarrow> tuple option) \<Rightarrow> relation_handle \<Rightarrow> session_tx \<Rightarrow> tuple \<Rightarrow> tuple option result" where
  "rel_get E from_slice h tx key =
     (let key_data = encode_as_key (rel_id h) key
      in case raw_get h tx key_data of
           None \<Rightarrow> Inr None
         | Some val_data \<Rightarrow> map_res Some (try_decode_tuple_from_kv E from_slice key_data val_data))"

definition get_batch ::
  "ext \<Rightarrow> (bytes \<Rightarrow> tuple option) \<Rightarrow> relation_handle \<Rightarrow> session_tx \<Rightarrow> tuple list \<Rightarrow> tuple option list result" where
  "get_batch E from_slice h tx ks =
     (let encoded = map (encode_as_key (rel_id h)) ks; raw = map (raw_get h tx) encoded
      in collect_res (\<lambda>(v, k). case v of
             None \<Rightarrow> Inr None
           | Some val \<Rightarrow> map_res Some (try_decode_tuple_from_kv E from_slice k val)) (zip raw encoded))"

definition get_val_only ::
  "(bytes \<Rightarrow> tuple option) \<Rightarrow> relation_handle \<Rightarrow> session_tx \<Rightarrow> tuple \<Rightarrow> tuple option result" where
  "get_val_only from_slice h tx key =
     (case raw_get h tx (encode_as_key (rel_id h) key) of
        None \<Rightarrow> Inr None
      | Some val_data \<Rightarrow> map_res Some (try_decode_val_only from_slice val_data))"

definition rel_exists :: "relation_handle \<Rightarrow> session_tx \<Rightarrow> tuple \<Rightarrow> bool" where
  "rel_exists h tx key =
     (if is_temp h then temp_exists (sess_temp tx) (encode_as_key (rel_id h) key)
      else mem_exists (sess_store tx) (encode_as_key (rel_id h) key))"

definition scan_prefix ::
  "ext \<Rightarrow> (bytes \<Rightarrow> tuple option) \<Rightarrow> relation_handle \<Rightarrow> session_tx \<Rightarrow> tuple \<Rightarrow> tuple result list option" where
  "scan_prefix E from_slice h tx pre =
     (let lower = take (length (keys (metadata h))) pre; upper = lower @ [Bot]
      in route_scan E from_slice h tx (encode_as_key (rel_id h) lower) (encode_as_key (rel_id h) upper))"

definition skip_scan_prefix ::
  "nat \<Rightarrow> ext \<Rightarrow> (bytes \<Rightarrow> tuple option) \<Rightarrow> relation_handle \<Rightarrow> session_tx \<Rightarrow> tuple \<Rightarrow> i64
     \<Rightarrow> tuple result list result option" where
  "skip_scan_prefix fuel E from_slice h tx pre valid_at =
     (let lower = take (length (keys (metadata h))) pre; upper = lower @ [Bot]
      in route_skip_scan fuel E from_slice h tx (encode_as_key (rel_id h) lower) (encode_as_key (rel_id h) upper) valid_at)"

definition scan_bounded_prefix ::
  "ext \<Rightarrow> (bytes \<Rightarrow> tuple option) \<Rightarrow> relation_handle \<Rightarrow> session_tx \<Rightarrow> tuple \<Rightarrow> tuple \<Rightarrow> tuple \<Rightarrow> tuple result list option" where
  "scan_bounded_prefix E from_slice h tx pre lower upper =
     route_scan E from_slice h tx (encode_as_key (rel_id h) (pre @ lower))
       (encode_as_key (rel_id h) (pre @ upper @ [Bot]))"

definition skip_scan_bounded_prefix ::
  "nat \<Rightarrow> ext \<Rightarrow> (bytes \<Rightarrow> tuple option) \<Rightarrow> relation_handle \<Rightarrow> session_tx \<Rightarrow> tuple \<Rightarrow> tuple \<Rightarrow> tuple \<Rightarrow> i64
     \<Rightarrow> tuple result list result option" where
  "skip_scan_bounded_prefix fuel E from_slice h tx pre lower upper valid_at =
     route_skip_scan fuel E from_slice h tx (encode_as_key (rel_id h) (pre @ lower))
       (encode_as_key (rel_id h) (pre @ upper @ [Bot])) valid_at"

section \<open>Range bounds select the prefix\<close>

lemma encode_tag_less:
  assumes "v \<noteq> Bot"
  shows "bytes_cmp (encode_datavalue v @ r) (BOT_TAG # s) = Less"
  using assms by (cases v) (simp_all add: cmp_of_def)

lemma range_has_prefix:
  assumes "ext_ok E" "wf_tuple E pre" "wf_tuple E k" "length pre \<le> length k"
    and "in_range (encode_as_key rid (pre @ a)) (encode_as_key rid (pre @ b)) (encode_as_key rid k)"
  shows "take (length pre) k = pre"
proof (rule ccontr)
  let ?a = "take (length pre) k" and ?b = "drop (length pre) k"
  assume "?a \<noteq> pre"
  moreover have "wf_tuple E ?a" using assms(3) by (auto simp: list_all_iff dest: in_set_takeD)
  moreover have "length pre = length ?a" using assms(4) by simp
  ultimately obtain c where c: "c \<in> {Less, Greater}"
    "\<forall>r s. bytes_cmp (encode_as_key rid pre @ r) (encode_as_key rid ?a @ s) = c"
    using key_other_prefix [OF assms(1,2)] by metis
  have k: "encode_as_key rid k = encode_as_key rid ?a @ concat (map encode_datavalue ?b)"
    using encode_as_key_append [of rid ?a ?b] by simp
  have "bytes_cmp (encode_as_key rid (pre @ t)) (encode_as_key rid k) = c" for t
    using c(2) unfolding k encode_as_key_append by blast
  then show False
    using assms(5) c(1) bytes_order.cmp_Less_iff_Greater
    by (auto simp: in_range_def bytes_le_def bytes_less_def)
qed

lemma prefix_range:
  assumes "ext_ok E" "wf_tuple E pre" "wf_tuple E k" "length pre \<le> length k" "Bot \<notin> set k"
  shows "in_range (encode_as_key rid pre) (encode_as_key rid (pre @ [Bot])) (encode_as_key rid k)
    \<longleftrightarrow> take (length pre) k = pre"
proof -
  let ?a = "take (length pre) k" and ?b = "drop (length pre) k"
  have k: "encode_as_key rid k = encode_as_key rid ?a @ concat (map encode_datavalue ?b)"
    using encode_as_key_append[of rid ?a ?b] by simp
  show ?thesis
  proof (cases "?a = pre")
    case True
    have "bytes_cmp (concat (map encode_datavalue ?b)) [BOT_TAG] = Less"
    proof (cases ?b)
      case (Cons v vs)
      then have "v \<in> set k" by (metis in_set_dropD list.set_intros(1))
      then have "v \<noteq> Bot" using assms(5) by auto
      then show ?thesis using Cons encode_tag_less[of v _ "[]"] by simp
    qed simp
    then show ?thesis
      using True unfolding k by (simp add: in_range_def bytes_le_append bytes_less_def encode_as_key_append)
  next
    case False
    then show ?thesis using range_has_prefix [OF assms(1-4), of rid "[]" "[Bot]"] by auto
  qed
qed

lemma prefix_bounds: "bytes_le (encode_as_key rid pre) (encode_as_key rid (pre @ [Bot]))"
  by (simp add: encode_as_key_append bytes_le_append)

context store_tx
begin

lemma prefix_scan_entries:
  assumes "inv tx" "ext_ok E" "wf_tuple E pre"
  shows "\<exists>es. range_scan tx (encode_as_key rid pre) (encode_as_key rid (pre @ [Bot])) = Some es \<and> bt_inv es
    \<and> (\<forall>k val. wf_tuple E k \<and> length pre \<le> length k \<and> Bot \<notin> set k \<longrightarrow>
         ((encode_as_key rid k, val) \<in> set es \<longleftrightarrow> get tx (encode_as_key rid k) = Some val \<and> take (length pre) k = pre))"
proof -
  obtain es where es: "range_scan tx (encode_as_key rid pre) (encode_as_key rid (pre @ [Bot])) = Some es" "bt_inv es"
    using scan_view[OF assms(1) prefix_bounds] by blast
  then show ?thesis
    using scan_entries[OF assms(1) prefix_bounds es(1)] prefix_range[OF assms(2,3)] get_view[OF assms(1)]
    by (intro exI[of _ es]) auto
qed

end

definition session_inv :: "session_tx \<Rightarrow> bool" where
  "session_inv tx \<longleftrightarrow> mem_inv (sess_store tx) \<and> bt_inv (sess_temp tx)"

lemma mem_scan_tuple_map:
  "mem_range_scan_tuple E from_slice tx lo hi =
     map_option (map (\<lambda>(k, v). try_decode_tuple_from_kv E from_slice k v)) (mem_range_scan tx lo hi)"
  by (cases tx) (auto simp: drain_new split: option.splits)

lemma route_scan_map:
  "route_scan E from_slice h tx lo hi =
     map_option (map (\<lambda>(k, v). try_decode_tuple_from_kv E from_slice k v))
       (if is_temp h then temp_range_scan (sess_temp tx) lo hi else mem_range_scan (sess_store tx) lo hi)"
  by (simp add: route_scan_def mem_scan_tuple_map temp_range_scan_tuple_def temp_range_scan_def)

section \<open>Temporal axes and compatibility\<close>

lemma is_tt_not_vt [simp]: "is_tt c \<Longrightarrow> \<not> is_vt c"
  by (simp add: is_tt_def is_vt_def)

lemma validate_axes_shape:
  assumes "validate_temporal_axes inp = Inr ()"
    and "\<not> (\<forall>c \<in> set (keys (inp_metadata inp) @ non_keys (inp_metadata inp)). \<not> is_tt c)"
  shows "\<not> is_temp_store_name (inp_name inp) \<and> (\<forall>c \<in> set (non_keys (inp_metadata inp)). \<not> is_tt c)
    \<and> (\<exists>plain axes tt. keys (inp_metadata inp) = plain @ axes @ [tt] \<and> is_tt tt \<and> \<not> nullable (typing tt)
         \<and> (axes = [] \<or> (\<exists>vt. axes = [vt] \<and> is_vt vt \<and> \<not> nullable (typing vt)))
         \<and> (\<forall>c \<in> set plain. \<not> is_tt c \<and> \<not> is_vt c))"
proof -
  let ?ks = "keys (inp_metadata inp)" and ?vs = "non_keys (inp_metadata inp)"
  have tmp: "\<not> is_temp_store_name (inp_name inp)" and vals: "filter is_tt ?vs = []"
    and ttl: "length (filter is_tt ?ks) \<le> 1" and tt0: "filter is_tt ?ks \<noteq> []" and ttn: "\<forall>c \<in> set ?ks. is_tt c \<longrightarrow> \<not> nullable (typing c)"
    and vt1: "length (filter is_vt ?ks) \<le> 1" and vtn: "\<forall>c \<in> set ?ks. is_vt c \<longrightarrow> \<not> nullable (typing c)"
    and last: "is_tt (?ks ! (length ?ks - 1))"
    and pre: "length (filter is_vt ?ks) = 1 \<longrightarrow> \<not> length ?ks < 2 \<and> is_vt (?ks ! (length ?ks - 2))"
    using assms by (auto simp: validate_temporal_axes_def Let_def list_ex_iff filter_empty_conv split: if_splits)
  have tt1: "length (filter is_tt ?ks) = 1" using ttl tt0 by (cases "filter is_tt ?ks") auto
  obtain ks tt where ks: "?ks = ks @ [tt]" using tt1 by (cases ?ks rule: rev_cases) auto
  have tt: "is_tt tt" "\<not> nullable (typing tt)" "filter is_tt ks = []"
    using ks last ttn tt1 by (auto simp: filter_empty_conv)
  show ?thesis
  proof (cases "filter is_vt ks = []")
    case True
    then show ?thesis
      using tmp vals ks tt
      by (intro conjI exI[of _ ks] exI[of _ "[]"] exI[of _ tt]) (auto simp: filter_empty_conv)
  next
    case False
    then have "length (filter is_vt ?ks) = 1" using vt1 ks tt by (cases "filter is_vt ks") auto
    moreover obtain plain vt where p: "ks = plain @ [vt]" using False by (cases ks rule: rev_cases) auto
    ultimately have "is_vt vt" "filter is_vt plain = []" using pre ks tt by (auto simp: nth_append split: if_splits)
    then show ?thesis
      using tmp vals ks tt p vtn
      by (intro conjI exI[of _ plain] exI[of _ "[vt]"] exI[of _ tt]) (auto simp: filter_empty_conv)
  qed
qed

lemma validate_axes_intro:
  assumes "\<not> is_temp_store_name (inp_name inp)" "\<forall>c \<in> set (non_keys (inp_metadata inp)). \<not> is_tt c"
    and "keys (inp_metadata inp) = plain @ axes @ [tt]" "is_tt tt" "\<not> nullable (typing tt)"
    and "axes = [] \<or> (\<exists>vt. axes = [vt] \<and> is_vt vt \<and> \<not> nullable (typing vt))"
    and "\<forall>c \<in> set plain. \<not> is_tt c \<and> \<not> is_vt c"
  shows "validate_temporal_axes inp = Inr ()"
proof -
  have "filter is_tt (non_keys (inp_metadata inp)) = []" "filter is_tt plain = []" "filter is_vt plain = []"
    using assms(2,7) by (auto simp: filter_empty_conv)
  then show ?thesis
    using assms by (auto simp: validate_temporal_axes_def Let_def list_ex_iff nth_append)
qed

lemma each_col_ok: "each_col f xs = Inr () \<longleftrightarrow> (\<forall>x \<in> set xs. f x = Inr ())"
  by (induction xs) (auto simp: bind_res_eq_Inr)

lemma satisfied_by_name:
  "satisfied_by_required_col_in xs col = Inr () \<longleftrightarrow>
     col_name col \<in> col_name ` set xs \<or> coltype (typing col) = CTxTime \<or> has_default col"
  by (induction xs) auto

section \<open>Versions below a prefix\<close>

lemma visible_prefix:
  "visible_rows at (filter (\<lambda>r. take n (v_row r) = pre) rows) = filter (\<lambda>r. take n (v_row r) = pre) (visible_rows at rows)"
  unfolding visible_rows_def filter_filter
  by (intro filter_cong) (auto simp: shadowed_def list_ex_iff)

lemma version_in_prefix:
  assumes "ext_ok E" "version_ok E n r" "Bot \<notin> set (v_row r)" "wf_tuple E pre" "length pre \<le> n"
  shows "in_range (encode_as_key rid pre) (encode_as_key rid (pre @ [Bot])) (vkey rid (v_row r) v)
    \<longleftrightarrow> take (length pre) (v_row r) = pre"
  using prefix_range[OF assms(1,4), of "v_row r @ [Validity v]"] assms(2,3,5)
  by (simp add: version_ok_def)

lemma rows_of_prefix:
  assumes "ext_ok E" "rel_ok rid" "list_all (version_ok E n) rows" "\<forall>r \<in> set rows. Bot \<notin> set (v_row r)"
    and "holds_rows rid m (encode_as_key rid []) (encode_as_key (rid + 1) []) rows" "wf_tuple E pre" "length pre \<le> n"
  shows "holds_rows rid m (encode_as_key rid pre) (encode_as_key rid (pre @ [Bot])) (filter (\<lambda>r. take (length pre) (v_row r) = pre) rows)"
    and "upper_clear rid (encode_as_key rid (pre @ [Bot])) (filter (\<lambda>r. take (length pre) (v_row r) = pre) rows)"
proof -
  let ?lo = "encode_as_key rid pre" and ?hi = "encode_as_key rid (pre @ [Bot])" and ?P = "\<lambda>r. take (length pre) (v_row r) = pre"
  have ok: "version_ok E n r" "Bot \<notin> set (v_row r)" if "r \<in> set rows" for r
    using that assms(3,4) by (auto simp: list_all_iff)
  note iff = version_in_prefix[OF assms(1) ok assms(6,7)]
  have sub: "in_range (encode_as_key rid []) (encode_as_key (rid + 1) []) k" if "in_range ?lo ?hi k" for k
  proof -
    have "in_range (encode_as_key rid []) (encode_as_key (rid + 1) []) ?lo" "in_range (encode_as_key rid []) (encode_as_key (rid + 1) []) ?hi"
      using in_relation[OF assms(2)] by auto
    then show ?thesis using that by (auto simp: in_range_def intro: bytes_le_trans bytes_less_trans)
  qed
  have "filter (\<lambda>e. in_range ?lo ?hi (fst e)) m = filter (\<lambda>e. in_range ?lo ?hi (fst e)) (store_of rid rows)"
    unfolding assms(5)[unfolded holds_rows_def, symmetric] filter_filter by (intro filter_cong) (auto dest: sub)
  also have "\<dots> = store_of rid (filter ?P rows)"
    unfolding store_of_def filter_map comp_def fst_conv version_key_def using iff
    by (intro arg_cong[where f = "map _"] filter_cong) auto
  finally show "holds_rows rid m ?lo ?hi (filter ?P rows)" by (simp add: holds_rows_def)
  show "upper_clear rid ?hi (filter ?P rows)"
    unfolding upper_clear_def list_all_iff
  proof
    fix r
    assume "r \<in> set (filter ?P rows)"
    then have "in_range ?lo ?hi (vkey rid (v_row r) TERMINAL_VALIDITY)" using iff by simp
    then show "bytes_le (vkey rid (v_row r) TERMINAL_VALIDITY) ?hi" by (simp add: in_range_def bytes_less_imp_le)
  qed
qed

section \<open>Properties\<close>

text \<open>C16. A prefix scan of a stored relation is exact: it lists in key order the rows whose key
  begins with the prefix, all of them and no others, from the store the relation lives in, as the
  transaction sees it.\<close>

theorem scan_prefix_exact:
  assumes "ext_ok E" "session_inv tx" "wf_tuple E pre" "length pre \<le> length (keys (metadata h))"
  shows "\<exists>es. scan_prefix E from_slice h tx pre = Some (map (\<lambda>(k, v). try_decode_tuple_from_kv E from_slice k v) es)
    \<and> sorted_wrt bytes_less (map fst es)
    \<and> (\<forall>k val. wf_tuple E k \<and> length k = length (keys (metadata h)) \<and> Bot \<notin> set k \<longrightarrow>
         ((encode_as_key (rel_id h) k, val) \<in> set es \<longleftrightarrow>
           raw_get h tx (encode_as_key (rel_id h) k) = Some val \<and> take (length pre) k = pre))"
proof (cases "is_temp h")
  case True
  then show ?thesis
    using temp.prefix_scan_entries[of "sess_temp tx" E pre "rel_id h"] assms
    by (auto simp: scan_prefix_def route_scan_map raw_get_def session_inv_def bt_inv_def)
next
  case False
  then show ?thesis
    using mem.prefix_scan_entries[of "sess_store tx" E pre "rel_id h"] assms
    by (auto simp: scan_prefix_def route_scan_map raw_get_def session_inv_def bt_inv_def)
qed

definition sample_col :: "nat \<Rightarrow> coltype \<Rightarrow> column_def" where
  "sample_col i t = \<lparr>col_name = [of_nat i], typing = Nullable t False, has_default = False\<rparr>"

definition sample_handle :: "column_def list \<Rightarrow> column_def list \<Rightarrow> relation_handle" where
  "sample_handle ks vs =
     \<lparr>rel_name = [114], rel_id = 1, metadata = \<lparr>keys = ks, non_keys = vs\<rparr>, rel_access = Normal,
      is_temp = False, indices = [], tt_gc_floor = None\<rparr>"

definition sample_session :: session_tx where
  "sample_session = \<lparr>sess_store = Writer [] [(encode_as_key 1 [Null, Bool True], Some [])], sess_temp = []\<rparr>"

abbreviation sample_keyed :: relation_handle where
  "sample_keyed \<equiv> sample_handle [sample_col 0 CAny, sample_col 1 CAny] []"

theorem scan_prefix_exact_witness:
  "\<exists>es. scan_prefix sample_ext (\<lambda>_. None) sample_keyed sample_session [Null]
        = Some (map (\<lambda>(k, v). try_decode_tuple_from_kv sample_ext (\<lambda>_. None) k v) es)
    \<and> sorted_wrt bytes_less (map fst es)
    \<and> (\<forall>k val. wf_tuple sample_ext k \<and> length k = length (keys (metadata sample_keyed)) \<and> Bot \<notin> set k \<longrightarrow>
         ((encode_as_key (rel_id sample_keyed) k, val) \<in> set es \<longleftrightarrow>
           raw_get sample_keyed sample_session (encode_as_key (rel_id sample_keyed) k) = Some val
           \<and> take (length [Null]) k = [Null]))"
  by (rule scan_prefix_exact) (simp_all add: session_inv_def sample_session_def sample_handle_def bt_inv_def)



text \<open>A relation declaration with a transaction-time axis is accepted exactly when the relation
  is not a temporary one and its key ends with one non-nullable \<open>TxTime\<close> column, preceded by at
  most one valid-time column, non-nullable and immediately before it; no other column is of
  type \<open>TxTime\<close>.\<close>

lemma temporal_axes_accepted:
  "validate_temporal_axes inp = Inr () \<longleftrightarrow>
     (\<forall>c \<in> set (keys (inp_metadata inp) @ non_keys (inp_metadata inp)). \<not> is_tt c)
     \<or> (\<not> is_temp_store_name (inp_name inp) \<and> (\<forall>c \<in> set (non_keys (inp_metadata inp)). \<not> is_tt c)
        \<and> (\<exists>plain axes tt. keys (inp_metadata inp) = plain @ axes @ [tt] \<and> is_tt tt \<and> \<not> nullable (typing tt)
             \<and> (axes = [] \<or> (\<exists>vt. axes = [vt] \<and> is_vt vt \<and> \<not> nullable (typing vt)))
             \<and> (\<forall>c \<in> set plain. \<not> is_tt c \<and> \<not> is_vt c)))" (is "?l \<longleftrightarrow> ?none \<or> ?axes")
proof
  assume l: ?l
  show "?none \<or> ?axes"
  proof (cases ?none)
    case False
    then show ?thesis using validate_axes_shape[OF l] by blast
  qed simp
next
  assume "?none \<or> ?axes"
  then show ?l
  proof
    assume ?none
    then have "filter is_tt (keys (inp_metadata inp)) = []" "filter is_tt (non_keys (inp_metadata inp)) = []"
      by (auto simp: filter_empty_conv)
    then show ?l by (simp add: validate_temporal_axes_def)
  next
    assume ?axes
    then show ?l by (elim conjE exE) (rule validate_axes_intro)
  qed
qed

text \<open>C39. The declared types of the input relation's value columns are not checked, nor whether the
  stored relation has them: an accepted input stays accepted when its value columns are replaced
  by any others, as long as the names it gave are still given and the keys are the same.\<close>

theorem ensure_compatible_ignores_values:
  assumes "ensure_compatible h inp rop = Inr ()"
    and "keys (inp_metadata inp') = keys (inp_metadata inp)"
    and "col_name ` set (non_keys (inp_metadata inp)) \<subseteq> col_name ` set (non_keys (inp_metadata inp'))"
  shows "ensure_compatible h inp' rop = Inr ()"
proof -
  have "satisfied_by_required_col (inp_metadata inp) col = Inr () \<Longrightarrow> satisfied_by_required_col (inp_metadata inp') col = Inr ()" for col
    using assms(2,3) by (auto simp: satisfied_by_required_col_def satisfied_by_name)
  then show ?thesis
    using assms(1,2) by (auto simp: ensure_compatible_def Let_def bind_res_eq_Inr each_col_ok split: if_splits)
qed

theorem ensure_compatible_ignores_values_witness:
  "ensure_compatible (sample_handle [sample_col 0 CBool] [sample_col 1 CString])
     \<lparr>inp_name = [114], inp_metadata = \<lparr>keys = [sample_col 0 CBool], non_keys = [sample_col 1 CFloat, sample_col 9 CInt]\<rparr>\<rparr> Put = Inr ()
   \<and> compatible_with_col (metadata (sample_handle [sample_col 0 CBool] [sample_col 1 CString])) (sample_col 1 CFloat) = Inl IncompatibleTyping
   \<and> compatible_with_col (metadata (sample_handle [sample_col 0 CBool] [sample_col 1 CString])) (sample_col 9 CInt) = Inl ColumnNotFound"
proof -
  let ?h = "sample_handle [sample_col 0 CBool] [sample_col 1 CString]"
  have "ensure_compatible ?h \<lparr>inp_name = [114], inp_metadata = \<lparr>keys = [sample_col 0 CBool], non_keys = [sample_col 1 CString]\<rparr>\<rparr> Put = Inr ()"
    by (simp add: sample_handle_def sample_col_def ensure_compatible_def compatible_with_col_def
        satisfied_by_required_col_def has_txtime_def)
  from ensure_compatible_ignores_values[OF this, of
      "\<lparr>inp_name = [114], inp_metadata = \<lparr>keys = [sample_col 0 CBool], non_keys = [sample_col 1 CFloat, sample_col 9 CInt]\<rparr>\<rparr>"]
  show ?thesis by (simp add: sample_handle_def sample_col_def compatible_with_col_def)
qed

text \<open>C27. An as-of prefix scan of a relation with a valid-time axis is the snapshot of the relation
  at that instant restricted to the prefix: the rows it lists are the visible versions of the
  whole relation whose key begins with the prefix, in the same order, from a store that may hold
  other relations as well.\<close>

theorem skip_scan_prefix_exact:
  assumes "ext_ok E" "rel_ok (rel_id h)" "list_all (version_ok E n) rows" "\<forall>r \<in> set rows. Bot \<notin> set (v_row r)"
    and "bt_inv m" "if is_temp h then sess_temp tx = m else sess_store tx = Reader m"
    and "holds_rows (rel_id h) m (encode_as_key (rel_id h) []) (encode_as_key (rel_id h + 1) []) rows"
    and "wf_tuple E pre" "length pre \<le> n" "length (keys (metadata h)) = Suc n" "length rows < fuel"
  shows "skip_scan_prefix fuel E from_slice h tx pre at =
    Some (Inr (map (row_tuple from_slice) (filter (\<lambda>r. take (length pre) (v_row r) = pre) (visible_rows at rows))))"
proof -
  let ?rid = "rel_id h" and ?P = "\<lambda>r. take (length pre) (v_row r) = pre"
  let ?lo = "encode_as_key ?rid pre" and ?hi = "encode_as_key ?rid (pre @ [Bot])"
  note pre = rows_of_prefix[OF assms(1-4,7,8,9)]
  have "mem_range_skip_scan_tuple fuel E from_slice (Reader m) ?lo ?hi at =
      Some (Inr (map (row_tuple from_slice) (visible_rows at (filter ?P rows))))"
    using skip_scan_versions[OF assms(1,2) _ assms(5) pre(1) prefix_bounds pre(2), of n] assms(3,11)
      le_less_trans[OF length_filter_le assms(11)]
    unfolding list_all_iff set_filter by (simp only: mem_range_skip_scan_tuple.simps) blast
  then show ?thesis
    using assms(6,9,10) visible_prefix
    by (simp add: skip_scan_prefix_def route_skip_scan_def temp_range_skip_scan_tuple_def split: if_splits)
qed

theorem skip_scan_prefix_exact_witness:
  "skip_scan_prefix 9 sample_ext (\<lambda>_. None) sample_keyed \<lparr>sess_store = Reader (store_of 1 sample_rows), sess_temp = []\<rparr> [Null] 25
   = Some (Inr [Inr [Null, Validity (vld 10 True)]])"
proof -
  have "skip_scan_prefix 9 sample_ext (\<lambda>_. None) sample_keyed \<lparr>sess_store = Reader (store_of 1 sample_rows), sess_temp = []\<rparr> [Null] 25
    = Some (Inr (map (row_tuple (\<lambda>_. None))
        (filter (\<lambda>r. take (length [Null]) (v_row r) = [Null]) (visible_rows 25 sample_rows))))"
    using sample_rows_inv sample_bounds
    by (intro skip_scan_prefix_exact[where n = 1 and m = "store_of 1 sample_rows"])
      (simp_all add: sample_handle_def rel_ok_def version_ok_def vld_def TERMINAL_VALIDITY_def)
  moreover have "visible_rows 25 sample_rows = [([Null], vld 10 True, [])]"
    by (simp add: visible_rows_def shadowed_def valid_by_def vld_def validity_cmp_def cmp_of_def)
  ultimately show ?thesis by (simp add: row_tuple_def try_extend_tuple_from_v_def)
qed

end
