(* ===== verification/Bitemporal.thy ===== *)
theory Bitemporal
  imports Relations
begin

text \<open>Two-level resolution of bitemporal relations (\<open>data/bitemporal.rs\<close>): the probe-driven walk
  \<open>BitemporalIter\<close>, its default probe over \<open>range_scan\<close> (\<open>storage/mod.rs\<close>), the pinned-cursor probe
  \<open>HybridProbe\<close> over the RocksDB cursor (\<open>storage/rocks.rs\<close>) and the relation-level scans.  The
  specification says which stored rows are the beliefs at a transaction time; the walk is proved
  to emit exactly these, with any probe that answers ascending bounds.\<close>

section \<open>Landings\<close>

definition VLD_LEN :: nat where [simp]: "VLD_LEN = 10"

definition AXES_LEN :: nat where [simp]: "AXES_LEN = 2 * VLD_LEN"

definition push_vld :: "bytes \<Rightarrow> i64 \<Rightarrow> bool \<Rightarrow> bytes" where
  "push_vld buf ts_raw asrt =
     buf @ [VLD_TAG] @ write_u64 (NOT (order_encode_i64 ts_raw)) @ [if asrt then 0 else 1]"

definition read_vld :: "bytes \<Rightarrow> (i64 \<times> bool) result" where
  "read_vld bs =
     (if length bs \<noteq> VLD_LEN \<or> hd bs \<noteq> VLD_TAG then Inl CorruptBitemporalKey
      else Inr (order_decode_i64 (NOT (read_u64 (take 8 (drop 1 bs)))), bs ! 9 = 0))"

definition TERMINAL :: "i64 \<times> bool" where
  "TERMINAL = (0x8000000000000000, False)"

record landing =
  raw_key :: bytes
  v_bytes :: bytes
  plain_len :: nat
  vt_raw :: i64
  vt_assert :: bool
  tt_raw :: i64

definition landing_parse :: "bytes \<Rightarrow> bytes \<Rightarrow> landing result" where
  "landing_parse key val =
     (let n = length key
      in if n < AXES_LEN then Inl CorruptBitemporalKey
         else bind_res (read_vld (take VLD_LEN (drop (n - AXES_LEN) key))) (\<lambda>(vt, vt_a).
              bind_res (read_vld (drop (n - VLD_LEN) key)) (\<lambda>(tt, tt_a).
                if tt = 0x8000000000000000 \<or> \<not> tt_a then Inl CorruptBitemporalKey
                else Inr \<lparr>raw_key = key, v_bytes = val, plain_len = n - AXES_LEN,
                          vt_raw = vt, vt_assert = vt_a, tt_raw = tt\<rparr>)))"

definition plain :: "landing \<Rightarrow> bytes" where
  "plain l = take (plain_len l) (raw_key l)"

definition into_row :: "ext \<Rightarrow> (bytes \<Rightarrow> tuple option) \<Rightarrow> landing \<Rightarrow> tuple result" where
  "into_row E from_slice l =
     bind_res (ok_or Panic (decode_tuple_from_key E (raw_key l)))
       (\<lambda>out. try_extend_tuple_from_v from_slice out (v_bytes l))"

section \<open>The walk\<close>

datatype phase =
    ProbeAssert "bytes option" "i64 option"
  | ProbeRetract bytes i64 "landing option"
  | Done

record 'p bitemporal_iter =
  probe_state :: 'p
  vt_at_raw :: "i64 option"
  tt_at_raw :: i64
  bound :: bytes
  bound_is_far :: bool
  phase_of :: phase
  pending :: "landing option"

type_synonym 'p probe_fn = "'p \<Rightarrow> bytes \<Rightarrow> bool \<Rightarrow> ('p \<times> (bytes \<times> bytes) option) result"

definition bit_new :: "'p \<Rightarrow> bytes \<Rightarrow> i64 option \<Rightarrow> i64 \<Rightarrow> 'p bitemporal_iter" where
  "bit_new p lower vt_at tt_at =
     \<lparr>probe_state = p, vt_at_raw = vt_at, tt_at_raw = tt_at, bound = lower, bound_is_far = True,
      phase_of = ProbeAssert None None, pending = None\<rparr>"

definition set_bound :: "bytes \<Rightarrow> i64 \<times> bool \<Rightarrow> i64 \<times> bool \<Rightarrow> 'p bitemporal_iter \<Rightarrow> 'p bitemporal_iter" where
  "set_bound pl vt tt it =
     it\<lparr>bound := push_vld (push_vld pl (fst vt) (snd vt)) (fst tt) (snd tt), bound_is_far := False\<rparr>"

definition advance :: "bytes \<Rightarrow> i64 \<Rightarrow> 'p bitemporal_iter \<Rightarrow> 'p bitemporal_iter" where
  "advance pl grp it =
     (case vt_at_raw it of
        Some _ \<Rightarrow> (set_bound pl TERMINAL TERMINAL it)\<lparr>bound_is_far := True, phase_of := ProbeAssert None None\<rparr>
      | None \<Rightarrow> (set_bound pl (grp, False) TERMINAL it)
                  \<lparr>bound_is_far := True, phase_of := ProbeAssert (Some pl) None\<rparr>)"

definition aim_assert :: "bytes \<Rightarrow> i64 \<Rightarrow> 'p bitemporal_iter \<Rightarrow> 'p bitemporal_iter" where
  "aim_assert pl grp it =
     (set_bound pl (grp, True) (tt_at_raw it, True) it)\<lparr>phase_of := ProbeAssert (Some pl) (Some grp)\<rparr>"

definition aim_retract :: "bytes \<Rightarrow> i64 \<Rightarrow> landing option \<Rightarrow> 'p bitemporal_iter \<Rightarrow> 'p bitemporal_iter" where
  "aim_retract pl grp cand it =
     (set_bound pl (grp, False) (tt_at_raw it, True) it)\<lparr>phase_of := ProbeRetract pl grp cand\<rparr>"

definition classify_fresh :: "landing \<Rightarrow> bool \<Rightarrow> 'p bitemporal_iter \<Rightarrow> 'p bitemporal_iter" where
  "classify_fresh l same_key_walk it =
     (let grp = (case vt_at_raw it of
                     Some v_raw \<Rightarrow> if \<not> same_key_walk \<and> sint v_raw < sint (vt_raw l) then v_raw else vt_raw l
                   | None \<Rightarrow> vt_raw l)
      in aim_assert (plain l) grp it)"

text \<open>One turn of the loop either goes on or returns from \<open>next_inner\<close>.\<close>

datatype 'p turn =
    Continue "'p bitemporal_iter"
  | Return "tuple option result" "'p bitemporal_iter"

definition take_landing :: "'p probe_fn \<Rightarrow> 'p bitemporal_iter \<Rightarrow> ('p bitemporal_iter \<times> landing option) result" where
  "take_landing probe it =
     (let it1 = it\<lparr>pending := None\<rparr>;
          ask = bind_res (probe (probe_state it) (bound it) (bound_is_far it)) (\<lambda>(p, kv).
                  case kv of
                    None \<Rightarrow> Inr (it1\<lparr>probe_state := p\<rparr>, None)
                  | Some (k, v) \<Rightarrow> map_res (\<lambda>l. (it1\<lparr>probe_state := p\<rparr>, Some l)) (landing_parse k v))
      in case pending it of
           Some l \<Rightarrow> if bytes_le (bound it) (raw_key l) then Inr (it1, Some l) else ask
         | None \<Rightarrow> ask)"

definition emit :: "ext \<Rightarrow> (bytes \<Rightarrow> tuple option) \<Rightarrow> landing \<Rightarrow> 'p bitemporal_iter \<Rightarrow> 'p turn" where
  "emit E from_slice l it = Return (map_res Some (into_row E from_slice l)) it"

definition on_probe_assert ::
  "ext \<Rightarrow> (bytes \<Rightarrow> tuple option) \<Rightarrow> bytes option \<Rightarrow> i64 option \<Rightarrow> landing \<Rightarrow> 'p bitemporal_iter \<Rightarrow> 'p turn" where
  "on_probe_assert E from_slice key grp l it =
     (if key = Some (plain l) then
        (case grp of
           Some g \<Rightarrow>
             if vt_raw l = g \<and> vt_assert l then Continue (aim_retract (plain l) g (Some l) it)
             else if vt_raw l = g then
               (if sint (tt_raw l) \<le> sint (tt_at_raw it) then
                  (if vt_at_raw it = None then emit E from_slice l (advance (plain l) g it)
                   else Continue (advance (plain l) g it))
                else Continue (aim_retract (plain l) g None it))
             else Continue ((aim_retract (plain l) g None it)\<lparr>pending := Some l\<rparr>)
         | None \<Rightarrow> Continue ((classify_fresh l True it)\<lparr>pending := Some l\<rparr>))
      else Continue ((classify_fresh l False it)\<lparr>pending := Some l\<rparr>))"

definition on_probe_retract ::
  "ext \<Rightarrow> (bytes \<Rightarrow> tuple option) \<Rightarrow> bytes \<Rightarrow> i64 \<Rightarrow> landing option \<Rightarrow> landing \<Rightarrow> 'p bitemporal_iter \<Rightarrow> 'p turn" where
  "on_probe_retract E from_slice key grp cand l it =
     (let in_run = (plain l = key \<and> vt_raw l = grp \<and> \<not> vt_assert l \<and> sint (tt_raw l) \<le> sint (tt_at_raw it))
      in if in_run then
           (case cand of
              Some c \<Rightarrow>
                if sint (tt_raw l) \<le> sint (tt_raw c) then emit E from_slice c (advance key grp it)
                else if vt_at_raw it = None then emit E from_slice l (advance key grp it)
                else Continue (advance key grp it)
            | None \<Rightarrow>
                if vt_at_raw it = None then emit E from_slice l (advance key grp it)
                else Continue (advance key grp it))
         else
           (case cand of
              Some c \<Rightarrow> emit E from_slice c ((advance key grp it)\<lparr>pending := Some l\<rparr>)
            | None \<Rightarrow> Continue ((classify_fresh l (plain l = key) it)\<lparr>pending := Some l\<rparr>)))"

definition bit_step :: "ext \<Rightarrow> (bytes \<Rightarrow> tuple option) \<Rightarrow> 'p probe_fn \<Rightarrow> 'p bitemporal_iter \<Rightarrow> 'p turn" where
  "bit_step E from_slice probe it =
     (case take_landing probe it of
        Inl e \<Rightarrow> Return (Inl e) it
      | Inr (it1, None) \<Rightarrow>
          (case phase_of it of
             ProbeRetract _ _ (Some c) \<Rightarrow> emit E from_slice c (it1\<lparr>phase_of := Done\<rparr>)
           | _ \<Rightarrow> Return (Inr None) (it1\<lparr>phase_of := Done\<rparr>))
      | Inr (it1, Some l) \<Rightarrow>
          (case phase_of it of
             ProbeAssert key grp \<Rightarrow> on_probe_assert E from_slice key grp l it1
           | ProbeRetract key grp cand \<Rightarrow> on_probe_retract E from_slice key grp cand l it1
           | Done \<Rightarrow> Return (Inl Panic) it1))"

text \<open>\<open>Iterator::next\<close>: the loop, and the stop after an error.  \<open>None\<close> is running out of fuel.\<close>

fun bit_next ::
  "nat \<Rightarrow> ext \<Rightarrow> (bytes \<Rightarrow> tuple option) \<Rightarrow> 'p probe_fn \<Rightarrow> 'p bitemporal_iter
     \<Rightarrow> (tuple result option \<times> 'p bitemporal_iter) option" where
  "bit_next 0 E from_slice probe it = None"
| "bit_next (Suc n) E from_slice probe it =
     (if phase_of it = Done then Some (None, it)
      else case bit_step E from_slice probe it of
             Continue it' \<Rightarrow> bit_next n E from_slice probe it'
           | Return (Inr None) it' \<Rightarrow> Some (None, it')
           | Return (Inr (Some t)) it' \<Rightarrow> Some (Some (Inr t), it')
           | Return (Inl e) it' \<Rightarrow> Some (Some (Inl e), it'\<lparr>phase_of := Done\<rparr>))"

fun bit_collect ::
  "nat \<Rightarrow> nat \<Rightarrow> ext \<Rightarrow> (bytes \<Rightarrow> tuple option) \<Rightarrow> 'p probe_fn \<Rightarrow> 'p bitemporal_iter \<Rightarrow> tuple result list option" where
  "bit_collect 0 fuel E from_slice probe it = None"
| "bit_collect (Suc n) fuel E from_slice probe it =
     (case bit_next fuel E from_slice probe it of
        None \<Rightarrow> None
      | Some (None, it') \<Rightarrow> Some []
      | Some (Some r, it') \<Rightarrow> map_option ((#) r) (bit_collect n fuel E from_slice probe it'))"

section \<open>Probes\<close>

text \<open>The default of the \<open>StoreTx\<close> trait: a fresh range per probe.\<close>

definition scan_probe :: "(bytes \<Rightarrow> bytes \<Rightarrow> (bytes \<times> bytes) list option) \<Rightarrow> bytes \<Rightarrow> unit probe_fn" where
  "scan_probe range_scan upper p b far =
     (if bytes_le upper b then Inr ((), None)
      else case range_scan b upper of
             None \<Rightarrow> Inl Panic
           | Some [] \<Rightarrow> Inr ((), None)
           | Some (kv # _) \<Rightarrow> Inr ((), Some kv))"

definition range_bitemporal_scan_tuple ::
  "nat \<Rightarrow> ext \<Rightarrow> (bytes \<Rightarrow> tuple option) \<Rightarrow> (bytes \<Rightarrow> bytes \<Rightarrow> (bytes \<times> bytes) list option)
     \<Rightarrow> bytes \<Rightarrow> bytes \<Rightarrow> i64 option \<Rightarrow> i64 \<Rightarrow> tuple result list option" where
  "range_bitemporal_scan_tuple fuel E from_slice range_scan lower upper vt_at tt_at =
     bit_collect fuel fuel E from_slice (scan_probe range_scan upper) (bit_new () lower vt_at tt_at)"

definition bitemporal_scan_all ::
  "nat \<Rightarrow> ext \<Rightarrow> (bytes \<Rightarrow> tuple option) \<Rightarrow> relation_handle \<Rightarrow> session_tx \<Rightarrow> i64 option \<Rightarrow> i64 \<Rightarrow> tuple result list option" where
  "bitemporal_scan_all fuel E from_slice h tx vt_at tt_at =
     (case relation_id_next (rel_id h) of
        None \<Rightarrow> Some [Inl Panic]
      | Some nxt \<Rightarrow> range_bitemporal_scan_tuple fuel E from_slice (mem_range_scan (sess_store tx))
          (encode_as_key (rel_id h) []) (encode_as_key nxt []) vt_at tt_at)"

definition bitemporal_scan_prefix ::
  "nat \<Rightarrow> ext \<Rightarrow> (bytes \<Rightarrow> tuple option) \<Rightarrow> relation_handle \<Rightarrow> session_tx \<Rightarrow> tuple \<Rightarrow> i64 option \<Rightarrow> i64
     \<Rightarrow> tuple result list option" where
  "bitemporal_scan_prefix fuel E from_slice h tx pre vt_at tt_at =
     (let lower = take (length (keys (metadata h))) pre; upper = lower @ [Bot]
      in range_bitemporal_scan_tuple fuel E from_slice (mem_range_scan (sess_store tx))
           (encode_as_key (rel_id h) lower) (encode_as_key (rel_id h) upper) vt_at tt_at)"

text \<open>The pinned cursor of RocksDB, over its iterator's \<open>seek\<close>, \<open>next\<close> and \<open>pair\<close>.\<close>

record 'it db_ops =
  db_seek :: "'it \<Rightarrow> bytes \<Rightarrow> 'it"
  db_next :: "'it \<Rightarrow> 'it"
  db_pair :: "'it \<Rightarrow> (bytes \<times> bytes) option result"

record 'it rocks_cursor =
  inner :: 'it
  upper_bound :: bytes

definition cursor_current :: "'it db_ops \<Rightarrow> 'it rocks_cursor \<Rightarrow> (bytes \<times> bytes) option result" where
  "cursor_current db c =
     map_res (\<lambda>kv. case kv of None \<Rightarrow> None | Some (k, v) \<Rightarrow> if bytes_le (upper_bound c) k then None else Some (k, v))
       (db_pair db (inner c))"

definition cursor_seek :: "'it db_ops \<Rightarrow> 'it rocks_cursor \<Rightarrow> bytes \<Rightarrow> 'it rocks_cursor \<times> (bytes \<times> bytes) option result" where
  "cursor_seek db c b =
     (if bytes_le (upper_bound c) b then (c, Inr None)
      else let c' = c\<lparr>inner := db_seek db (inner c) b\<rparr> in (c', cursor_current db c'))"

definition cursor_step :: "'it db_ops \<Rightarrow> 'it rocks_cursor \<Rightarrow> 'it rocks_cursor \<times> (bytes \<times> bytes) option result" where
  "cursor_step db c = (let c' = c\<lparr>inner := db_next db (inner c)\<rparr> in (c', cursor_current db c'))"

record 'it hybrid_probe =
  cursor :: "'it rocks_cursor"
  last_row :: "(bytes \<times> bytes) option"
  primed :: bool

definition hybrid_new :: "'it rocks_cursor \<Rightarrow> 'it hybrid_probe" where
  "hybrid_new c = \<lparr>cursor = c, last_row = None, primed = False\<rparr>"

definition hybrid_seek :: "'it db_ops \<Rightarrow> 'it hybrid_probe \<Rightarrow> bytes \<Rightarrow> ('it hybrid_probe \<times> (bytes \<times> bytes) option) result" where
  "hybrid_seek db h b =
     (case cursor_seek db (cursor h) b of
        (c, r) \<Rightarrow> map_res (\<lambda>kv. (h\<lparr>cursor := c, primed := True, last_row := kv\<rparr>, kv)) r)"

definition hybrid_probe_at :: "'it db_ops \<Rightarrow> 'it hybrid_probe probe_fn" where
  "hybrid_probe_at db h b far =
     (case (if primed h \<and> \<not> far then last_row h else None) of
        None \<Rightarrow> hybrid_seek db h b
      | Some (lk, lv) \<Rightarrow>
          if bytes_le b lk then Inr (h, Some (lk, lv))
          else case cursor_step db (cursor h) of
            (c, r) \<Rightarrow> bind_res r (\<lambda>kv. case kv of
                None \<Rightarrow> Inr (h\<lparr>cursor := c, last_row := None\<rparr>, None)
              | Some (k, v) \<Rightarrow>
                  if bytes_le b k then Inr (h\<lparr>cursor := c, last_row := Some (k, v)\<rparr>, Some (k, v))
                  else hybrid_seek db (h\<lparr>cursor := c\<rparr>) b))"

definition rocks_bitemporal_scan_tuple ::
  "nat \<Rightarrow> ext \<Rightarrow> (bytes \<Rightarrow> tuple option) \<Rightarrow> 'it db_ops \<Rightarrow> 'it \<Rightarrow> bytes \<Rightarrow> bytes \<Rightarrow> i64 option \<Rightarrow> i64
     \<Rightarrow> tuple result list option" where
  "rocks_bitemporal_scan_tuple fuel E from_slice db it lower upper vt_at tt_at =
     bit_collect fuel fuel E from_slice (hybrid_probe_at db)
       (bit_new (hybrid_new \<lparr>inner = it, upper_bound = upper\<rparr>) lower vt_at tt_at)"

section \<open>The specification\<close>

text \<open>A stored row of a bitemporal relation: the key columns before the axes, valid time with its
  flag, transaction time, value blob.\<close>

record belief_row =
  b_key :: tuple
  b_vt :: validity
  b_tt :: i64
  b_val :: bytes

abbreviation vts :: "belief_row \<Rightarrow> int" where
  "vts r \<equiv> sint (timestamp (b_vt r))"

abbreviation tts :: "belief_row \<Rightarrow> int" where
  "tts r \<equiv> sint (b_tt r)"

abbreviation asrt :: "belief_row \<Rightarrow> bool" where
  "asrt r \<equiv> is_assert (b_vt r)"

text \<open>A record is overridden by a later one about the same key and valid time; of two recorded
  together the assertion wins.  A belief at a transaction time is a record of that time or
  earlier which none of these overrides.\<close>

definition overrides :: "belief_row \<Rightarrow> belief_row \<Rightarrow> bool" where
  "overrides s r \<longleftrightarrow> b_key s = b_key r \<and> vts s = vts r \<and> (tts r < tts s \<or> tts s = tts r \<and> asrt s \<and> \<not> asrt r)"

definition believed :: "i64 \<Rightarrow> belief_row list \<Rightarrow> belief_row \<Rightarrow> bool" where
  "believed tt rows r \<longleftrightarrow> tts r \<le> sint tt \<and> \<not> list_ex (\<lambda>s. tts s \<le> sint tt \<and> overrides s r) rows"

text \<open>Without a valid time every belief is listed, retractions included.  At a valid time the belief
  about the latest valid time not after it decides the key, and is listed if an assertion.\<close>

definition resolved :: "i64 option \<Rightarrow> i64 \<Rightarrow> belief_row list \<Rightarrow> belief_row \<Rightarrow> bool" where
  "resolved vt tt rows r \<longleftrightarrow> believed tt rows r \<and>
     (case vt of
        None \<Rightarrow> True
      | Some v \<Rightarrow> asrt r \<and> vts r \<le> sint v \<and>
          \<not> list_ex (\<lambda>s. b_key s = b_key r \<and> vts r < vts s \<and> vts s \<le> sint v \<and> tts s \<le> sint tt) rows)"

definition bpos :: "u64 \<Rightarrow> tuple \<Rightarrow> validity \<Rightarrow> validity \<Rightarrow> bytes" where
  "bpos rid k v t = encode_as_key rid (k @ [Validity v, Validity t])"

definition vld_at :: "i64 \<Rightarrow> bool \<Rightarrow> validity" where
  "vld_at ts a = \<lparr>timestamp = ts, is_assert = a\<rparr>"

definition bkey :: "u64 \<Rightarrow> belief_row \<Rightarrow> bytes" where
  "bkey rid r = bpos rid (b_key r) (b_vt r) (vld_at (b_tt r) True)"

definition brow_ok :: "ext \<Rightarrow> nat \<Rightarrow> belief_row \<Rightarrow> bool" where
  "brow_ok E n r \<longleftrightarrow> wf_tuple E (b_key r) \<and> length (b_key r) = n \<and> b_tt r \<noteq> 0x8000000000000000"

definition brow_tuple :: "(bytes \<Rightarrow> tuple option) \<Rightarrow> belief_row \<Rightarrow> tuple result" where
  "brow_tuple from_slice r =
     try_extend_tuple_from_v from_slice (b_key r @ [Validity (b_vt r), Validity (vld_at (b_tt r) True)]) (b_val r)"

text \<open>The iterator ends with the first error.\<close>

fun until_err :: "'a result list \<Rightarrow> 'a result list" where
  "until_err [] = []"
| "until_err (Inr x # xs) = Inr x # until_err xs"
| "until_err (Inl e # xs) = [Inl e]"

section \<open>Keys with two axes\<close>

lemma sint_inj: "sint (a :: 'a::len word) = sint b \<longleftrightarrow> a = b"
  using signed_word_eqI by auto

lemma vld_at_simps [simp]: "timestamp (vld_at ts a) = ts" "is_assert (vld_at ts a) = a"
  by (simp_all add: vld_at_def)

lemma validity_eq_vld_at: "v = vld_at (timestamp v) (is_assert v)"
  by (simp add: vld_at_def)

definition newer :: "validity \<Rightarrow> validity \<Rightarrow> bool" where
  "newer v w \<longleftrightarrow> sint (timestamp w) < sint (timestamp v) \<or> timestamp v = timestamp w \<and> is_assert v \<and> \<not> is_assert w"

lemma bpos_same:
  "bytes_le (bpos rid k v t) (bpos rid k w u) \<longleftrightarrow> newer v w \<or> v = w \<and> (t = u \<or> newer t u)"
proof -
  have e: "bpos rid k v t = encode_as_key rid k @ VLD_TAG # encode_validity v @ VLD_TAG # encode_validity t" for v t
    by (simp add: bpos_def encode_as_key_append encode_validity_def)
  have "bytes_cmp (bpos rid k v t) (bpos rid k w u) = then_with (validity_cmp v w) (validity_cmp t u)"
    using validity_enc.enc_order[of t u] unfolding e by (simp add: validity_enc.enc_cmp)
  then show ?thesis
    by (cases v; cases w; cases t; cases u)
      (auto simp: bytes_le_def newer_def validity_cmp_def then_with_eq_Less cmp_of_def sint_inj split: if_splits)
qed

lemma bpos_other:
  assumes "ext_ok E" "wf_tuple E k" "wf_tuple E k'" "length k = length k'" "k \<noteq> k'"
  shows "bytes_le (bpos rid k v t) (bpos rid k' w u) \<longleftrightarrow> bytes_le (encode_as_key rid k) (encode_as_key rid k')"
proof -
  obtain c where "\<forall>r s. bytes_cmp (encode_as_key rid k @ r) (encode_as_key rid k' @ s) = c"
    using key_other_prefix[OF assms] by blast
  then have "bytes_cmp (bpos rid k v t) (bpos rid k' w u) = c" "bytes_cmp (encode_as_key rid k) (encode_as_key rid k') = c"
    unfolding bpos_def encode_as_key_append by (blast, metis append_Nil2)
  then show ?thesis by (simp add: bytes_le_def)
qed

section \<open>The walk over rows\<close>

text \<open>What the walk does, on rows instead of bytes.  A spot is a bound with the phase that goes
  with it; \<open>reach\<close> says which rows are at or after it.\<close>

record walk =
  w_rid :: u64
  w_low :: bytes
  w_vt :: "i64 option"
  w_tt :: i64
  w_rows :: "belief_row list"

datatype spot =
    Start
  | PastGroup tuple i64
  | PastKey tuple
  | Assert tuple i64
  | Retract tuple i64 "belief_row option"

definition ahead :: "walk \<Rightarrow> tuple \<Rightarrow> tuple \<Rightarrow> bool" where
  "ahead W k k' \<longleftrightarrow> bytes_le (encode_as_key (w_rid W) k) (encode_as_key (w_rid W) k')"

fun reach :: "walk \<Rightarrow> spot \<Rightarrow> belief_row \<Rightarrow> bool" where
  "reach W Start r \<longleftrightarrow> True"
| "reach W (PastGroup k g) r \<longleftrightarrow> (if b_key r = k then vts r < sint g else ahead W k (b_key r))"
| "reach W (PastKey k) r \<longleftrightarrow> b_key r \<noteq> k \<and> ahead W k (b_key r)"
| "reach W (Assert k g) r \<longleftrightarrow>
     (if b_key r = k then vts r < sint g \<or> vts r = sint g \<and> (asrt r \<longrightarrow> tts r \<le> sint (w_tt W))
      else ahead W k (b_key r))"
| "reach W (Retract k g c) r \<longleftrightarrow>
     (if b_key r = k then vts r < sint g \<or> vts r = sint g \<and> \<not> asrt r \<and> tts r \<le> sint (w_tt W)
      else ahead W k (b_key r))"

fun spot_bytes :: "walk \<Rightarrow> spot \<Rightarrow> bytes" where
  "spot_bytes W Start = w_low W"
| "spot_bytes W (PastGroup k g) = bpos (w_rid W) k (vld_at g False) TERMINAL_VALIDITY"
| "spot_bytes W (PastKey k) = bpos (w_rid W) k TERMINAL_VALIDITY TERMINAL_VALIDITY"
| "spot_bytes W (Assert k g) = bpos (w_rid W) k (vld_at g True) (vld_at (w_tt W) True)"
| "spot_bytes W (Retract k g c) = bpos (w_rid W) k (vld_at g False) (vld_at (w_tt W) True)"

definition walk_ok :: "ext \<Rightarrow> nat \<Rightarrow> walk \<Rightarrow> bool" where
  "walk_ok E n W \<longleftrightarrow> ext_ok E \<and> list_all (brow_ok E n) (w_rows W)
     \<and> sorted_wrt (\<lambda>r s. bytes_less (bkey (w_rid W) r) (bkey (w_rid W) s)) (w_rows W)
     \<and> list_all (\<lambda>r. bytes_le (w_low W) (encode_as_key (w_rid W) (b_key r))) (w_rows W)"

definition key_ok :: "ext \<Rightarrow> nat \<Rightarrow> tuple \<Rightarrow> bool" where
  "key_ok E n k \<longleftrightarrow> wf_tuple E k \<and> length k = n"

text \<open>Nothing newer than the group has decided the key.\<close>

definition undecided :: "walk \<Rightarrow> tuple \<Rightarrow> i64 \<Rightarrow> bool" where
  "undecided W k g \<longleftrightarrow>
     (case w_vt W of
        None \<Rightarrow> True
      | Some v \<Rightarrow> sint g \<le> sint v \<and>
          (\<forall>s \<in> set (w_rows W). b_key s = k \<and> sint g < vts s \<and> vts s \<le> sint v \<longrightarrow> sint (w_tt W) < tts s))"

definition in_group :: "tuple \<Rightarrow> i64 \<Rightarrow> belief_row \<Rightarrow> bool" where
  "in_group k g r \<longleftrightarrow> b_key r = k \<and> vts r = sint g"

fun spot_ok :: "ext \<Rightarrow> nat \<Rightarrow> walk \<Rightarrow> spot \<Rightarrow> bool" where
  "spot_ok E n W Start \<longleftrightarrow> True"
| "spot_ok E n W (PastGroup k g) \<longleftrightarrow> key_ok E n k \<and> w_vt W = None"
| "spot_ok E n W (PastKey k) \<longleftrightarrow> key_ok E n k \<and> w_vt W \<noteq> None"
| "spot_ok E n W (Assert k g) \<longleftrightarrow> key_ok E n k \<and> undecided W k g"
| "spot_ok E n W (Retract k g None) \<longleftrightarrow> key_ok E n k \<and> undecided W k g
     \<and> (\<forall>s \<in> set (w_rows W). in_group k g s \<and> asrt s \<longrightarrow> sint (w_tt W) < tts s)"
| "spot_ok E n W (Retract k g (Some c)) \<longleftrightarrow> key_ok E n k \<and> undecided W k g
     \<and> c \<in> set (w_rows W) \<and> in_group k g c \<and> asrt c \<and> tts c \<le> sint (w_tt W)
     \<and> (\<forall>s \<in> set (w_rows W). in_group k g s \<and> asrt s \<and> tts s \<le> sint (w_tt W) \<longrightarrow> tts s \<le> tts c)"

definition past :: "walk \<Rightarrow> tuple \<Rightarrow> i64 \<Rightarrow> spot" where
  "past W k g = (if w_vt W = None then PastGroup k g else PastKey k)"

definition fresh :: "walk \<Rightarrow> belief_row \<Rightarrow> bool \<Rightarrow> spot" where
  "fresh W l same = Assert (b_key l)
     (case w_vt W of
        None \<Rightarrow> timestamp (b_vt l)
      | Some v \<Rightarrow> if \<not> same \<and> sint v < vts l then v else timestamp (b_vt l))"

definition only_groups :: "walk \<Rightarrow> belief_row \<Rightarrow> belief_row option" where
  "only_groups W l = (if w_vt W = None then Some l else None)"

fun move :: "walk \<Rightarrow> spot \<Rightarrow> belief_row \<Rightarrow> spot \<times> belief_row option" where
  "move W (Assert k g) l =
     (if b_key l = k then
        if vts l = sint g \<and> asrt l then (Retract k g (Some l), None)
        else if vts l = sint g \<and> tts l \<le> sint (w_tt W) then (past W k g, only_groups W l)
        else (Retract k g None, None)
      else (fresh W l False, None))"
| "move W (Retract k g c) l =
     (if in_group k g l \<and> \<not> asrt l \<and> tts l \<le> sint (w_tt W)
      then (past W k g, case c of Some r \<Rightarrow> if tts l \<le> tts r then Some r else only_groups W l | None \<Rightarrow> only_groups W l)
      else case c of Some r \<Rightarrow> (past W k g, Some r) | None \<Rightarrow> (fresh W l (b_key l = k), None))"
| "move W (PastGroup k g) l = (fresh W l (b_key l = k), None)"
| "move W (PastKey k) l = (fresh W l False, None)"
| "move W Start l = (fresh W l False, None)"

fun cand_of :: "spot \<Rightarrow> belief_row option" where
  "cand_of (Retract k g c) = c"
| "cand_of a = None"

definition live :: "walk \<Rightarrow> spot \<Rightarrow> belief_row \<Rightarrow> bool" where
  "live W a r \<longleftrightarrow> reach W a r \<or> cand_of a = Some r"

abbreviation wanted :: "walk \<Rightarrow> belief_row \<Rightarrow> bool" where
  "wanted W r \<equiv> resolved (w_vt W) (w_tt W) (w_rows W) r"

subsection \<open>Order of rows and spots\<close>

lemma row_key_ok: "walk_ok E n W \<Longrightarrow> r \<in> set (w_rows W) \<Longrightarrow> key_ok E n (b_key r)"
  by (auto simp: walk_ok_def list_all_iff brow_ok_def key_ok_def)

lemma ahead_trans: "ahead W a b \<Longrightarrow> ahead W b c \<Longrightarrow> ahead W a c"
  unfolding ahead_def by (rule bytes_le_trans)

lemma ahead_total: "ahead W a b \<or> ahead W b a"
  unfolding ahead_def using bytes_not_le bytes_less_imp_le by blast

lemma ahead_antisym:
  assumes "ext_ok E" "key_ok E n a" "key_ok E n b" "ahead W a b" "ahead W b a"
  shows "a = b"
proof (rule ccontr)
  assume "a \<noteq> b"
  then obtain c where c: "c \<in> {Less, Greater}" "\<forall>r s. bytes_cmp (encode_as_key (w_rid W) a @ r) (encode_as_key (w_rid W) b @ s) = c"
    using key_other_prefix assms by (metis key_ok_def)
  then have "bytes_cmp (encode_as_key (w_rid W) a) (encode_as_key (w_rid W) b) = c" by (metis append_Nil2)
  then show False
    using c(1) assms(4,5) bytes_order.cmp_Less_iff_Greater unfolding ahead_def bytes_le_def by (metis insertE singletonD)
qed

lemma terminal_not_newer [simp]: "\<not> newer TERMINAL_VALIDITY v" "timestamp TERMINAL_VALIDITY = 0x8000000000000000" "\<not> is_assert TERMINAL_VALIDITY"
proof -
  have m: "sint (0x8000000000000000 :: i64) = - (2 ^ 63)" by simp
  have "\<not> sint (timestamp v) < sint (0x8000000000000000 :: i64)"
    unfolding m using sint_i64_bounds[of "timestamp v"] by simp
  then show "\<not> newer TERMINAL_VALIDITY v" by (simp add: newer_def TERMINAL_VALIDITY_def)
qed (simp_all add: TERMINAL_VALIDITY_def)

lemma reach_bytes:
  assumes "walk_ok E n W" "spot_ok E n W a" "r \<in> set (w_rows W)"
  shows "bytes_le (spot_bytes W a) (bkey (w_rid W) r) \<longleftrightarrow> reach W a r"
proof -
  note k = row_key_ok[OF assms(1,3)]
  have E: "ext_ok E" using assms(1) by (simp add: walk_ok_def)
  have other: "bytes_le (bpos (w_rid W) k v t) (bkey (w_rid W) r) \<longleftrightarrow> ahead W k (b_key r)"
    if "key_ok E n k" "k \<noteq> b_key r" for k v t
    using that k bpos_other[OF E] by (simp add: key_ok_def bkey_def ahead_def)
  have low: "bytes_le (w_low W) (bkey (w_rid W) r)"
    using assms(1,3) bytes_le_append bytes_le_trans
    unfolding walk_ok_def list_all_iff bkey_def bpos_def encode_as_key_append by blast
  have same: "bytes_le (bpos (w_rid W) (b_key r) v t) (bkey (w_rid W) r) \<longleftrightarrow>
      newer v (b_vt r) \<or> v = b_vt r \<and> (t = vld_at (b_tt r) True \<or> newer t (vld_at (b_tt r) True))" for v t
    by (simp add: bkey_def bpos_same)
  have vt: "vld_at g x = b_vt r \<longleftrightarrow> vts r = sint g \<and> asrt r = x" for g x
    by (cases "b_vt r") (auto simp: vld_at_def sint_inj)
  have at: "vld_at t True = vld_at t' True \<longleftrightarrow> sint t = sint t'" "TERMINAL_VALIDITY \<noteq> vld_at t True" for t t'
    by (auto simp: vld_at_def sint_inj TERMINAL_VALIDITY_def)
  have n: "newer (vld_at g x) v \<longleftrightarrow> sint (timestamp v) < sint g \<or> sint (timestamp v) = sint g \<and> x \<and> \<not> is_assert v" for g x v
    by (auto simp: newer_def sint_inj)
  show ?thesis
  proof (cases a)
    case (Retract k g c)
    then have "key_ok E n k" using assms(2) by (cases c) simp_all
    then show ?thesis using Retract other by (cases "k = b_key r") (auto simp: same vt at n)
  next
    case (Assert k g)
    then show ?thesis using assms(2) other by (cases "k = b_key r") (auto simp: same vt at n)
  next
    case (PastGroup k g)
    then show ?thesis using assms(2) other by (cases "k = b_key r") (auto simp: same vt at n)
  next
    case (PastKey k)
    then show ?thesis using assms(2) other by (cases "k = b_key r") (auto simp: same at)
  qed (use low in simp)
qed

lemma validity_eq_iff: "(v :: validity) = w \<longleftrightarrow> sint (timestamp v) = sint (timestamp w) \<and> is_assert v = is_assert w"
  by (cases v; cases w) (simp add: sint_inj)

definition before :: "walk \<Rightarrow> belief_row \<Rightarrow> belief_row \<Rightarrow> bool" where
  "before W l s \<longleftrightarrow>
     (if b_key s = b_key l
      then vts s < vts l \<or> vts s = vts l \<and> (asrt l \<and> \<not> asrt s \<or> asrt l = asrt s \<and> tts s \<le> tts l)
      else ahead W (b_key l) (b_key s))"

lemma before_bytes:
  assumes "walk_ok E n W" "l \<in> set (w_rows W)" "s \<in> set (w_rows W)"
  shows "bytes_le (bkey (w_rid W) l) (bkey (w_rid W) s) \<longleftrightarrow> before W l s"
proof (cases "b_key s = b_key l")
  case True
  have "bytes_le (bkey (w_rid W) l) (bkey (w_rid W) s) \<longleftrightarrow>
      newer (b_vt l) (b_vt s) \<or> b_vt l = b_vt s \<and> tts s \<le> tts l"
    using True by (auto simp: bkey_def bpos_same newer_def[of "\<lparr>timestamp = b_tt l, is_assert = True\<rparr>"] vld_at_def le_less sint_inj)
  also have "\<dots> \<longleftrightarrow> before W l s"
    unfolding before_def newer_def validity_eq_iff sint_inj[symmetric, of "timestamp (b_vt l)"] using True
    by (cases "asrt l"; cases "asrt s") auto
  finally show ?thesis .
next
  case False
  then show ?thesis
    using bpos_other row_key_ok[OF assms(1,2)] row_key_ok[OF assms(1,3)] assms(1)
    by (auto simp: before_def bkey_def key_ok_def ahead_def walk_ok_def)
qed

lemma find_Some_split: "find P xs = Some l \<Longrightarrow> \<exists>ys zs. xs = ys @ l # zs \<and> P l \<and> (\<forall>y \<in> set ys. \<not> P y)"
proof (induction xs)
  case (Cons x xs)
  show ?case
  proof (cases "P x")
    case True
    then show ?thesis using Cons.prems by (intro exI[of _ "[]"] exI[of _ xs]) simp
  next
    case False
    then obtain ys zs where "xs = ys @ l # zs" "P l" "\<forall>y \<in> set ys. \<not> P y" using Cons by auto
    then show ?thesis using False by (intro exI[of _ "x # ys"] exI[of _ zs]) simp
  qed
qed simp

lemma find_skip: "\<forall>y \<in> set ys. \<not> P y \<Longrightarrow> find P (ys @ zs) = find P zs"
  by (induction ys) auto

lemma find_Some_first:
  assumes "find P xs = Some l"
  shows "l \<in> set xs" "P l" "sorted_wrt R xs \<Longrightarrow> s \<in> set xs \<Longrightarrow> P s \<Longrightarrow> s = l \<or> R l s"
    "(\<And>s. s \<in> set xs \<Longrightarrow> Q s \<Longrightarrow> P s) \<Longrightarrow> Q l \<Longrightarrow> find Q xs = Some l"
proof -
  obtain ys zs where xs: "xs = ys @ l # zs" "P l" "\<forall>y \<in> set ys. \<not> P y"
    using find_Some_split[OF assms] by blast
  then show "l \<in> set xs" "P l" by auto
  show "s = l \<or> R l s" if "sorted_wrt R xs" "s \<in> set xs" "P s"
    using that xs by (auto simp: sorted_wrt_append)
  show "find Q xs = Some l" if "\<And>s. s \<in> set xs \<Longrightarrow> Q s \<Longrightarrow> P s" "Q l"
  proof -
    have "\<forall>y \<in> set ys. \<not> Q y" using that(1) xs by auto
    then show ?thesis using that(2) find_skip[of ys Q] unfolding xs(1) by simp
  qed
qed

lemma first_row:
  assumes "walk_ok E n W" "find P (w_rows W) = Some l"
  shows "l \<in> set (w_rows W)" "P l" "s \<in> set (w_rows W) \<Longrightarrow> P s \<Longrightarrow> before W l s"
proof -
  show l: "l \<in> set (w_rows W)" "P l" using find_Some_first(1,2)[OF assms(2)] by auto
  assume s: "s \<in> set (w_rows W)" "P s"
  have "sorted_wrt (\<lambda>r s. bytes_less (bkey (w_rid W) r) (bkey (w_rid W) s)) (w_rows W)"
    using assms(1) by (simp add: walk_ok_def)
  then have "bytes_le (bkey (w_rid W) l) (bkey (w_rid W) s)"
    using find_Some_first(3)[OF assms(2) _ s] bytes_less_imp_le bytes_le_refl by blast
  then show "before W l s" using before_bytes[OF assms(1) l(1) s(1)] by simp
qed

lemma sorted_wrt_total: "sorted_wrt R xs \<Longrightarrow> a \<in> set xs \<Longrightarrow> b \<in> set xs \<Longrightarrow> a = b \<or> R a b \<or> R b a"
  by (induction xs) auto

lemma row_eqI:
  assumes "walk_ok E n W" "l \<in> set (w_rows W)" "s \<in> set (w_rows W)" "before W l s" "before W s l"
  shows "l = s"
proof -
  have "sorted_wrt (\<lambda>r s. bytes_less (bkey (w_rid W) r) (bkey (w_rid W) s)) (w_rows W)"
    using assms(1) by (simp add: walk_ok_def)
  then have "l = s \<or> bytes_less (bkey (w_rid W) l) (bkey (w_rid W) s) \<or> bytes_less (bkey (w_rid W) s) (bkey (w_rid W) l)"
    using assms(2,3) sorted_wrt_total by fast
  then show ?thesis
    using assms before_bytes bytes_less_not_le by blast
qed

lemma wanted_tt: "wanted W r \<Longrightarrow> tts r \<le> sint (w_tt W)"
  by (simp add: resolved_def believed_def)

lemma wanted_unique:
  assumes "wanted W r" "s \<in> set (w_rows W)" "b_key s = b_key r" "vts s = vts r" "tts s \<le> sint (w_tt W)"
  shows "tts s < tts r \<or> tts s = tts r \<and> (asrt s \<longrightarrow> asrt r)"
  using assms by (auto simp: resolved_def believed_def list_ex_iff overrides_def)

lemma wanted_newest:
  assumes "wanted W r" "w_vt W = Some v" "s \<in> set (w_rows W)" "b_key s = b_key r" "vts s \<le> sint v" "tts s \<le> sint (w_tt W)"
  shows "asrt r \<and> vts r \<le> sint v \<and> vts s \<le> vts r"
  using assms by (auto simp: resolved_def list_ex_iff)

fun key_of :: "spot \<Rightarrow> tuple option" where
  "key_of Start = None"
| "key_of (PastGroup k g) = Some k"
| "key_of (PastKey k) = Some k"
| "key_of (Assert k g) = Some k"
| "key_of (Retract k g c) = Some k"

lemma spot_key: "spot_ok E n W a \<Longrightarrow> key_of a = Some k \<Longrightarrow> key_ok E n k"
  by (cases "(E, n, W, a)" rule: spot_ok.cases) auto

lemma ahead_other:
  assumes "walk_ok E n W" "spot_ok E n W a" "key_of a = Some k" "l \<in> set (w_rows W)" "ahead W k (b_key l)" "b_key l \<noteq> k"
  shows "\<not> ahead W (b_key l) k"
  using assms spot_key row_key_ok ahead_antisym by (metis walk_ok_def)

text \<open>Rows reached after a turn were reached before it.\<close>

lemma move_reach:
  assumes W: "walk_ok E n W" and a: "spot_ok E n W a" and l: "find (reach W a) (w_rows W) = Some l"
    and s: "s \<in> set (w_rows W)" "reach W (fst (move W a l)) s"
  shows "reach W a s"
proof -
  note f = first_row[OF W l] and o = ahead_other[OF W a _ f(1)]
  have t: "ahead W k (b_key s)" if "ahead W k (b_key l)" "ahead W (b_key l) (b_key s)" for k
    using that ahead_trans by blast
  show ?thesis
  proof (cases a)
    case (Assert k g)
    then show ?thesis using s(2) f(2) o t by (auto simp: fresh_def past_def split: if_splits)
  next
    case (Retract k g c)
    then show ?thesis using s(2) f(2) o t
      by (auto simp: fresh_def past_def in_group_def split: if_splits option.splits)
  next
    case (PastGroup k g)
    then show ?thesis using s(2) f(2) o t a by (auto simp: fresh_def split: if_splits)
  next
    case (PastKey k)
    then show ?thesis using s(2) f(2) o t by (auto simp: fresh_def split: if_splits)
  qed simp
qed

lemma newer_terminal: "newer (vld_at t True) TERMINAL_VALIDITY" "g = 0x8000000000000000 \<or> newer (vld_at g False) TERMINAL_VALIDITY"
proof -
  have m: "sint (0x8000000000000000 :: i64) = - (2 ^ 63)" by simp
  have "sint (0x8000000000000000 :: i64) \<le> sint x" for x :: i64
    unfolding m using sint_i64_bounds[of x] by simp
  then have "sint (0x8000000000000000 :: i64) < sint x \<or> x = 0x8000000000000000" for x :: i64
    by (metis le_less sint_inj)
  then show "newer (vld_at t True) TERMINAL_VALIDITY" "g = 0x8000000000000000 \<or> newer (vld_at g False) TERMINAL_VALIDITY"
    by (auto simp: newer_def)
qed

lemma vld_terminal: "vld_at 0x8000000000000000 False = TERMINAL_VALIDITY"
  by (simp add: vld_at_def TERMINAL_VALIDITY_def)

lemma newer_flag [simp]: "newer (vld_at g True) (vld_at g False)"
  by (simp add: newer_def)

lemma past_bytes: "bytes_le (spot_bytes W (Assert k g)) (spot_bytes W (past W k g))"
  "bytes_le (spot_bytes W (Retract k g c)) (spot_bytes W (past W k g))"
  using newer_terminal(1) newer_terminal(2)[of g]
  by (auto simp: past_def bpos_same vld_terminal)

text \<open>Bounds never go back.\<close>

lemma move_bytes:
  assumes W: "walk_ok E n W" and a: "spot_ok E n W a" and l: "find (reach W a) (w_rows W) = Some l"
  shows "bytes_le (spot_bytes W a) (spot_bytes W (fst (move W a l)))"
proof -
  note f = first_row[OF W l]
  have E: "ext_ok E" using W by (simp add: walk_ok_def)
  have low: "bytes_le (w_low W) (bpos (w_rid W) (b_key l) v t)" for v t
    using W f(1) bytes_le_append bytes_le_trans
    unfolding walk_ok_def list_all_iff bpos_def encode_as_key_append by blast
  have other: "bytes_le (bpos (w_rid W) k v t) (bpos (w_rid W) (b_key l) w u)"
    if "key_of a = Some k" "k \<noteq> b_key l" "ahead W k (b_key l)" for k v t w u
    using that bpos_other[OF E] spot_key[OF a that(1)] row_key_ok[OF W f(1)] by (simp add: key_ok_def ahead_def)
  have older: "newer (vld_at g x) (vld_at h y)" if "sint h < sint g" for g h x y
    using that by (simp add: newer_def)
  show ?thesis
  proof (cases a)
    case (Assert k g)
    then show ?thesis using f(2) other past_bytes by (auto simp: fresh_def bpos_same)
  next
    case (Retract k g c)
    then show ?thesis using f(2) other past_bytes older
      by (auto simp: fresh_def bpos_same in_group_def split: if_splits option.splits)
  next
    case (PastGroup k g)
    then show ?thesis using f(2) other older a by (cases "k = b_key l") (auto simp: fresh_def bpos_same)
  next
    case (PastKey k)
    then show ?thesis using f(2) other by (auto simp: fresh_def)
  qed (use low in \<open>simp add: fresh_def\<close>)
qed

text \<open>The invariant of a spot.\<close>

lemma fresh_undecided:
  assumes "\<forall>s \<in> set (w_rows W). b_key s = b_key l \<longrightarrow> vts s \<le> vts l"
  shows "\<exists>g. fresh W l False = Assert (b_key l) g \<and> undecided W (b_key l) g"
  using assms by (auto simp: fresh_def undecided_def split: option.splits)

lemma other_key_first:
  assumes W: "walk_ok E n W" and f: "l \<in> set (w_rows W)" "\<And>s. s \<in> set (w_rows W) \<Longrightarrow> reach W a s \<Longrightarrow> before W l s"
    and "\<And>s. s \<in> set (w_rows W) \<Longrightarrow> b_key s = b_key l \<Longrightarrow> reach W a s"
  shows "\<forall>s \<in> set (w_rows W). b_key s = b_key l \<longrightarrow> vts s \<le> vts l"
  using assms by (fastforce simp: before_def)

lemma move_spot_ok:
  assumes W: "walk_ok E n W" and a: "spot_ok E n W a" and l: "find (reach W a) (w_rows W) = Some l"
  shows "spot_ok E n W (fst (move W a l))"
proof -
  note f = first_row[OF W l]
  note kl = row_key_ok[OF W f(1)]
  have new: "spot_ok E n W (fresh W l False)" if "\<And>s. s \<in> set (w_rows W) \<Longrightarrow> b_key s = b_key l \<Longrightarrow> reach W a s"
  proof -
    note first = other_key_first[OF W f(1) f(3) that]
    obtain g where "fresh W l False = Assert (b_key l) g" "undecided W (b_key l) g"
      using fresh_undecided[OF first] by blast
    then show ?thesis using kl by simp
  qed
  show ?thesis
  proof (cases a)
    case (Assert k g)
    have b: "before W l s" if "s \<in> set (w_rows W)" "in_group k g s" "asrt s" "tts s \<le> sint (w_tt W)" for s
      using f(3)[OF that(1)] that(2-) Assert by (simp add: in_group_def)
    show ?thesis
    proof (cases "b_key l = k")
      case True
      have "tts s \<le> tts l" if "s \<in> set (w_rows W)" "in_group k g s" "asrt s" "tts s \<le> sint (w_tt W)" "vts l = sint g" for s
        using b[OF that(1-4)] that True by (auto simp: before_def in_group_def split: if_splits)
      moreover have "sint (w_tt W) < tts s" if "s \<in> set (w_rows W)" "in_group k g s" "asrt s" "\<not> (vts l = sint g \<and> asrt l)" for s
        using b[OF that(1-3)] that(2-) f(2) Assert True
        by (auto simp: before_def in_group_def simp flip: not_le split: if_splits)
      ultimately show ?thesis
        using True Assert a f by (auto simp: past_def in_group_def split: if_splits)
    qed (use new Assert f(2) in auto)
  next
    case (Retract k g c)
    show ?thesis
    proof (cases "c = None \<and> \<not> (in_group k g l \<and> \<not> asrt l \<and> tts l \<le> sint (w_tt W))")
      case fresh: True
      show ?thesis
      proof (cases "b_key l = k")
        case True
        then have "vts l < sint g" using fresh Retract f(2) by (auto simp: in_group_def)
        moreover have "sint (w_tt W) < tts s"
          if "s \<in> set (w_rows W)" "b_key s = k" "vts l < vts s" "vts s \<le> sint v" "w_vt W = Some v" for s v
        proof (cases "sint g < vts s")
          case True
          then show ?thesis using that a Retract fresh by (auto simp: undecided_def)
        next
          case False
          have "\<not> reach W a s" using f(3)[OF that(1)] that True by (auto simp: before_def)
          then show ?thesis using that a Retract fresh False by (auto simp: in_group_def)
        qed
        ultimately show ?thesis
          using True fresh Retract a kl by (auto simp: fresh_def undecided_def split: option.splits)
      qed (use new fresh Retract f(2) in auto)
    next
      case False
      then show ?thesis using Retract a by (cases c) (auto simp: past_def)
    qed
  next
    case (PastGroup k g)
    then show ?thesis using a kl by (simp add: fresh_def undecided_def)
  next
    case (PastKey k)
    then show ?thesis using new f(2) by simp
  qed (use new in simp)
qed

subsection \<open>Termination\<close>

fun rank :: "walk \<Rightarrow> spot \<Rightarrow> nat" where
  "rank W (Retract k g (Some c)) = 4"
| "rank W (Retract k g None) = 2"
| "rank W (Assert k g) =
     (case find (reach W (Assert k g)) (w_rows W) of Some l \<Rightarrow> if in_group k g l then 1 else 3 | None \<Rightarrow> 3)"
| "rank W a = 3"

definition work :: "walk \<Rightarrow> spot \<Rightarrow> nat" where
  "work W a = 4 * length (filter (reach W a) (w_rows W)) + rank W a"

lemma rank_bounds: "1 \<le> rank W a" "rank W a \<le> 4"
  by (cases "(W, a)" rule: rank.cases; auto split: option.splits)+

lemma length_filter_mono: "(\<And>s. s \<in> set xs \<Longrightarrow> Q s \<Longrightarrow> P s) \<Longrightarrow> length (filter Q xs) \<le> length (filter P xs)"
  by (induction xs) (auto intro: le_SucI)

lemma length_filter_less:
  assumes "\<And>s. s \<in> set xs \<Longrightarrow> Q s \<Longrightarrow> P s" "l \<in> set xs" "P l" "\<not> Q l"
  shows "length (filter Q xs) < length (filter P xs)"
  using assms
proof (induction xs)
  case (Cons x xs)
  have le: "length (filter Q xs) \<le> length (filter P xs)"
    using Cons.prems(1) by (intro length_filter_mono) auto
  show ?case
  proof (cases "l \<in> set xs")
    case True
    then show ?thesis using Cons by auto
  next
    case False
    then have "x = l" using Cons.prems(2) by simp
    then show ?thesis using Cons.prems(3,4) le by simp
  qed
qed simp

lemma work_less:
  assumes "\<And>s. s \<in> set (w_rows W) \<Longrightarrow> reach W a' s \<Longrightarrow> reach W a s" "l \<in> set (w_rows W)" "reach W a l"
    and "\<not> reach W a' l \<or> (find (reach W a') (w_rows W) = Some l \<longrightarrow> rank W a' < rank W a)"
    and "find (reach W a) (w_rows W) = Some l"
  shows "work W a' < work W a"
proof (cases "reach W a' l")
  case True
  then have "find (reach W a') (w_rows W) = Some l" using find_Some_first(4)[OF assms(5)] assms(1) by blast
  then have "rank W a' < rank W a" using True assms(4) by blast
  moreover have "length (filter (reach W a') (w_rows W)) \<le> length (filter (reach W a) (w_rows W))"
    using assms(1) by (rule length_filter_mono)
  ultimately show ?thesis by (simp add: work_def)
next
  case False
  then show ?thesis
    using length_filter_less[of "w_rows W" "reach W a'" "reach W a" l] assms(1-3) rank_bounds[of W a] rank_bounds[of W a']
    by (simp add: work_def)
qed

lemma fresh_measure:
  assumes "find (reach W (fresh W l same)) (w_rows W) = Some l"
  shows "rank W (fresh W l same) = 1"
  using assms find_Some_first(2)[OF assms] by (auto simp: fresh_def in_group_def split: option.splits if_splits)

lemma move_work:
  assumes W: "walk_ok E n W" and a: "spot_ok E n W a" and l: "find (reach W a) (w_rows W) = Some l"
  shows "work W (fst (move W a l)) < work W a"
proof (rule work_less)
  note f = first_row[OF W l]
  show "\<And>s. s \<in> set (w_rows W) \<Longrightarrow> reach W (fst (move W a l)) s \<Longrightarrow> reach W a s"
    using move_reach[OF W a l] by blast
  show "\<not> reach W (fst (move W a l)) l \<or> (find (reach W (fst (move W a l))) (w_rows W) = Some l \<longrightarrow> rank W (fst (move W a l)) < rank W a)"
  proof (cases a)
    case (Assert k g)
    then show ?thesis
      using l f(2) fresh_measure[of W l False] by (cases "b_key l = k") (auto simp: in_group_def past_def)
  next
    case (Retract k g c)
    then show ?thesis
      using fresh_measure[of W l "b_key l = k"] by (cases c) (auto simp: in_group_def past_def)
  next
    case (PastGroup k g)
    then show ?thesis using fresh_measure[of W l "b_key l = k"] by auto
  qed (use fresh_measure[of W l False] in auto)
qed (use first_row[OF W l] l in auto)

subsection \<open>What is emitted\<close>

text \<open>The record that decides its group.\<close>

definition decides :: "walk \<Rightarrow> belief_row \<Rightarrow> bool" where
  "decides W e \<longleftrightarrow> e \<in> set (w_rows W) \<and> tts e \<le> sint (w_tt W) \<and>
     (\<forall>s \<in> set (w_rows W). b_key s = b_key e \<and> vts s = vts e \<and> tts s \<le> sint (w_tt W) \<longrightarrow>
        tts s < tts e \<or> tts s = tts e \<and> (asrt s \<longrightarrow> asrt e))"

lemma decides_wanted:
  assumes "decides W e" "in_group k g e" "undecided W k g" "w_vt W \<noteq> None \<Longrightarrow> asrt e"
  shows "wanted W e"
proof -
  have "believed (w_tt W) (w_rows W) e"
    using assms(1) by (auto simp: believed_def decides_def list_ex_iff overrides_def)
  then show ?thesis
    using assms(2-) by (fastforce simp: resolved_def undecided_def in_group_def list_ex_iff split: option.splits)
qed

lemma decides_only:
  assumes "walk_ok E n W" "decides W e" "r \<in> set (w_rows W)" "wanted W r" "b_key r = b_key e" "vts r = vts e"
  shows "r = e"
proof -
  have "e \<in> set (w_rows W)" "tts e \<le> sint (w_tt W)" using assms(2) by (auto simp: decides_def)
  then have "tts e < tts r \<or> tts e = tts r \<and> (asrt e \<longrightarrow> asrt r)"
    using wanted_unique[OF assms(4)] assms(5,6) by metis
  moreover have "tts r < tts e \<or> tts r = tts e \<and> (asrt r \<longrightarrow> asrt e)"
    using assms(2,3,5,6) wanted_tt[OF assms(4)] by (auto simp: decides_def)
  ultimately have "tts r = tts e" "asrt r = asrt e" by auto
  then show ?thesis
    using row_eqI[OF assms(1,3)] assms(2,5,6) by (simp add: decides_def before_def)
qed

lemma decide:
  assumes W: "walk_ok E n W" and e: "decides W e" "in_group k g e" "undecided W k g"
    and r: "r \<in> set (w_rows W)" "wanted W r" "b_key r = k \<Longrightarrow> vts r \<le> sint g" "b_key r \<noteq> k \<Longrightarrow> ahead W k (b_key r)"
  shows "r = e \<or> reach W (past W k g) r"
proof (cases "b_key r = k \<and> \<not> (w_vt W = None \<and> vts r < sint g)")
  case False
  then show ?thesis using r(3,4) by (auto simp: past_def)
next
  case k: True
  show ?thesis
  proof (cases "vts r = sint g")
    case True
    then show ?thesis using decides_only[OF W e(1) r(1,2)] k e(2) by (simp add: in_group_def)
  next
    case False
    then have lt: "vts r < sint g" using r(3) k by auto
    then obtain v where v: "w_vt W = Some v" using k by auto
    then have "vts e \<le> vts r"
      using wanted_newest[OF r(2) v, of e] e k by (simp add: decides_def in_group_def undecided_def)
    then show ?thesis using lt e(2) by (simp add: in_group_def)
  qed
qed

lemma fresh_reach:
  assumes "before W l r" "wanted W r"
  shows "reach W (fresh W l same) r"
  using assms wanted_tt[OF assms(2)]
  by (auto simp: before_def fresh_def resolved_def split: if_splits option.splits)

lemma cand_decides:
  assumes "spot_ok E n W (Retract k g (Some c))"
    and "\<And>s. s \<in> set (w_rows W) \<Longrightarrow> in_group k g s \<Longrightarrow> \<not> asrt s \<Longrightarrow> tts s \<le> sint (w_tt W) \<Longrightarrow> tts s \<le> tts c"
  shows "decides W c" "in_group k g c" "undecided W k g" "asrt c"
proof -
  have "tts s \<le> tts c" if "s \<in> set (w_rows W)" "b_key s = b_key c" "vts s = vts c" "tts s \<le> sint (w_tt W)" for s
    using that assms by (cases "asrt s") (auto simp: in_group_def)
  then show "decides W c" using assms(1) by (fastforce simp: decides_def)
qed (use assms(1) in auto)

lemma assert_decides:
  assumes W: "walk_ok E n W" and l: "find (reach W (Assert k g)) (w_rows W) = Some l"
    and "b_key l = k" "vts l = sint g" "\<not> asrt l" "tts l \<le> sint (w_tt W)"
  shows "decides W l"
proof -
  note f = first_row[OF W l]
  have "tts s \<le> tts l \<and> \<not> asrt s" if "s \<in> set (w_rows W)" "b_key s = b_key l" "vts s = vts l" "tts s \<le> sint (w_tt W)" for s
    using f(3)[OF that(1)] that assms by (auto simp: before_def)
  then show ?thesis using f(1) assms(6) by (fastforce simp: decides_def)
qed

lemma retract_decides:
  assumes W: "walk_ok E n W" and a: "spot_ok E n W (Retract k g c)" and l: "find (reach W (Retract k g c)) (w_rows W) = Some l"
    and "in_group k g l" "\<not> asrt l" "tts l \<le> sint (w_tt W)" "\<And>r. c = Some r \<Longrightarrow> tts r < tts l"
  shows "decides W l"
proof -
  note f = first_row[OF W l]
  have "tts s < tts l \<or> tts s = tts l \<and> \<not> asrt s"
    if s: "s \<in> set (w_rows W)" "b_key s = b_key l" "vts s = vts l" "tts s \<le> sint (w_tt W)" for s
  proof (cases "asrt s")
    case True
    then show ?thesis using s a assms(4,7) by (cases c) (fastforce simp: in_group_def)+
  next
    case False
    then have "before W l s" using f(3)[OF s(1)] s assms(4) by (auto simp: in_group_def)
    then show ?thesis using s False assms(5) by (auto simp: before_def)
  qed
  then show ?thesis using f(1) assms(6) by (fastforce simp: decides_def)
qed

lemma rejected_run:
  assumes W: "walk_ok E n W" and a: "spot_ok E n W (Retract k g c)" and l: "find (reach W (Retract k g c)) (w_rows W) = Some l"
    and "\<not> (in_group k g l \<and> \<not> asrt l \<and> tts l \<le> sint (w_tt W))"
    and s: "s \<in> set (w_rows W)" "in_group k g s" "\<not> asrt s"
  shows "sint (w_tt W) < tts s"
proof (rule ccontr)
  assume "\<not> sint (w_tt W) < tts s"
  then have "before W l s" using first_row(3)[OF W l s(1)] s by (simp add: in_group_def)
  then show False
    using first_row(1,2)[OF W l] assms(4) s ahead_other[OF W a _ first_row(1)[OF W l]]
    by (auto simp: before_def in_group_def split: if_splits)
qed

lemma past_after:
  assumes "walk_ok E n W" "e \<in> set (w_rows W)" "in_group k g e" "r \<in> set (w_rows W)" "reach W (past W k g) r"
  shows "before W e r" "r \<noteq> e"
  using assms by (auto simp: past_def before_def in_group_def split: if_splits)

text \<open>A turn that emits a row emits the first of the rows still to come; any other turn loses none.\<close>

definition emits :: "walk \<Rightarrow> spot \<Rightarrow> spot \<Rightarrow> belief_row \<Rightarrow> bool" where
  "emits W a a' e \<longleftrightarrow> e \<in> set (w_rows W) \<and> wanted W e \<and> live W a e
     \<and> (\<forall>r \<in> set (w_rows W). wanted W r \<longrightarrow> (live W a r \<longleftrightarrow> r = e \<or> live W a' r))
     \<and> (\<forall>r \<in> set (w_rows W). live W a' r \<longrightarrow> before W e r \<and> r \<noteq> e)"

lemma live_past [simp]: "live W (past W k g) r \<longleftrightarrow> reach W (past W k g) r"
  by (simp add: live_def past_def)

lemma emits_past:
  assumes W: "walk_ok E n W" and e: "decides W e" "in_group k g e" "undecided W k g" "w_vt W \<noteq> None \<Longrightarrow> asrt e" "live W a e"
    and a: "\<And>r. r \<in> set (w_rows W) \<Longrightarrow> reach W (past W k g) r \<Longrightarrow> reach W a r"
    and k: "\<And>r. live W a r \<Longrightarrow> (b_key r = k \<longrightarrow> vts r \<le> sint g) \<and> (b_key r \<noteq> k \<longrightarrow> ahead W k (b_key r))"
  shows "emits W a (past W k g) e"
proof -
  have rows: "e \<in> set (w_rows W)" using e(1) by (simp add: decides_def)
  have "live W a r \<longleftrightarrow> r = e \<or> reach W (past W k g) r" if r: "r \<in> set (w_rows W)" "wanted W r" for r
  proof
    assume "live W a r"
    then show "r = e \<or> reach W (past W k g) r" using decide[OF W e(1-3) r] k by blast
  next
    assume "r = e \<or> reach W (past W k g) r"
    then show "live W a r" using e(5) a[OF r(1)] unfolding live_def by blast
  qed
  then show ?thesis
    using rows decides_wanted[OF e(1-4)] e(5) past_after[OF W rows e(2)] unfolding emits_def live_past by blast
qed

lemma skips_past:
  assumes W: "walk_ok E n W" and e: "decides W e" "in_group k g e" "undecided W k g" "w_vt W \<noteq> None" "\<not> asrt e"
    and a: "\<And>r. r \<in> set (w_rows W) \<Longrightarrow> reach W (past W k g) r \<Longrightarrow> reach W a r"
    and k: "\<And>r. live W a r \<Longrightarrow> (b_key r = k \<longrightarrow> vts r \<le> sint g) \<and> (b_key r \<noteq> k \<longrightarrow> ahead W k (b_key r))"
    and r: "r \<in> set (w_rows W)" "wanted W r"
  shows "live W a r \<longleftrightarrow> live W (past W k g) r"
proof -
  have "r \<noteq> e" using e(4,5) r(2) by (auto simp: resolved_def)
  then show ?thesis using decide[OF W e(1-3) r] a[OF r(1)] k unfolding live_past live_def[of W a] by blast
qed

lemma live_fresh: "live W (fresh W l same) r \<longleftrightarrow> reach W (fresh W l same) r"
  by (simp add: live_def fresh_def)

lemma move_emits:
  assumes W: "walk_ok E n W" and a: "spot_ok E n W a" and l: "find (reach W a) (w_rows W) = Some l"
    and e: "snd (move W a l) = Some e"
  shows "emits W a (fst (move W a l)) e"
proof -
  note f = first_row[OF W l]
  have prev: "r \<in> set (w_rows W) \<Longrightarrow> reach W (fst (move W a l)) r \<Longrightarrow> reach W a r" for r
    by (rule move_reach[OF W a l])
  show ?thesis
  proof (cases a)
    case (Assert k g)
    then have m: "move W a l = (past W k g, Some l)" "e = l" "b_key l = k" "vts l = sint g" "\<not> asrt l"
        "tts l \<le> sint (w_tt W)" "w_vt W = None"
      using e by (auto simp: only_groups_def split: if_splits)
    show ?thesis
      unfolding m(1,2) fst_conv
    proof (rule emits_past[OF W])
      show "decides W l" using assert_decides[OF W l[unfolded Assert] m(3-6)] .
    qed (use m f(2) a Assert prev in \<open>auto simp: in_group_def live_def\<close>)
  next
    case (Retract k g c)
    note ok = a[unfolded Retract] and found = l[unfolded Retract]
    have m: "fst (move W a l) = past W k g" "undecided W k g" using e ok Retract by (cases c; auto split: if_splits)+
    note prev' = prev[unfolded m(1)]
    have lives: "(b_key r = k \<longrightarrow> vts r \<le> sint g) \<and> (b_key r \<noteq> k \<longrightarrow> ahead W k (b_key r))" if "live W a r" for r
      using that ok Retract by (cases c) (auto simp: live_def in_group_def)
    consider (cand) "c = Some e" "\<And>s. s \<in> set (w_rows W) \<Longrightarrow> in_group k g s \<Longrightarrow> \<not> asrt s \<Longrightarrow> tts s \<le> sint (w_tt W) \<Longrightarrow> tts s \<le> tts e"
      | (run) "e = l" "in_group k g l" "\<not> asrt l" "tts l \<le> sint (w_tt W)" "\<And>r. c = Some r \<Longrightarrow> tts r < tts l" "w_vt W = None"
    proof (cases "in_group k g l \<and> \<not> asrt l \<and> tts l \<le> sint (w_tt W)")
      case True
      have "tts s \<le> tts l" if "s \<in> set (w_rows W)" "in_group k g s" "\<not> asrt s" "tts s \<le> sint (w_tt W)" for s
        using f(3)[OF that(1)] that True Retract by (auto simp: before_def in_group_def)
      then show ?thesis using that True e Retract
        by (cases c) (auto simp: only_groups_def split: if_splits intro: order_trans)
    next
      case False
      then show ?thesis
        using that(1) rejected_run[OF W ok found False] e Retract by (cases c) force+
    qed
    then show ?thesis
    proof cases
      case cand
      note t = cand_decides[OF ok[unfolded cand(1)] cand(2)]
      show ?thesis unfolding m(1)
        by (rule emits_past[OF W t(1-3)]) (use t(4) cand prev' lives Retract in \<open>auto simp: live_def\<close>)
    next
      case run
      show ?thesis unfolding m(1) run(1)
        by (rule emits_past[OF W retract_decides[OF W ok found run(2-5)] run(2) m(2)])
          (use run f(2) prev' lives in \<open>auto simp: live_def\<close>)
    qed
  qed (use e in auto)
qed

lemma move_skips:
  assumes W: "walk_ok E n W" and a: "spot_ok E n W a" and l: "find (reach W a) (w_rows W) = Some l"
    and e: "snd (move W a l) = None" and r: "r \<in> set (w_rows W)" "wanted W r"
  shows "live W a r \<longleftrightarrow> live W (fst (move W a l)) r"
proof -
  note f = first_row[OF W l]
  have prev: "r \<in> set (w_rows W) \<Longrightarrow> reach W (fst (move W a l)) r \<Longrightarrow> reach W a r" for r
    by (rule move_reach[OF W a l])
  have fresh: "live W a r \<longleftrightarrow> live W (fst (move W a l)) r" if "fst (move W a l) = fresh W l same" "cand_of a = None" for same
    using that f(3)[OF r(1)] fresh_reach[OF _ r(2), of l same] prev[OF r(1)]
    unfolding that(1) live_fresh live_def[of W a] by auto
  show ?thesis
  proof (cases a)
    case (Assert k g)
    consider "b_key l \<noteq> k" | (cand) "b_key l = k" "vts l = sint g" "asrt l"
      | (run) "b_key l = k" "vts l = sint g" "\<not> asrt l" "tts l \<le> sint (w_tt W)"
      | (none) "b_key l = k" "vts l \<noteq> sint g \<or> \<not> asrt l \<and> sint (w_tt W) < tts l"
      by fastforce
    then show ?thesis
    proof cases
      case 1
      then show ?thesis using fresh[of False] Assert by simp
    next
      case cand
      have "r = l" if "b_key r = k" "vts r = sint g" "asrt r" "reach W a r"
      proof -
        have "tts r \<le> tts l" using f(3)[OF r(1) that(4)] that cand by (auto simp: before_def)
        moreover have "tts l \<le> tts r" using wanted_unique[OF r(2) f(1)] f(2) that cand Assert by auto
        ultimately show ?thesis using row_eqI[OF W r(1) f(1)] that cand by (simp add: before_def)
      qed
      then show ?thesis using cand Assert f(2) wanted_tt[OF r(2)] by (auto simp: live_def split: if_splits)
    next
      case run
      then have m: "w_vt W \<noteq> None" "move W a l = (past W k g, None)" using e Assert by (auto simp: only_groups_def split: if_splits)
      show ?thesis
        unfolding m(2) fst_conv
        by (rule skips_past[OF W assert_decides[OF W l[unfolded Assert] run] _ _ m(1) run(3) _ _ r])
          (use run a Assert prev m(2) in \<open>auto simp: in_group_def live_def\<close>)
    next
      case none
      have "\<not> asrt r" if "b_key r = k" "vts r = sint g" "reach W a r"
        using f(2) f(3)[OF r(1) that(3)] that none Assert by (auto simp: before_def)
      then show ?thesis using none Assert wanted_tt[OF r(2)] by (auto simp: live_def split: if_splits)
    qed
  next
    case (Retract k g c)
    note ok = a[unfolded Retract] and found = l[unfolded Retract]
    show ?thesis
    proof (cases "in_group k g l \<and> \<not> asrt l \<and> tts l \<le> sint (w_tt W)")
      case True
      then have m: "move W a l = (past W k g, None)" "w_vt W \<noteq> None" "\<And>r. c = Some r \<Longrightarrow> tts r < tts l"
        using e Retract by (auto simp: only_groups_def split: if_splits option.splits)
      have lives: "(b_key r = k \<longrightarrow> vts r \<le> sint g) \<and> (b_key r \<noteq> k \<longrightarrow> ahead W k (b_key r))" if "live W a r" for r
        using that ok Retract by (cases c) (auto simp: live_def in_group_def)
      have u: "undecided W k g" using ok by (cases c) auto
      show ?thesis
        unfolding m(1) fst_conv using True m prev lives
        by (intro skips_past[OF W retract_decides[OF W ok found] _ u _ _ _ _ r]) auto
    next
      case False
      then show ?thesis using fresh[of "b_key l = k"] e Retract by (cases c) (auto split: if_splits)
    qed
  next
    case (PastGroup k g)
    then show ?thesis using fresh[of "b_key l = k"] by simp
  qed (use fresh[of False] in auto)
qed

section \<open>The iterator follows the walk\<close>

definition land :: "u64 \<Rightarrow> belief_row \<Rightarrow> landing" where
  "land rid r = \<lparr>raw_key = bkey rid r, v_bytes = b_val r, plain_len = length (encode_as_key rid (b_key r)),
     vt_raw = timestamp (b_vt r), vt_assert = asrt r, tt_raw = b_tt r\<rparr>"

lemma read_vld_encoded: "read_vld (VLD_TAG # encode_validity v) = Inr (timestamp v, is_assert v)"
proof -
  let ?w = "write_u64 (NOT (order_encode_i64 (timestamp v)))"
  have "take 8 (?w @ [x]) = ?w" "(VLD_TAG # ?w @ [x]) ! 9 = x" for x :: u8
    by (simp_all add: nth_append)
  then show ?thesis by (simp add: read_vld_def encode_validity_def)
qed

lemma bkey_split: "bkey rid r = encode_as_key rid (b_key r) @ (VLD_TAG # encode_validity (b_vt r)) @ VLD_TAG # encode_validity (vld_at (b_tt r) True)"
  by (simp add: bkey_def bpos_def encode_as_key_append encode_validity_def)

lemma length_encode_validity [simp]: "length (encode_validity v) = 9"
  by (simp add: encode_validity_def)

lemma parse_land: "b_tt r \<noteq> 0x8000000000000000 \<Longrightarrow> landing_parse (bkey rid r) (b_val r) = Inr (land rid r)"
proof -
  assume tt: "b_tt r \<noteq> 0x8000000000000000"
  let ?p = "encode_as_key rid (b_key r)" and ?v = "VLD_TAG # encode_validity (b_vt r)" and ?t = "VLD_TAG # encode_validity (vld_at (b_tt r) True)"
  have k: "bkey rid r = ?p @ ?v @ ?t" by (simp add: bkey_split)
  have "take VLD_LEN (drop (length (bkey rid r) - AXES_LEN) (bkey rid r)) = ?v"
    "drop (length (bkey rid r) - VLD_LEN) (bkey rid r) = ?t" "length (bkey rid r) - AXES_LEN = length ?p"
    "\<not> length (bkey rid r) < AXES_LEN"
    unfolding k by simp_all
  then show ?thesis
    using tt read_vld_encoded[of "b_vt r"] read_vld_encoded[of "vld_at (b_tt r) True"]
    by (simp add: landing_parse_def land_def Let_def)
qed

lemma plain_land: "plain (land rid r) = encode_as_key rid (b_key r)"
  by (simp add: plain_def land_def bkey_split)

lemma push_vld_bpos: "push_vld (push_vld (encode_as_key rid k) t a) t' a' = bpos rid k (vld_at t a) (vld_at t' a')"
  by (simp add: push_vld_def bpos_def encode_as_key_append)

lemma into_row_land:
  "ext_ok E \<Longrightarrow> brow_ok E n r \<Longrightarrow> into_row E from_slice (land rid r) = brow_tuple from_slice r"
  by (simp add: into_row_def land_def brow_tuple_def bkey_def bpos_def brow_ok_def decode_encode_as_key)

lemma plain_eq_iff:
  "ext_ok E \<Longrightarrow> key_ok E n k \<Longrightarrow> key_ok E n k' \<Longrightarrow> encode_as_key rid k = encode_as_key rid k' \<longleftrightarrow> k = k'"
  using decode_encode_as_key by (metis key_ok_def option.inject)

fun phase_for :: "walk \<Rightarrow> spot \<Rightarrow> phase" where
  "phase_for W Start = ProbeAssert None None"
| "phase_for W (PastGroup k g) = ProbeAssert (Some (encode_as_key (w_rid W) k)) None"
| "phase_for W (PastKey k) = ProbeAssert None None"
| "phase_for W (Assert k g) = ProbeAssert (Some (encode_as_key (w_rid W) k)) (Some g)"
| "phase_for W (Retract k g c) = ProbeRetract (encode_as_key (w_rid W) k) g (map_option (land (w_rid W)) c)"

definition at_spot :: "walk \<Rightarrow> spot \<Rightarrow> 'p \<Rightarrow> landing option \<Rightarrow> 'p bitemporal_iter \<Rightarrow> bool" where
  "at_spot W a p pd it \<longleftrightarrow> vt_at_raw it = w_vt W \<and> tt_at_raw it = w_tt W \<and> bound it = spot_bytes W a
     \<and> phase_of it = phase_for W a \<and> probe_state it = p \<and> pending it = pd"

text \<open>A pending landing that is still at or after the bound is what a probe would find.\<close>

definition pending_ok :: "walk \<Rightarrow> spot \<Rightarrow> landing option \<Rightarrow> bool" where
  "pending_ok W a pd \<longleftrightarrow> (\<forall>l. pd = Some l \<longrightarrow>
     (\<exists>r \<in> set (w_rows W). l = land (w_rid W) r \<and> (reach W a r \<longrightarrow> find (reach W a) (w_rows W) = Some r)))"

lemma advance_at:
  "at_spot W a p pd it \<Longrightarrow> at_spot W (past W k g) p pd (advance (encode_as_key (w_rid W) k) g it)"
  by (auto simp: at_spot_def advance_def past_def set_bound_def push_vld_bpos TERMINAL_def vld_terminal split: option.splits)

lemma fresh_at:
  "at_spot W a p pd it \<Longrightarrow> at_spot W (fresh W l same) p pd (classify_fresh (land (w_rid W) l) same it)"
  by (auto simp: at_spot_def classify_fresh_def Let_def aim_assert_def fresh_def set_bound_def push_vld_bpos plain_land)
    (simp_all add: land_def split: option.splits)

lemma retract_at:
  "at_spot W a p pd it \<Longrightarrow>
     at_spot W (Retract k g c) p pd (aim_retract (encode_as_key (w_rid W) k) g (map_option (land (w_rid W)) c) it)"
  by (simp add: at_spot_def aim_retract_def set_bound_def push_vld_bpos)

lemma pending_at: "at_spot W a p pd it \<Longrightarrow> at_spot W a p (Some l) (it\<lparr>pending := Some l\<rparr>)"
  by (simp add: at_spot_def)

lemmas at_rules = advance_at fresh_at retract_at[where c = None, simplified] retract_at[where c = "Some _", simplified] pending_at

definition landing_turn ::
  "ext \<Rightarrow> (bytes \<Rightarrow> tuple option) \<Rightarrow> phase \<Rightarrow> landing \<Rightarrow> 'p bitemporal_iter \<Rightarrow> 'p turn" where
  "landing_turn E from_slice ph l it =
     (case ph of
        ProbeAssert key grp \<Rightarrow> on_probe_assert E from_slice key grp l it
      | ProbeRetract key grp cand \<Rightarrow> on_probe_retract E from_slice key grp cand l it
      | Done \<Rightarrow> Return (Inl Panic) it)"

definition turns ::
  "ext \<Rightarrow> (bytes \<Rightarrow> tuple option) \<Rightarrow> walk \<Rightarrow> spot \<Rightarrow> 'p \<Rightarrow> belief_row \<Rightarrow> belief_row option \<Rightarrow> 'p turn \<Rightarrow> bool" where
  "turns E from_slice W a' p l out t \<longleftrightarrow> (\<exists>it' pd. at_spot W a' p pd it' \<and> pd \<in> {None, Some (land (w_rid W) l)} \<and>
     t = (case out of None \<Rightarrow> Continue it' | Some e \<Rightarrow> emit E from_slice (land (w_rid W) e) it'))"

lemma turns_plain:
  "at_spot W a' p None it' \<Longrightarrow> turns E from_slice W a' p l None (Continue it')"
  "at_spot W a' p None it' \<Longrightarrow> turns E from_slice W a' p l (Some e) (emit E from_slice (land (w_rid W) e) it')"
  unfolding turns_def by (intro exI[of _ it'] exI[of _ None], simp)+

lemma turns_pending:
  "at_spot W a' p pd it' \<Longrightarrow> turns E from_slice W a' p l None (Continue (it'\<lparr>pending := Some (land (w_rid W) l)\<rparr>))"
  "at_spot W a' p pd it' \<Longrightarrow>
     turns E from_slice W a' p l (Some e) (emit E from_slice (land (w_rid W) e) (it'\<lparr>pending := Some (land (w_rid W) l)\<rparr>))"
  unfolding turns_def
  by (intro exI[of _ "it'\<lparr>pending := Some (land (w_rid W) l)\<rparr>"] exI[of _ "Some (land (w_rid W) l)"], simp add: pending_at)+

lemmas turnsI = turns_plain turns_pending

lemma landing_turn_move:
  assumes W: "walk_ok E n W" and a: "spot_ok E n W a" and l: "find (reach W a) (w_rows W) = Some l"
    and it: "at_spot W a p None it"
  shows "turns E from_slice W (fst (move W a l)) p l (snd (move W a l))
    (landing_turn E from_slice (phase_for W a) (land (w_rid W) l) it)"
proof -
  note f = first_row[OF W l]
  have E: "ext_ok E" using W by (simp add: walk_ok_def)
  have k: "encode_as_key (w_rid W) k = encode_as_key (w_rid W) (b_key l) \<longleftrightarrow> b_key l = k"
    "encode_as_key (w_rid W) (b_key l) = encode_as_key (w_rid W) k \<longleftrightarrow> b_key l = k" if "key_of a = Some k" for k
    using plain_eq_iff[OF E spot_key[OF a that] row_key_ok[OF W f(1)], of "w_rid W"] by (blast, metis)
  have fields: "vt_raw (land (w_rid W) r) = timestamp (b_vt r)" "vt_assert (land (w_rid W) r) = asrt r" "tt_raw (land (w_rid W) r) = b_tt r" for r
    by (simp_all add: land_def)
  have i: "vt_at_raw it = w_vt W" "tt_at_raw it = w_tt W" using it by (simp_all add: at_spot_def)
  note defs = landing_turn_def on_probe_assert_def on_probe_retract_def plain_land fields sint_inj only_groups_def in_group_def
  show ?thesis
  proof (cases a)
    case (Assert k g)
    then show ?thesis using k[of k] it i by (auto simp: defs intro!: turnsI at_rules)
  next
    case (Retract k g c)
    then show ?thesis using k[of k] it i by (cases c) (auto simp: defs intro!: turnsI at_rules)
  qed (use it i k in \<open>auto simp: defs intro!: turnsI at_rules\<close>)
qed

subsection \<open>Rows still to come\<close>

definition remaining :: "walk \<Rightarrow> spot \<Rightarrow> belief_row list" where
  "remaining W a = filter (\<lambda>r. wanted W r \<and> live W a r) (w_rows W)"

lemma remaining_skip:
  assumes "walk_ok E n W" "spot_ok E n W a" "find (reach W a) (w_rows W) = Some l" "snd (move W a l) = None"
  shows "remaining W (fst (move W a l)) = remaining W a"
  unfolding remaining_def using move_skips[OF assms] by (intro filter_cong) auto

lemma remaining_emit:
  assumes W: "walk_ok E n W" and e: "emits W a a' e"
  shows "remaining W a = e # remaining W a'"
proof -
  obtain us vs where rows: "w_rows W = us @ e # vs" using e by (auto simp: emits_def in_set_conv_decomp)
  have s: "sorted_wrt (\<lambda>r s. bytes_less (bkey (w_rid W) r) (bkey (w_rid W) s)) (us @ e # vs)"
    using W rows by (simp add: walk_ok_def)
  have us: "\<not> (wanted W r \<and> live W a r)" "\<not> (wanted W r \<and> live W a' r)" if r: "r \<in> set us" for r
  proof -
    have in_rows: "r \<in> set (w_rows W)" "e \<in> set (w_rows W)" using r rows by auto
    have less: "bytes_less (bkey (w_rid W) r) (bkey (w_rid W) e)" using s r by (auto simp: sorted_wrt_append)
    then have "\<not> before W e r" using before_bytes[OF W in_rows(2,1)] bytes_less_not_le by blast
    moreover have "r \<noteq> e" using less bytes_less_not_le bytes_le_refl by blast
    ultimately show "\<not> (wanted W r \<and> live W a r)" "\<not> (wanted W r \<and> live W a' r)"
      using e in_rows unfolding emits_def by blast+
  qed
  have vs: "(wanted W r \<and> live W a r) = (wanted W r \<and> live W a' r)" if r: "r \<in> set vs" for r
  proof -
    have in_rows: "r \<in> set (w_rows W)" using r rows by auto
    have "bytes_less (bkey (w_rid W) e) (bkey (w_rid W) r)" using s r by (auto simp: sorted_wrt_append)
    then have "r \<noteq> e" using bytes_less_not_le bytes_le_refl by blast
    then show ?thesis using e in_rows unfolding emits_def by blast
  qed
  have "filter (\<lambda>r. wanted W r \<and> live W a r) us = []" "filter (\<lambda>r. wanted W r \<and> live W a' r) us = []"
    using us by (auto simp: filter_empty_conv)
  moreover have "filter (\<lambda>r. wanted W r \<and> live W a r) vs = filter (\<lambda>r. wanted W r \<and> live W a' r) vs"
    using vs by (intro filter_cong) auto
  moreover have "wanted W e \<and> live W a e" "\<not> live W a' e" using e by (auto simp: emits_def)
  ultimately show ?thesis unfolding remaining_def rows by simp
qed

lemma remaining_end:
  assumes W: "walk_ok E n W" and a: "spot_ok E n W a" and l: "find (reach W a) (w_rows W) = None"
  shows "remaining W a = (case cand_of a of None \<Rightarrow> [] | Some c \<Rightarrow> [c])"
proof -
  have n: "\<not> reach W a r" if "r \<in> set (w_rows W)" for r using l that by (simp add: find_None_iff)
  show ?thesis
  proof (cases "cand_of a")
    case None
    then show ?thesis using n by (auto simp: remaining_def live_def filter_empty_conv)
  next
    case (Some c)
    then obtain k g where ak: "a = Retract k g (Some c)" by (cases a) auto
    have "tts s \<le> tts c" if "s \<in> set (w_rows W)" "in_group k g s" "\<not> asrt s" "tts s \<le> sint (w_tt W)" for s
      using n[OF that(1)] that ak by (auto simp: in_group_def)
    note t = cand_decides[OF a[unfolded ak] this]
    have c: "c \<in> set (w_rows W)" using t(1) by (simp add: decides_def)
    have prev: "reach W a r" if "reach W (past W k g) r" for r
      using that ak by (auto simp: past_def split: if_splits)
    have "emits W a (past W k g) c"
      by (rule emits_past[OF W t(1-3)]) (use t prev ak in \<open>auto simp: live_def in_group_def\<close>)
    moreover have "remaining W (past W k g) = []"
      using n prev unfolding remaining_def filter_empty_conv live_past by blast
    ultimately show ?thesis using remaining_emit[OF W] Some by simp
  qed
qed

lemma find_map_pred: "find P (map f xs) = map_option f (find (\<lambda>x. P (f x)) xs)"
  by (induction xs) auto

subsection \<open>Any probe that answers ascending bounds\<close>

text \<open>The contract of a probe: asked with bounds that never go back, it finds the first entry at or
  after the bound.\<close>

locale range_probe =
  fixes probe :: "'p probe_fn"
    and pinv :: "'p \<Rightarrow> bytes \<Rightarrow> bool"
    and entries :: "(bytes \<times> bytes) list"
  assumes probe_first: "pinv p b0 \<Longrightarrow> bytes_le b0 b \<Longrightarrow>
    \<exists>p'. probe p b far = Inr (p', find (\<lambda>e. bytes_le b (fst e)) entries) \<and> pinv p' b"
begin

definition good :: "ext \<Rightarrow> nat \<Rightarrow> walk \<Rightarrow> spot \<Rightarrow> 'p bitemporal_iter \<Rightarrow> bool" where
  "good E n W a it \<longleftrightarrow> spot_ok E n W a \<and> at_spot W a (probe_state it) (pending it) it \<and> pending_ok W a (pending it)
     \<and> (\<exists>b. pinv (probe_state it) b \<and> bytes_le b (bound it))"

lemma take_landing_first:
  assumes W: "walk_ok E n W" and es: "entries = map (\<lambda>r. (bkey (w_rid W) r, b_val r)) (w_rows W)" and g: "good E n W a it"
  shows "\<exists>p b. take_landing probe it = Inr (it\<lparr>pending := None, probe_state := p\<rparr>,
      map_option (land (w_rid W)) (find (reach W a) (w_rows W))) \<and> pinv p b \<and> bytes_le b (bound it)"
proof -
  obtain b0 where b0: "pinv (probe_state it) b0" "bytes_le b0 (bound it)" using g by (auto simp: good_def)
  have a: "spot_ok E n W a" "bound it = spot_bytes W a" using g by (auto simp: good_def at_spot_def)
  obtain p where p: "probe (probe_state it) (bound it) (bound_is_far it) = Inr (p, find (\<lambda>e. bytes_le (bound it) (fst e)) entries)"
    "pinv p (bound it)" using probe_first[OF b0] by blast
  have "find (\<lambda>e. bytes_le (bound it) (fst e)) entries = map_option (\<lambda>r. (bkey (w_rid W) r, b_val r)) (find (reach W a) (w_rows W))"
    unfolding es find_map_pred fst_conv a(2) using reach_bytes[OF W a(1)]
    by (intro arg_cong[where f = "map_option _"] find_cong) auto
  moreover have "landing_parse (bkey (w_rid W) r) (b_val r) = Inr (land (w_rid W) r)" if "find (reach W a) (w_rows W) = Some r" for r
    using W find_Some_first(1)[OF that] by (auto simp: walk_ok_def list_all_iff brow_ok_def parse_land)
  ultimately have ask: "bind_res (probe (probe_state it) (bound it) (bound_is_far it)) (\<lambda>(p, kv).
      case kv of None \<Rightarrow> Inr (it\<lparr>pending := None, probe_state := p\<rparr>, None)
      | Some (k, v) \<Rightarrow> map_res (\<lambda>l. (it\<lparr>pending := None, probe_state := p\<rparr>, Some l)) (landing_parse k v))
    = Inr (it\<lparr>pending := None, probe_state := p\<rparr>, map_option (land (w_rid W)) (find (reach W a) (w_rows W)))"
    using p(1) by (simp split: option.splits)
  show ?thesis
  proof (cases "\<exists>l. pending it = Some l \<and> bytes_le (bound it) (raw_key l)")
    case True
    then obtain r where r: "r \<in> set (w_rows W)" "pending it = Some (land (w_rid W) r)" "find (reach W a) (w_rows W) = Some r"
      "bytes_le (bound it) (raw_key (land (w_rid W) r))"
      using g reach_bytes[OF W a(1)] a(2) by (auto simp: good_def pending_ok_def land_def)
    then have "take_landing probe it = Inr (it\<lparr>pending := None, probe_state := probe_state it\<rparr>, Some (land (w_rid W) r))"
      by (simp add: take_landing_def)
    then show ?thesis using r(3) b0 by (intro exI[of _ "probe_state it"] exI[of _ b0]) simp
  next
    case False
    then have "take_landing probe it = Inr (it\<lparr>pending := None, probe_state := p\<rparr>,
        map_option (land (w_rid W)) (find (reach W a) (w_rows W)))"
      using ask by (auto simp: take_landing_def Let_def bytes_less_not_le split: option.splits)
    then show ?thesis using p(2) bytes_le_refl by blast
  qed
qed

definition outcome ::
  "ext \<Rightarrow> nat \<Rightarrow> (bytes \<Rightarrow> tuple option) \<Rightarrow> walk \<Rightarrow> spot \<Rightarrow> (tuple result option \<times> 'p bitemporal_iter) option \<Rightarrow> bool" where
  "outcome E n from_slice W a res \<longleftrightarrow>
     (\<exists>it'. res = Some (None, it') \<and> remaining W a = [])
     \<or> (\<exists>e it' rest. res = Some (Some (brow_tuple from_slice e), it') \<and> phase_of it' = Done \<and> remaining W a = e # rest
          \<and> (rest = [] \<or> isl (brow_tuple from_slice e)))
     \<or> (\<exists>e t a' it'. brow_tuple from_slice e = Inr t \<and> res = Some (Some (Inr t), it')
          \<and> remaining W a = e # remaining W a' \<and> good E n W a' it' \<and> work W a' < work W a)"

lemma outcome_earlier:
  assumes "outcome E n from_slice W a' res" "remaining W a' = remaining W a" "work W a' < work W a"
  shows "outcome E n from_slice W a res"
  using assms(1) less_trans[OF _ assms(3)] unfolding outcome_def assms(2) by blast

lemma step_good:
  assumes W: "walk_ok E n W" and g: "good E n W a it" and l: "find (reach W a) (w_rows W) = Some l"
    and t: "at_spot W (fst (move W a l)) p pd it'" "pd \<in> {None, Some (land (w_rid W) l)}"
    and p: "pinv p b" "bytes_le b (bound it)"
  shows "good E n W (fst (move W a l)) it'"
proof -
  let ?a' = "fst (move W a l)"
  have a: "spot_ok E n W a" "bound it = spot_bytes W a" using g by (auto simp: good_def at_spot_def)
  note a' = move_spot_ok[OF W a(1) l]
  have "bytes_le b (bound it')"
    using move_bytes[OF W a(1) l] p(2) a(2) t(1) bytes_le_trans by (simp add: at_spot_def)
  moreover have "find (reach W ?a') (w_rows W) = Some l" if "reach W ?a' l"
    using find_Some_first(4)[OF l, of "reach W ?a'"] move_reach[OF W a(1) l] that by blast
  then have "pending_ok W ?a' pd" using t(2) find_Some_first(1)[OF l] by (auto simp: pending_ok_def)
  ultimately show ?thesis using a' t(1) p(1) by (auto simp: good_def at_spot_def)
qed

lemma bit_next_outcome:
  assumes W: "walk_ok E n W" and es: "entries = map (\<lambda>r. (bkey (w_rid W) r, b_val r)) (w_rows W)"
  shows "good E n W a it \<Longrightarrow> work W a < fuel \<Longrightarrow> outcome E n from_slice W a (bit_next fuel E from_slice probe it)"
proof (induction fuel arbitrary: a it)
  case (Suc fuel)
  note g = Suc.prems(1)
  have ok: "ext_ok E" "\<And>r. r \<in> set (w_rows W) \<Longrightarrow> brow_ok E n r" using W by (auto simp: walk_ok_def list_all_iff)
  have a: "spot_ok E n W a" "phase_of it = phase_for W a" using g by (auto simp: good_def at_spot_def)
  have nd: "phase_of it \<noteq> Done" unfolding a(2) by (cases a) auto
  obtain p b where p: "take_landing probe it = Inr (it\<lparr>pending := None, probe_state := p\<rparr>,
      map_option (land (w_rid W)) (find (reach W a) (w_rows W)))" "pinv p b" "bytes_le b (bound it)"
    using take_landing_first[OF W es g] by blast
  let ?it = "it\<lparr>pending := None, probe_state := p\<rparr>"
  show ?case
  proof (cases "find (reach W a) (w_rows W)")
    case None
    note rem = remaining_end[OF W a(1) None]
    show ?thesis
    proof (cases "cand_of a")
      case no: None
      then have "bit_step E from_slice probe it = Return (Inr None) (?it\<lparr>phase_of := Done\<rparr>)"
        using p(1) None a(2) by (cases a) (auto simp: bit_step_def)
      then show ?thesis using nd rem no by (simp add: outcome_def)
    next
      case (Some c)
      then have c: "c \<in> set (w_rows W)" using rem unfolding remaining_def by (metis (mono_tags, lifting) filter_is_subset list.set_intros(1) option.simps(5) subsetD)
      have "bit_step E from_slice probe it = emit E from_slice (land (w_rid W) c) (?it\<lparr>phase_of := Done\<rparr>)"
        using p(1) None a(2) Some by (cases a) (auto simp: bit_step_def)
      then show ?thesis using nd rem Some into_row_land[OF ok(1) ok(2)[OF c]]
        by (cases "brow_tuple from_slice c") (auto simp: outcome_def emit_def)
    qed
  next
    case (Some l)
    have "at_spot W a p None ?it" using g by (auto simp: good_def at_spot_def)
    from landing_turn_move[OF W a(1) Some this, of from_slice]
    obtain it' pd where t: "at_spot W (fst (move W a l)) p pd it'" "pd \<in> {None, Some (land (w_rid W) l)}"
      "landing_turn E from_slice (phase_for W a) (land (w_rid W) l) ?it =
        (case snd (move W a l) of None \<Rightarrow> Continue it' | Some e \<Rightarrow> emit E from_slice (land (w_rid W) e) it')"
      unfolding turns_def by (elim exE conjE) (rule that)
    have step: "bit_step E from_slice probe it =
        (case snd (move W a l) of None \<Rightarrow> Continue it' | Some e \<Rightarrow> emit E from_slice (land (w_rid W) e) it')"
      using p(1) Some t(3) a(2) by (simp add: bit_step_def landing_turn_def)
    note good' = step_good[OF W g Some t(1,2) p(2,3)]
    note less = move_work[OF W a(1) Some]
    show ?thesis
    proof (cases "snd (move W a l)")
      case None
      then have "outcome E n from_slice W (fst (move W a l)) (bit_next fuel E from_slice probe it')"
        using Suc.IH[OF good'] less Suc.prems(2) by simp
      moreover have "bit_next (Suc fuel) E from_slice probe it = bit_next fuel E from_slice probe it'"
        using None nd step by simp
      ultimately show ?thesis
        using outcome_earlier[OF _ remaining_skip[OF W a(1) Some None] less] by metis
    next
      case e: (Some e)
      note em = move_emits[OF W a(1) Some e]
      note rem = remaining_emit[OF W em]
      have "e \<in> set (w_rows W)" using em by (simp add: emits_def)
      note row = into_row_land[OF ok(1) ok(2)[OF this]]
      show ?thesis
      proof (cases "brow_tuple from_slice e")
        case (Inl x)
        then show ?thesis using nd step e row rem by (auto simp: outcome_def emit_def)
      next
        case (Inr x)
        then have "bit_next (Suc fuel) E from_slice probe it = Some (Some (Inr x), it')"
          using nd step e row by (simp add: emit_def)
        then show ?thesis using Inr rem good' less unfolding outcome_def by blast
      qed
    qed
  qed
qed simp

lemma bit_collect_remaining:
  assumes W: "walk_ok E n W" and es: "entries = map (\<lambda>r. (bkey (w_rid W) r, b_val r)) (w_rows W)"
  shows "good E n W a it \<Longrightarrow> work W a < m \<Longrightarrow> work W a < fuel \<Longrightarrow>
    bit_collect m fuel E from_slice probe it = Some (until_err (map (brow_tuple from_slice) (remaining W a)))"
proof (induction m arbitrary: a it)
  case (Suc m)
  have fin: "bit_collect m fuel E from_slice probe it' = Some []" if "phase_of it' = Done" for it'
  proof -
    have "m \<noteq> 0" "fuel \<noteq> 0" using Suc.prems(2,3) rank_bounds(1)[of W a] by (auto simp: work_def)
    then show ?thesis using that by (cases m; cases fuel) simp_all
  qed
  have "outcome E n from_slice W a (bit_next fuel E from_slice probe it)"
    by (rule bit_next_outcome[OF W es Suc.prems(1,3)])
  then consider it' where "bit_next fuel E from_slice probe it = Some (None, it')" "remaining W a = []"
    | (last) e it' rest where "bit_next fuel E from_slice probe it = Some (Some (brow_tuple from_slice e), it')" "phase_of it' = Done"
        "remaining W a = e # rest" "rest = [] \<or> isl (brow_tuple from_slice e)"
    | (more) e t a' it' where "brow_tuple from_slice e = Inr t" "bit_next fuel E from_slice probe it = Some (Some (Inr t), it')"
        "remaining W a = e # remaining W a'" "good E n W a' it'" "work W a' < work W a"
    unfolding outcome_def by blast
  then show ?case
  proof cases
    case last
    then show ?thesis using fin[OF last(2)] by (cases "brow_tuple from_slice e") auto
  next
    case more
    then show ?thesis using Suc.IH[OF more(4)] Suc.prems by simp
  qed simp
qed simp

text \<open>The walk emits exactly the resolved rows.\<close>

lemma scan_resolved:
  assumes "walk_ok E n W" "entries = map (\<lambda>r. (bkey (w_rid W) r, b_val r)) (w_rows W)"
    and "pinv p (w_low W)" "4 * length (w_rows W) + 3 < fuel"
  shows "bit_collect fuel fuel E from_slice probe (bit_new p (w_low W) (w_vt W) (w_tt W)) =
    Some (until_err (map (brow_tuple from_slice) (filter (wanted W) (w_rows W))))"
proof -
  have "good E n W Start (bit_new p (w_low W) (w_vt W) (w_tt W))"
    using assms(3) bytes_le_refl by (auto simp: good_def at_spot_def bit_new_def pending_ok_def)
  moreover have "work W Start < fuel" using assms(4) by (simp add: work_def)
  ultimately show ?thesis
    using bit_collect_remaining[OF assms(1,2)] by (simp add: remaining_def live_def)
qed

end

section \<open>The default probe\<close>

lemma find_filter: "find P xs = (case filter P xs of [] \<Rightarrow> None | x # _ \<Rightarrow> Some x)"
  by (induction xs) auto

context store_tx
begin

lemma scan_suffix:
  assumes "inv tx" "bytes_le lo b" "bytes_le b hi" "range_scan tx lo hi = Some es"
  shows "range_scan tx b hi = Some (filter (\<lambda>e. bytes_le b (fst e)) es)"
proof -
  have lohi: "bytes_le lo hi" using assms(2,3) bytes_le_trans by blast
  have es: "bt_inv es" "bt_get es = (\<lambda>k. if in_range lo hi k then view tx k else None)"
    using scan_view[OF assms(1) lohi] assms(4) by auto
  obtain fs where fs: "range_scan tx b hi = Some fs" "bt_inv fs" "bt_get fs = (\<lambda>k. if in_range b hi k then view tx k else None)"
    using scan_view[OF assms(1,3)] by blast
  have "fs = filter (\<lambda>e. bytes_le b (fst e)) es"
  proof (rule bt_ext[OF fs(2) bt_inv_filter[OF es(1)]])
    have "in_range lo hi k \<and> bytes_le b k \<longleftrightarrow> in_range b hi k" for k
      using assms(2) bytes_le_trans by (auto simp: in_range_def)
    then show "bt_get fs = bt_get (filter (\<lambda>e. bytes_le b (fst e)) es)"
      unfolding fs(3) fun_eq_iff bt_get_filter es(2) by (auto simp del: bytes_not_le)
  qed
  then show ?thesis using fs(1) by simp
qed

lemma scan_probe_first:
  assumes "inv tx" "bytes_le lo hi" "bytes_le lo b"
  shows "scan_probe (range_scan tx) hi p b far = Inr ((), find (\<lambda>e. bytes_le b (fst e)) (the (range_scan tx lo hi)))"
proof -
  obtain es where es: "range_scan tx lo hi = Some es" "bt_get es = (\<lambda>k. if in_range lo hi k then view tx k else None)" "bt_inv es"
    using scan_view[OF assms(1,2)] by blast
  show ?thesis
  proof (cases "bytes_le hi b")
    case True
    have "\<not> bytes_le b k" if "(k, v) \<in> set es" for k v
      using scan_entries[OF assms(1,2) es(1)] that True bytes_less_le_trans bytes_less_not_le by (metis in_range_def)
    then have "find (\<lambda>e. bytes_le b (fst e)) es = None" by (auto simp: find_None_iff)
    then show ?thesis using True es(1) by (simp add: scan_probe_def)
  next
    case False
    then have "bytes_le b hi" using bytes_not_le bytes_less_imp_le by blast
    then show ?thesis
      using scan_suffix[OF assms(1,3) _ es(1)] False es(1)
      by (simp add: scan_probe_def find_filter split: list.splits)
  qed
qed

end

interpretation mem_probe: range_probe "scan_probe (mem_range_scan tx) upper"
  "\<lambda>_ b. mem_inv tx \<and> bytes_le lower upper \<and> bytes_le lower b" "the (mem_range_scan tx lower upper)"
  for tx lower upper
proof
  fix p b0 b far
  assume "mem_inv tx \<and> bytes_le lower upper \<and> bytes_le lower b0" "bytes_le b0 b"
  then show "\<exists>p'. scan_probe (mem_range_scan tx) upper p b far =
      Inr (p', find (\<lambda>e. bytes_le b (fst e)) (the (mem_range_scan tx lower upper)))
      \<and> mem_inv tx \<and> bytes_le lower upper \<and> bytes_le lower b"
    using mem.scan_probe_first bytes_le_trans by blast
qed

section \<open>The pinned cursor\<close>

text \<open>What is relied on of the RocksDB iterator: a seek stands on the first entry at or after the
  bound, \<open>next\<close> on the following entry, and \<open>pair\<close> reads the entry stood on.  \<open>rest\<close> are the entries
  from the current one on, \<open>es\<close> all of them.\<close>

definition db_iter_ok :: "'it db_ops \<Rightarrow> ('it \<Rightarrow> (bytes \<times> bytes) list) \<Rightarrow> (bytes \<times> bytes) list \<Rightarrow> bool" where
  "db_iter_ok db rest es \<longleftrightarrow> bt_inv es
     \<and> (\<forall>it. db_pair db it = Inr (case rest it of [] \<Rightarrow> None | e # _ \<Rightarrow> Some e))
     \<and> (\<forall>it b. rest (db_seek db it b) = filter (\<lambda>e. bytes_le b (fst e)) es)
     \<and> (\<forall>it e tl. rest it = e # tl \<longrightarrow> rest (db_next db it) = tl)"

definition below :: "bytes \<Rightarrow> (bytes \<times> bytes) list \<Rightarrow> (bytes \<times> bytes) option" where
  "below upper es = (case es of [] \<Rightarrow> None | (k, v) # _ \<Rightarrow> if bytes_le upper k then None else Some (k, v))"

text \<open>The remembered row is the entry the cursor stands on, and no entry lies between the last bound
  and it.\<close>

definition hybrid_inv ::
  "'it db_ops \<Rightarrow> ('it \<Rightarrow> (bytes \<times> bytes) list) \<Rightarrow> (bytes \<times> bytes) list \<Rightarrow> bytes \<Rightarrow> bytes \<Rightarrow> 'it hybrid_probe \<Rightarrow> bytes \<Rightarrow> bool" where
  "hybrid_inv db rest es lower upper h b \<longleftrightarrow> db_iter_ok db rest es \<and> bytes_le lower b \<and> upper_bound (cursor h) = upper
     \<and> (\<forall>row. last_row h = Some row \<longrightarrow> bytes_less (fst row) upper \<and>
          (\<exists>tl. rest (inner (cursor h)) = row # tl \<and> filter (\<lambda>e. bytes_le b (fst e)) es = row # tl))"

lemma below_first:
  assumes "bt_inv es" "bytes_le lower b"
  shows "below upper (filter (\<lambda>e. bytes_le b (fst e)) es) =
    find (\<lambda>e. bytes_le b (fst e)) (filter (\<lambda>e. in_range lower upper (fst e)) es)"
proof -
  let ?fs = "filter (\<lambda>e. bytes_le b (fst e)) es"
  have "filter (\<lambda>e. bytes_le b (fst e)) (filter (\<lambda>e. in_range lower upper (fst e)) es) = filter (\<lambda>e. bytes_less (fst e) upper) ?fs"
    using assms(2) bytes_le_trans unfolding filter_filter by (intro filter_cong) (auto simp: in_range_def)
  moreover have "below upper xs = (case filter (\<lambda>e. bytes_less (fst e) upper) xs of [] \<Rightarrow> None | x # _ \<Rightarrow> Some x)"
    if "bt_inv xs" for xs
  proof (cases xs)
    case (Cons x tl)
    show ?thesis
    proof (cases "bytes_le upper (fst x)")
      case True
      have "\<not> bytes_less (fst y) upper" if "y \<in> set xs" for y
      proof -
        have "y = x \<or> bytes_less (fst x) (fst y)" using that Cons \<open>bt_inv xs\<close> by (auto simp: bt_inv_def)
        then have "bytes_le upper (fst y)" using True bytes_le_trans bytes_less_imp_le by blast
        then show ?thesis using bytes_less_not_le by blast
      qed
      then have "filter (\<lambda>e. bytes_less (fst e) upper) xs = []" by (simp add: filter_empty_conv)
      then show ?thesis using Cons True by (cases x) (simp add: below_def)
    next
      case False
      then show ?thesis using Cons by (cases x) (simp add: below_def)
    qed
  qed (simp add: below_def)
  ultimately show ?thesis unfolding find_filter using bt_inv_filter[OF assms(1)] by simp
qed

lemma cursor_current_below: "db_iter_ok db rest es \<Longrightarrow> cursor_current db c = Inr (below (upper_bound c) (rest (inner c)))"
  by (auto simp: cursor_current_def db_iter_ok_def below_def split: list.splits)

lemma below_Some: "below upper es = Some row \<Longrightarrow> bytes_less (fst row) upper \<and> (\<exists>tl. es = row # tl)"
  by (auto simp: below_def split: list.splits if_splits)

lemma hybrid_seek_first:
  assumes "hybrid_inv db rest es lower upper h b0" "bytes_le b0 b"
  shows "\<exists>h'. hybrid_seek db h b = Inr (h', find (\<lambda>e. bytes_le b (fst e)) (filter (\<lambda>e. in_range lower upper (fst e)) es))
    \<and> hybrid_inv db rest es lower upper h' b"
proof -
  have ok: "db_iter_ok db rest es" "bytes_le lower b" "upper_bound (cursor h) = upper" "bt_inv es"
    using assms bytes_le_trans by (auto simp: hybrid_inv_def db_iter_ok_def)
  note first = below_first[OF ok(4,2), of upper, symmetric]
  show ?thesis
  proof (cases "bytes_le upper b")
    case True
    have "below upper (filter (\<lambda>e. bytes_le b (fst e)) es) = None"
    proof (cases "below upper (filter (\<lambda>e. bytes_le b (fst e)) es)")
      case (Some row)
      then obtain tl where "bytes_less (fst row) upper" "filter (\<lambda>e. bytes_le b (fst e)) es = row # tl"
        using below_Some by blast
      moreover from this(2) have "bytes_le b (fst row)" by (auto simp: filter_eq_Cons_iff)
      ultimately show ?thesis using True bytes_le_trans bytes_less_not_le by blast
    qed simp
    then show ?thesis using True ok unfolding first by (auto simp: hybrid_seek_def cursor_seek_def hybrid_inv_def)
  next
    case False
    let ?c = "(cursor h)\<lparr>inner := db_seek db (inner (cursor h)) b\<rparr>"
    have r: "rest (inner ?c) = filter (\<lambda>e. bytes_le b (fst e)) es" using ok(1) by (simp add: db_iter_ok_def)
    show ?thesis
      using False ok r cursor_current_below[OF ok(1), of ?c] below_Some[of upper "rest (inner ?c)"] unfolding first
      by (auto simp: hybrid_seek_def cursor_seek_def hybrid_inv_def Let_def bytes_less_not_le)
  qed
qed

lemma hybrid_probe_first:
  assumes inv: "hybrid_inv db rest es lower upper h b0" and b: "bytes_le b0 b"
  shows "\<exists>h'. hybrid_probe_at db h b far = Inr (h', find (\<lambda>e. bytes_le b (fst e)) (filter (\<lambda>e. in_range lower upper (fst e)) es))
    \<and> hybrid_inv db rest es lower upper h' b"
proof (cases "if primed h \<and> \<not> far then last_row h else None")
  case None
  then show ?thesis using hybrid_seek_first[OF inv b] by (simp add: hybrid_probe_at_def)
next
  case row: (Some row)
  have ok: "db_iter_ok db rest es" "bytes_le lower b" "upper_bound (cursor h) = upper" "bt_inv es"
    using inv b bytes_le_trans by (auto simp: hybrid_inv_def db_iter_ok_def)
  note first = below_first[OF ok(4,2), of upper, symmetric]
  obtain tl where tl: "last_row h = Some row" "rest (inner (cursor h)) = row # tl" "filter (\<lambda>e. bytes_le b0 (fst e)) es = row # tl"
    "bytes_less (fst row) upper"
  proof -
    have "last_row h = Some row" using row by (simp split: if_splits)
    then show ?thesis using inv that unfolding hybrid_inv_def by blast
  qed
  have suf: "filter (\<lambda>e. bytes_le b (fst e)) es = filter (\<lambda>e. bytes_le b (fst e)) (row # tl)"
    unfolding tl(3)[symmetric] filter_filter using b bytes_le_trans by (intro filter_cong) auto
  have "bt_inv (row # tl)" unfolding tl(3)[symmetric] by (rule bt_inv_filter[OF ok(4)])
  then have sorted: "\<forall>x \<in> set tl. bytes_less (fst row) (fst x)" "bt_inv tl" by (auto simp: bt_inv_def)
  show ?thesis
  proof (cases "bytes_le b (fst row)")
    case True
    have "filter (\<lambda>e. bytes_le b (fst e)) es = row # tl"
      unfolding suf using True sorted(1) bytes_le_trans bytes_less_imp_le by (fastforce simp: filter_id_conv)
    then show ?thesis
      using row True tl ok first inv
      by (cases row) (auto simp: hybrid_probe_at_def hybrid_inv_def below_def bytes_less_not_le)
  next
    case False
    let ?c = "(cursor h)\<lparr>inner := db_next db (inner (cursor h))\<rparr>"
    have r: "rest (inner ?c) = tl" using ok(1) tl(2) by (cases row) (simp add: db_iter_ok_def)
    have suf': "filter (\<lambda>e. bytes_le b (fst e)) es = filter (\<lambda>e. bytes_le b (fst e)) tl" using suf False by simp
    have step: "cursor_step db (cursor h) = (?c, Inr (below upper tl))"
      using cursor_current_below[OF ok(1), of ?c] r ok(3) by (simp add: cursor_step_def)
    show ?thesis
    proof (cases "below upper tl")
      case none: None
      have "below upper (filter (\<lambda>e. bytes_le b (fst e)) tl) = None"
      proof (cases "below upper (filter (\<lambda>e. bytes_le b (fst e)) tl)")
        case (Some x)
        then obtain xs where x: "bytes_less (fst x) upper" "filter (\<lambda>e. bytes_le b (fst e)) tl = x # xs"
          using below_Some by blast
        then have "x \<in> set tl" by (metis filter_is_subset list.set_intros(1) subsetD)
        then obtain y ys where y: "tl = y # ys" "y = x \<or> bytes_less (fst y) (fst x)"
          using sorted(2) by (cases tl) (auto simp: bt_inv_def)
        then have "bytes_less (fst y) upper" using x(1) bytes_less_trans by blast
        then show ?thesis using none y(1) by (cases y) (simp add: below_def bytes_less_not_le)
      qed simp
      then show ?thesis
        using row False step none ok first suf' by (cases row) (auto simp: hybrid_probe_at_def hybrid_inv_def bytes_less_not_le)
    next
      case (Some x)
      then obtain xs where x: "bytes_less (fst x) upper" "tl = x # xs" using below_Some by blast
      show ?thesis
      proof (cases "bytes_le b (fst x)")
        case True
        have "filter (\<lambda>e. bytes_le b (fst e)) tl = tl"
          using True sorted(2) x(2) bytes_le_trans bytes_less_imp_le by (auto simp: filter_id_conv bt_inv_def)
        then show ?thesis
          using row False step Some ok first suf' True x r
          by (cases row; cases x) (auto simp: hybrid_probe_at_def hybrid_inv_def bytes_less_not_le)
      next
        case under: False
        have "hybrid_inv db rest es lower upper (h\<lparr>cursor := ?c, last_row := None\<rparr>) b0"
          using inv by (auto simp: hybrid_inv_def)
        from hybrid_seek_first[OF this b] show ?thesis
          using row False step Some under
          by (cases row; cases x) (auto simp: hybrid_probe_at_def hybrid_seek_def bytes_less_not_le)
      qed
    qed
  qed
qed

interpretation rocks_probe: range_probe "hybrid_probe_at db" "hybrid_inv db rest es lower upper"
  "filter (\<lambda>e. in_range lower upper (fst e)) es"
  for db :: "'it db_ops" and rest es lower upper
  by unfold_locales (rule hybrid_probe_first)

section \<open>Properties\<close>

text \<open>A bitemporal relation in a store that may hold others.\<close>

definition holds_beliefs :: "ext \<Rightarrow> nat \<Rightarrow> u64 \<Rightarrow> (bytes \<times> bytes) list \<Rightarrow> belief_row list \<Rightarrow> bool" where
  "holds_beliefs E n rid es rows \<longleftrightarrow> list_all (brow_ok E n) rows
     \<and> es = map (\<lambda>r. (bkey rid r, b_val r)) rows"

lemma holds_walk_ok:
  assumes "ext_ok E" "holds_beliefs E n rid es rows" "bt_inv es" "\<forall>r \<in> set rows. bytes_le low (encode_as_key rid (b_key r))"
  shows "walk_ok E n \<lparr>w_rid = rid, w_low = low, w_vt = vt, w_tt = tt, w_rows = rows\<rparr>"
  using assms by (auto simp: walk_ok_def holds_beliefs_def bt_inv_def sorted_wrt_map list_all_iff comp_def)

lemma relation_low: "bytes_le (encode_as_key rid []) (encode_as_key rid k)"
  by (simp add: encode_as_key_def bytes_le_append)

lemma scan_all_resolved:
  assumes "ext_ok E" "rel_ok (rel_id h)" "relation_id_next (rel_id h) = Some nxt" "mem_inv (sess_store tx)"
    and "mem_range_scan (sess_store tx) (encode_as_key (rel_id h) []) (encode_as_key nxt []) = Some es"
    and "holds_beliefs E n (rel_id h) es rows" "4 * length rows + 3 < fuel"
  shows "bitemporal_scan_all fuel E from_slice h tx vt tt =
    Some (until_err (map (brow_tuple from_slice) (filter (resolved vt tt rows) rows)))"
proof -
  let ?lo = "encode_as_key (rel_id h) []" and ?hi = "encode_as_key nxt []"
  let ?W = "\<lparr>w_rid = rel_id h, w_low = ?lo, w_vt = vt, w_tt = tt, w_rows = rows\<rparr>"
  have nxt: "nxt = rel_id h + 1" using assms(3) by (simp add: relation_id_next_def relation_id_new_def split: if_splits)
  have le: "bytes_le ?lo ?hi" unfolding nxt by (rule relation_bounds[OF assms(2)])
  have "bt_inv es" using mem.scan_view[OF assms(4) le] assms(5) by auto
  then have "walk_ok E n ?W" using holds_walk_ok[OF assms(1,6)] relation_low by blast
  then show ?thesis
    using mem_probe.scan_resolved[where W = ?W and E = E and n = n and tx = "sess_store tx" and lower = ?lo
        and upper = ?hi and fuel = fuel and from_slice = from_slice and p = "()"] assms(3-7) le
    by (simp add: bitemporal_scan_all_def range_bitemporal_scan_tuple_def holds_beliefs_def bytes_le_refl)
qed

text \<open>C1. The bitemporal scan of a whole relation lists exactly the resolved rows in key order: at
  a transaction time alone, the belief about every valid time, retractions included; with a
  valid time, for every key the belief about the latest valid time not after it, if that is an
  assertion.  An undecodable value blob ends the scan with its error.  The walk terminates: for
  each call of \<open>next\<close>, four turns per stored row suffice.\<close>

theorem bitemporal_scan_exact:
  assumes "ext_ok E" "rel_ok (rel_id h)" "relation_id_next (rel_id h) = Some nxt" "mem_inv (sess_store tx)"
    and "mem_range_scan (sess_store tx) (encode_as_key (rel_id h) []) (encode_as_key nxt []) = Some es"
    and "holds_beliefs E n (rel_id h) es rows" "4 * length rows + 3 < fuel"
  shows "bitemporal_scan_all fuel E from_slice h tx vt tt =
    Some (until_err (map (brow_tuple from_slice) (filter (resolved vt tt rows) rows)))"
  using assms by (rule scan_all_resolved)

definition sample_belief :: "int \<Rightarrow> bool \<Rightarrow> int \<Rightarrow> belief_row" where
  "sample_belief v a t = \<lparr>b_key = [Null], b_vt = vld_at (of_int v) a, b_tt = of_int t, b_val = []\<rparr>"

text \<open>Recorded at 5 as valid from 20, withdrawn at 9; recorded at 3 as valid from 10.\<close>

definition sample_beliefs :: "belief_row list" where
  "sample_beliefs = [sample_belief 20 True 5, sample_belief 20 False 9, sample_belief 10 True 3]"

definition sample_store :: "(bytes \<times> bytes) list" where
  "sample_store = map (\<lambda>r. (bkey 1 r, b_val r)) sample_beliefs"

lemma sample_store_inv: "bt_inv sample_store"
  by (simp add: sample_store_def sample_beliefs_def sample_belief_def bt_inv_def bkey_def bpos_def bytes_less_def
      encode_as_key_def vld_at_def u64_enc.enc_cmp) (simp add: cmp_of_def)

lemma sample_store_range: "bt_range sample_store (encode_as_key 1 []) (encode_as_key 2 []) = Some sample_store"
proof -
  have "in_range (encode_as_key 1 []) (encode_as_key 2 []) (bkey 1 r)" for r
    using in_relation[of 1 1] by (simp add: bkey_def bpos_def rel_ok_def)
  then show ?thesis
    using relation_bounds[of 1] by (simp add: bt_range_spec rel_ok_def sample_store_def filter_id_conv)
qed

lemma sample_store_holds: "holds_beliefs sample_ext 1 1 sample_store sample_beliefs"
  by (simp add: holds_beliefs_def sample_store_def sample_beliefs_def sample_belief_def brow_ok_def)

lemmas sample_eval = sample_beliefs_def sample_belief_def resolved_def believed_def overrides_def vld_at_def
  brow_tuple_def try_extend_tuple_from_v_def

theorem bitemporal_scan_exact_witness:
  "bitemporal_scan_all 20 sample_ext (\<lambda>_. None) sample_keyed \<lparr>sess_store = Reader sample_store, sess_temp = []\<rparr> (Some 25) 7
     = Some [Inr [Null, Validity (vld_at 20 True), Validity (vld_at 5 True)]]
   \<and> bitemporal_scan_all 20 sample_ext (\<lambda>_. None) sample_keyed \<lparr>sess_store = Reader sample_store, sess_temp = []\<rparr> (Some 25) 9
     = Some []"
proof -
  have "bitemporal_scan_all 20 sample_ext (\<lambda>_. None) sample_keyed \<lparr>sess_store = Reader sample_store, sess_temp = []\<rparr> vt tt
      = Some (until_err (map (brow_tuple (\<lambda>_. None)) (filter (resolved vt tt sample_beliefs) sample_beliefs)))" for vt tt
    using sample_store_inv sample_store_range sample_store_holds
    by (intro bitemporal_scan_exact[where n = 1 and es = sample_store and nxt = 2])
      (simp_all add: sample_handle_def rel_ok_def relation_id_next_def relation_id_new_def sample_beliefs_def)
  then show ?thesis by (simp add: sample_eval)
qed

text \<open>C15. The scan through one pinned RocksDB iterator, which reuses the last row or steps forward
  before it seeks, gives the same rows as the scan that opens a fresh range for every probe.\<close>

theorem hybrid_probe_equivalent:
  assumes "ext_ok E" "db_iter_ok db rest es" "bytes_le lower upper"
    and "holds_beliefs E n rid (filter (\<lambda>e. in_range lower upper (fst e)) es) rows"
    and "\<forall>r \<in> set rows. bytes_le lower (encode_as_key rid (b_key r))" "4 * length rows + 3 < fuel"
  shows "rocks_bitemporal_scan_tuple fuel E from_slice db it lower upper vt tt =
    range_bitemporal_scan_tuple fuel E from_slice (mem_range_scan (Reader es)) lower upper vt tt"
proof -
  let ?W = "\<lparr>w_rid = rid, w_low = lower, w_vt = vt, w_tt = tt, w_rows = rows\<rparr>"
  let ?es = "filter (\<lambda>e. in_range lower upper (fst e)) es"
  have inv: "bt_inv es" using assms(2) by (simp add: db_iter_ok_def)
  have W: "walk_ok E n ?W" by (rule holds_walk_ok[OF assms(1,4) bt_inv_filter[OF inv] assms(5)])
  have range: "mem_range_scan (Reader es) lower upper = Some ?es" using assms(3) by (simp add: bt_range_spec)
  have "rocks_bitemporal_scan_tuple fuel E from_slice db it lower upper vt tt =
      Some (until_err (map (brow_tuple from_slice) (filter (wanted ?W) (w_rows ?W))))"
    using rocks_probe.scan_resolved[where W = ?W and db = db and rest = rest and es = es and lower = lower and upper = upper
        and p = "hybrid_new \<lparr>inner = it, upper_bound = upper\<rparr>", OF W, of fuel from_slice] assms(2,4,6)
    by (simp add: rocks_bitemporal_scan_tuple_def holds_beliefs_def hybrid_inv_def hybrid_new_def)
  moreover have "range_bitemporal_scan_tuple fuel E from_slice (mem_range_scan (Reader es)) lower upper vt tt =
      Some (until_err (map (brow_tuple from_slice) (filter (wanted ?W) (w_rows ?W))))"
    using mem_probe.scan_resolved[where W = ?W and tx = "Reader es" and lower = lower and upper = upper and p = "()",
        OF W, of fuel from_slice] assms(3,4,6) inv range
    by (simp add: range_bitemporal_scan_tuple_def holds_beliefs_def)
  ultimately show ?thesis by simp
qed

definition list_iter :: "(bytes \<times> bytes) list \<Rightarrow> (bytes \<times> bytes) list db_ops" where
  "list_iter es = \<lparr>db_seek = \<lambda>_ b. filter (\<lambda>e. bytes_le b (fst e)) es, db_next = tl,
     db_pair = \<lambda>it. Inr (case it of [] \<Rightarrow> None | e # _ \<Rightarrow> Some e)\<rparr>"

theorem hybrid_probe_equivalent_witness:
  "rocks_bitemporal_scan_tuple 20 sample_ext (\<lambda>_. None) (list_iter sample_store) [] (encode_as_key 1 []) (encode_as_key 2 []) (Some 25) 7 =
   range_bitemporal_scan_tuple 20 sample_ext (\<lambda>_. None) (mem_range_scan (Reader sample_store)) (encode_as_key 1 []) (encode_as_key 2 []) (Some 25) 7"
proof (rule hybrid_probe_equivalent[where rest = id and n = 1 and rid = 1 and rows = sample_beliefs])
  have le: "bytes_le (encode_as_key 1 []) (encode_as_key 2 [])" using relation_bounds[of 1] by (simp add: rel_ok_def)
  then have "filter (\<lambda>e. in_range (encode_as_key 1 []) (encode_as_key 2 []) (fst e)) sample_store = sample_store"
    using sample_store_range by (simp add: bt_range_spec)
  then show "holds_beliefs sample_ext 1 1 (filter (\<lambda>e. in_range (encode_as_key 1 []) (encode_as_key 2 []) (fst e)) sample_store) sample_beliefs"
    using sample_store_holds by simp
  show "bytes_le (encode_as_key 1 []) (encode_as_key 2 [])" by (rule le)
qed (use sample_store_inv relation_low in \<open>auto simp: db_iter_ok_def list_iter_def sample_beliefs_def\<close>)

lemma group_has_belief:
  assumes "s \<in> set rows" "tts s \<le> sint tt"
  shows "\<exists>e \<in> set rows. b_key e = b_key s \<and> vts e = vts s \<and> believed tt rows e"
proof -
  let ?S = "{r \<in> set rows. b_key r = b_key s \<and> vts r = vts s \<and> tts r \<le> sint tt}"
  let ?f = "\<lambda>r. 2 * tts r + (if asrt r then 1 else 0)"
  have S: "finite (?f ` ?S)" "?f ` ?S \<noteq> {}" using assms by auto
  then obtain e where "e \<in> ?S" "?f e = Max (?f ` ?S)" using Max_in by (metis (no_types, lifting) imageE)
  then have e: "e \<in> ?S" "\<forall>r \<in> ?S. ?f r \<le> ?f e" using Max_ge[OF S(1)] by auto
  have "\<not> overrides r e" if "r \<in> set rows" "tts r \<le> sint tt" for r
  proof
    assume o: "overrides r e"
    then have "?f r \<le> ?f e" using that e by (auto simp: overrides_def)
    then show False using o by (auto simp: overrides_def split: if_splits)
  qed
  then show ?thesis using e(1) by (auto simp: believed_def list_ex_iff)
qed

definition version_of :: "belief_row \<Rightarrow> version" where
  "version_of r = (b_key r, b_vt r, b_val r)"

lemma newer_validity_cmp: "validity_cmp v w = Less \<longleftrightarrow> newer v w"
  by (cases v; cases w) (auto simp: validity_cmp_def newer_def then_with_eq_Less cmp_of_def sint_inj split: if_splits)

lemma resolved_visible:
  assumes "r \<in> set rows" "believed tt rows r"
  shows "resolved (Some v) tt rows r \<longleftrightarrow> asrt r \<and> vts r \<le> sint v \<and>
    \<not> shadowed v (map version_of (filter (believed tt rows) rows)) (version_of r)"
proof -
  let ?later = "\<lambda>s. b_key s = b_key r \<and> vts r < vts s \<and> vts s \<le> sint v"
  have "(\<exists>s \<in> set rows. ?later s \<and> tts s \<le> sint tt) \<longleftrightarrow> (\<exists>s \<in> set rows. ?later s \<and> believed tt rows s)" (is "?x \<longleftrightarrow> ?y")
  proof
    assume ?x
    then obtain s where "s \<in> set rows" "?later s" "tts s \<le> sint tt" by blast
    then show ?y using group_has_belief[of s rows tt] by metis
  qed (auto simp: believed_def)
  moreover have "shadowed v (map version_of (filter (believed tt rows) rows)) (version_of r) \<longleftrightarrow> ?y" if "asrt r"
    using that by (auto simp: shadowed_def list_ex_iff version_of_def valid_by_def newer_validity_cmp newer_def)
  ultimately show ?thesis using assms by (auto simp: resolved_def list_ex_iff)
qed

lemma resolved_twice:
  "map version_of (filter (resolved (Some v) tt rows) rows) =
     visible_rows v (map version_of (filter (resolved None tt rows) rows))"
proof -
  have "resolved None tt rows = believed tt rows" by (simp add: resolved_def fun_eq_iff)
  then have "visible_rows v (map version_of (filter (resolved None tt rows) rows)) =
      map version_of (filter (\<lambda>r. believed tt rows r \<and> asrt r \<and> vts r \<le> sint v
        \<and> \<not> shadowed v (map version_of (filter (believed tt rows) rows)) (version_of r)) rows)"
    by (simp add: visible_rows_def filter_map comp_def version_of_def valid_by_def filter_filter conj_ac)
  also have "\<dots> = map version_of (filter (resolved (Some v) tt rows) rows)"
    using resolved_visible[of _ rows tt v] by (intro arg_cong[where f = "map _"] filter_cong) (auto simp: resolved_def)
  finally show ?thesis by simp
qed

text \<open>C28. Reading a relation at a valid time and a transaction time is reading twice: first the
  beliefs at the transaction time, then the snapshot of that table at the valid time, with the
  snapshot semantics of relations that have a valid-time axis only.\<close>

theorem bitemporal_read_composes:
  assumes "ext_ok E" "rel_ok (rel_id h)" "relation_id_next (rel_id h) = Some nxt" "mem_inv (sess_store tx)"
    and "mem_range_scan (sess_store tx) (encode_as_key (rel_id h) []) (encode_as_key nxt []) = Some es"
    and "holds_beliefs E n (rel_id h) es rows" "4 * length rows + 3 < fuel"
  shows "\<exists>beliefs snapshot.
    bitemporal_scan_all fuel E from_slice h tx None tt = Some (until_err (map (brow_tuple from_slice) beliefs))
    \<and> bitemporal_scan_all fuel E from_slice h tx (Some v) tt = Some (until_err (map (brow_tuple from_slice) snapshot))
    \<and> set beliefs \<subseteq> set rows \<and> map version_of snapshot = visible_rows v (map version_of beliefs)"
  using scan_all_resolved[OF assms, of from_slice None tt] scan_all_resolved[OF assms, of from_slice "Some v" tt]
    resolved_twice[of v tt rows]
  by (intro exI[of _ "filter (resolved None tt rows) rows"] exI[of _ "filter (resolved (Some v) tt rows) rows"]) simp

theorem bitemporal_read_composes_witness:
  "\<exists>beliefs snapshot.
    bitemporal_scan_all 20 sample_ext (\<lambda>_. None) sample_keyed \<lparr>sess_store = Reader sample_store, sess_temp = []\<rparr> None 7
      = Some (until_err (map (brow_tuple (\<lambda>_. None)) beliefs))
    \<and> bitemporal_scan_all 20 sample_ext (\<lambda>_. None) sample_keyed \<lparr>sess_store = Reader sample_store, sess_temp = []\<rparr> (Some 15) 7
      = Some (until_err (map (brow_tuple (\<lambda>_. None)) snapshot))
    \<and> set beliefs \<subseteq> set sample_beliefs \<and> map version_of snapshot = visible_rows 15 (map version_of beliefs)"
  using sample_store_inv sample_store_range sample_store_holds
  by (intro bitemporal_read_composes[where n = 1 and es = sample_store and nxt = 2])
    (simp_all add: sample_handle_def rel_ok_def relation_id_next_def relation_id_new_def sample_beliefs_def)

section \<open>Prefix scans\<close>

lemma resolved_local:
  assumes "P (b_key r)"
  shows "resolved vt tt (filter (\<lambda>s. P (b_key s)) rows) r \<longleftrightarrow> resolved vt tt rows r"
proof -
  have "believed tt (filter (\<lambda>s. P (b_key s)) rows) r \<longleftrightarrow> believed tt rows r"
    using assms by (auto simp: believed_def overrides_def list_ex_iff)
  then show ?thesis using assms by (auto simp: resolved_def list_ex_iff split: option.splits)
qed

context store_tx
begin

lemma scan_subrange:
  assumes "inv tx" "range_scan tx lo hi = Some es" "bytes_le lo lo'" "bytes_le lo' hi'" "bytes_le hi' hi"
  shows "range_scan tx lo' hi' = Some (filter (\<lambda>e. in_range lo' hi' (fst e)) es)"
proof -
  have "bytes_le lo hi" using assms(3-5) bytes_le_trans by blast
  then have es: "bt_inv es" "bt_get es = (\<lambda>k. if in_range lo hi k then view tx k else None)"
    using scan_view[OF assms(1)] assms(2) by fastforce+
  obtain fs where fs: "range_scan tx lo' hi' = Some fs" "bt_inv fs" "bt_get fs = (\<lambda>k. if in_range lo' hi' k then view tx k else None)"
    using scan_view[OF assms(1,4)] by blast
  have "in_range lo hi k" if "in_range lo' hi' k" for k
    using that assms(3,5) bytes_le_trans bytes_less_le_trans unfolding in_range_def by blast
  then have "bt_get fs = bt_get (filter (\<lambda>e. in_range lo' hi' (fst e)) es)"
    unfolding fs(3) fun_eq_iff bt_get_filter[where P = "in_range lo' hi'"] es(2) by auto
  then show ?thesis using fs(1,2) bt_ext bt_inv_filter[OF es(1)] by metis
qed

end

text \<open>C29. The bitemporal scan of a key prefix lists exactly the resolved rows of the relation whose
  key begins with the prefix.\<close>

theorem bitemporal_scan_prefix_exact:
  assumes "ext_ok E" "rel_ok (rel_id h)" "mem_inv (sess_store tx)"
    and "mem_range_scan (sess_store tx) (encode_as_key (rel_id h) []) (encode_as_key (rel_id h + 1) []) = Some es"
    and "holds_beliefs E n (rel_id h) es rows" "4 * length rows + 3 < fuel"
    and "wf_tuple E pre" "length pre \<le> n" "n \<le> length (keys (metadata h))" "\<forall>r \<in> set rows. Bot \<notin> set (b_key r)"
  shows "bitemporal_scan_prefix fuel E from_slice h tx pre vt tt =
    Some (until_err (map (brow_tuple from_slice)
      (filter (\<lambda>r. resolved vt tt rows r \<and> take (length pre) (b_key r) = pre) rows)))"
proof -
  let ?rid = "rel_id h" and ?P = "\<lambda>k. take (length pre) k = pre"
  let ?lo = "encode_as_key ?rid pre" and ?hi = "encode_as_key ?rid (pre @ [Bot])"
  let ?rows = "filter (\<lambda>r. ?P (b_key r)) rows"
  let ?W = "\<lparr>w_rid = ?rid, w_low = ?lo, w_vt = vt, w_tt = tt, w_rows = ?rows\<rparr>"
  have ends: "bytes_le (encode_as_key ?rid []) ?lo" "bytes_le ?lo ?hi" "bytes_le ?hi (encode_as_key (?rid + 1) [])"
    using relation_low prefix_bounds in_relation[OF assms(2), of ?rid "pre @ [Bot]"] bytes_less_imp_le
    by (auto simp: in_range_def)
  have iff: "in_range ?lo ?hi (bkey ?rid r) \<longleftrightarrow> ?P (b_key r)" if "r \<in> set rows" for r
    using prefix_range[OF assms(1,7), of "b_key r @ [Validity (b_vt r), Validity (vld_at (b_tt r) True)]" ?rid]
      that assms(5,8,10) by (auto simp: holds_beliefs_def list_all_iff brow_ok_def bkey_def bpos_def)
  have "filter (\<lambda>e. in_range ?lo ?hi (fst e)) es = map (\<lambda>r. (bkey ?rid r, b_val r)) ?rows"
    using assms(5) iff unfolding holds_beliefs_def filter_map comp_def fst_conv
    by (simp add: filter_map comp_def cong: filter_cong)
  then have scan: "mem_range_scan (sess_store tx) ?lo ?hi = Some (map (\<lambda>r. (bkey ?rid r, b_val r)) ?rows)"
    using mem.scan_subrange[OF assms(3,4) ends] by simp
  have h: "holds_beliefs E n ?rid (map (\<lambda>r. (bkey ?rid r, b_val r)) ?rows) ?rows"
    using assms(5) by (auto simp: holds_beliefs_def list_all_iff)
  have "bytes_le ?lo (encode_as_key ?rid (b_key r))" if "r \<in> set ?rows" for r
  proof -
    have "b_key r = pre @ drop (length pre) (b_key r)" using that append_take_drop_id[of "length pre" "b_key r"] by simp
    then show ?thesis using encode_as_key_append bytes_le_append by metis
  qed
  then have W: "walk_ok E n ?W"
    using holds_walk_ok[OF assms(1) h] mem.scan_view[OF assms(3) ends(2)] scan by auto
  have "filter (wanted ?W) ?rows = filter (\<lambda>r. resolved vt tt rows r \<and> ?P (b_key r)) rows"
    using resolved_local[of ?P] unfolding filter_filter by (intro filter_cong) auto
  then show ?thesis
    using mem_probe.scan_resolved[where W = ?W and E = E and n = n and tx = "sess_store tx" and lower = ?lo
        and upper = ?hi and fuel = fuel and from_slice = from_slice and p = "()", OF W] assms(3,6,8,9) scan ends(2)
      le_less_trans[OF _ assms(6), of "4 * length ?rows + 3"] length_filter_le
    by (simp add: bitemporal_scan_prefix_def range_bitemporal_scan_tuple_def)
qed

theorem bitemporal_scan_prefix_exact_witness:
  "bitemporal_scan_prefix 20 sample_ext (\<lambda>_. None) sample_keyed \<lparr>sess_store = Reader sample_store, sess_temp = []\<rparr> [Null] (Some 25) 7
     = Some [Inr [Null, Validity (vld_at 20 True), Validity (vld_at 5 True)]]"
proof -
  have "bitemporal_scan_prefix 20 sample_ext (\<lambda>_. None) sample_keyed \<lparr>sess_store = Reader sample_store, sess_temp = []\<rparr> [Null] (Some 25) 7
      = Some (until_err (map (brow_tuple (\<lambda>_. None))
          (filter (\<lambda>r. resolved (Some 25) 7 sample_beliefs r \<and> take (length [Null]) (b_key r) = [Null]) sample_beliefs)))"
    using sample_store_inv sample_store_range sample_store_holds
    by (intro bitemporal_scan_prefix_exact[where n = 1 and es = sample_store])
      (simp_all add: sample_handle_def rel_ok_def sample_beliefs_def sample_belief_def)
  then show ?thesis by (simp add: sample_eval)
qed

end
