(* ===== verification/Commit.thy ===== *)
theory Commit
  imports Relations
begin

text \<open>The transaction-time clock (\<open>runtime/tt_clock.rs\<close>) and the commit path of session transactions
  (\<open>runtime/transact.rs\<close>): allocation of transaction times, also by callers that race, stamping of
  the buffered rows, the persisted high-water mark, and the opening of a store.\<close>

section \<open>The clock\<close>

definition SYSTEM :: u64 where [simp]: "SYSTEM = 0"

definition tt_hwm_key :: bytes where
  "tt_hwm_key = encode_as_key SYSTEM [Null, Str (map of_char ''TT_HWM'')]"

definition imax :: "i64 \<Rightarrow> i64 \<Rightarrow> i64" where
  "imax a b = (if sint a \<le> sint b then b else a)"

definition saturating_add_1 :: "i64 \<Rightarrow> i64" where
  "saturating_add_1 a = (if a = I64_MAX then a else a + 1)"

text \<open>\<open>now\<close> is the wall clock.\<close>

definition seed :: "i64 option \<Rightarrow> i64 \<Rightarrow> i64 \<Rightarrow> i64" where
  "seed persisted now hwm = imax hwm (imax (unwrap_or 0 persisted) now)"

definition candidate :: "i64 \<Rightarrow> i64 \<Rightarrow> i64" where
  "candidate now lst = imax now (saturating_add_1 lst)"

text \<open>Without contention the loop runs once.\<close>

definition advance_with_now :: "i64 \<Rightarrow> i64 \<Rightarrow> i64 \<times> i64" where
  "advance_with_now now hwm = (let c = candidate now hwm in (c, c))"

text \<open>The loop of racing callers: a caller loads the mark, and its exchange succeeds only if the
  mark is still the one it loaded; it may also fail for no reason.\<close>

record 't clock_state =
  mark :: i64
  loaded :: "'t \<Rightarrow> (i64 \<times> i64) option"
  allocated :: "('t \<times> i64) list"

inductive clock_step :: "'t clock_state \<Rightarrow> 't clock_state \<Rightarrow> bool" where
  load: "loaded s t = None \<Longrightarrow> clock_step s (s\<lparr>loaded := (loaded s)(t \<mapsto> (mark s, now))\<rparr>)"
| exchange: "loaded s t = Some (mark s, now) \<Longrightarrow>
    clock_step s (s\<lparr>mark := candidate now (mark s), loaded := (loaded s)(t := None),
      allocated := allocated s @ [(t, candidate now (mark s))]\<rparr>)"
| failure: "loaded s t = Some (lst, now) \<Longrightarrow> clock_step s (s\<lparr>loaded := (loaded s)(t := None)\<rparr>)"

section \<open>Buffered writes\<close>

record pending_tt_write =
  pw_handle :: relation_handle
  pw_rows :: "tuple list"
  pw_is_retract :: bool

text \<open>\<open>len() - 1\<close> underflows on a relation without key columns.\<close>

definition kpos_of :: "pending_tt_write \<Rightarrow> nat result" where
  "kpos_of w = (let n = length (keys (metadata (pw_handle w))) in if n = 0 then Inl Panic else Inr (n - 1))"

definition is_bitemporal :: "pending_tt_write \<Rightarrow> nat \<Rightarrow> bool" where
  "is_bitemporal w kpos \<longleftrightarrow> 1 \<le> kpos \<and> coltype (typing (keys (metadata (pw_handle w)) ! (kpos - 1))) = CValidity"

text \<open>The logical key a row speaks about and whether it asserts it; \<open>None\<close> for a row that is skipped.\<close>

definition norm_key :: "pending_tt_write \<Rightarrow> nat \<Rightarrow> tuple \<Rightarrow> ((u64 \<times> bytes) \<times> bool) option result" where
  "norm_key w kpos row =
     (if is_bitemporal w kpos then
        if length row \<le> kpos - 1 then Inl Panic
        else (case row ! (kpos - 1) of
                Validity v \<Rightarrow>
                  if length row < kpos then Inl Panic
                  else Inr (Some ((rel_id (pw_handle w),
                      encode_partial_key_for_store (pw_handle w)
                        ((take kpos row)[kpos - 1 := Validity \<lparr>timestamp = timestamp v, is_assert = True\<rparr>])),
                    is_assert v))
              | _ \<Rightarrow> Inr None)
      else if length row < kpos then Inl Panic
      else Inr (Some ((rel_id (pw_handle w), encode_partial_key_for_store (pw_handle w) (take kpos row)),
                      \<not> pw_is_retract w)))"

type_synonym seen = "u64 \<times> bytes \<Rightarrow> bool option"

fun check_rows :: "pending_tt_write \<Rightarrow> nat \<Rightarrow> tuple list \<Rightarrow> seen \<Rightarrow> seen result" where
  "check_rows w kpos [] m = Inr m"
| "check_rows w kpos (row # rows) m =
     bind_res (norm_key w kpos row) (\<lambda>x.
       case x of
         None \<Rightarrow> check_rows w kpos rows m
       | Some (k, flag) \<Rightarrow>
           if m k = Some (\<not> flag) then Inl TtAssertRetractConflict
           else check_rows w kpos rows (m(k \<mapsto> flag)))"

fun check_writes :: "pending_tt_write list \<Rightarrow> seen \<Rightarrow> seen result" where
  "check_writes [] m = Inr m"
| "check_writes (w # ws) m =
     bind_res (kpos_of w) (\<lambda>kpos. bind_res (check_rows w kpos (pw_rows w) m) (check_writes ws))"

definition tt_value :: "pending_tt_write \<Rightarrow> nat \<Rightarrow> i64 \<Rightarrow> data_value" where
  "tt_value w kpos tt = Validity \<lparr>timestamp = tt, is_assert = \<not> pw_is_retract w \<or> is_bitemporal w kpos\<rparr>"

definition stamp_row :: "pending_tt_write \<Rightarrow> nat \<Rightarrow> i64 \<Rightarrow> tuple \<Rightarrow> tuple" where
  "stamp_row w kpos tt row = take kpos row @ [tt_value w kpos tt] @ drop kpos row"

fun put_rows ::
  "(tuple \<Rightarrow> bytes) \<Rightarrow> pending_tt_write \<Rightarrow> nat \<Rightarrow> i64 \<Rightarrow> tuple list \<Rightarrow> mem_tx \<Rightarrow> mem_tx result" where
  "put_rows to_vec w kpos tt [] st = Inr st"
| "put_rows to_vec w kpos tt (row # rows) st =
     (if length row < kpos then Inl Panic
      else let row' = stamp_row w kpos tt row
           in bind_res (encode_key_for_store (pw_handle w) row') (\<lambda>key.
              bind_res (encode_val_for_store to_vec (pw_handle w) row') (\<lambda>val.
              bind_res (mem_put st key val) (put_rows to_vec w kpos tt rows))))"

fun put_writes :: "(tuple \<Rightarrow> bytes) \<Rightarrow> i64 \<Rightarrow> pending_tt_write list \<Rightarrow> mem_tx \<Rightarrow> mem_tx result" where
  "put_writes to_vec tt [] st = Inr st"
| "put_writes to_vec tt (w # ws) st =
     bind_res (kpos_of w) (\<lambda>kpos. bind_res (put_rows to_vec w kpos tt (pw_rows w) st) (put_writes to_vec tt ws))"

definition stamp_pending_tt_writes ::
  "(tuple \<Rightarrow> bytes) \<Rightarrow> i64 \<Rightarrow> pending_tt_write list \<Rightarrow> mem_tx \<Rightarrow> mem_tx result" where
  "stamp_pending_tt_writes to_vec tt writes st =
     bind_res (check_writes writes Map.empty) (\<lambda>_. put_writes to_vec tt writes st)"

section \<open>Commit and open\<close>

text \<open>The mark advances even when the rest fails.\<close>

definition commit_tx_with_tt ::
  "(tuple \<Rightarrow> bytes) \<Rightarrow> i64 \<Rightarrow> i64 \<Rightarrow> pending_tt_write list \<Rightarrow> mem_tx \<Rightarrow> i64 \<times> (mem_tx \<times> i64) result" where
  "commit_tx_with_tt to_vec now hwm writes st =
     (case advance_with_now now hwm of
        (hwm', tt) \<Rightarrow>
          (hwm', bind_res (stamp_pending_tt_writes to_vec tt writes st) (\<lambda>st1.
                 bind_res (mem_put st1 tt_hwm_key (write_u64 tt)) (\<lambda>st2. Inr (mem_commit st2, tt)))))"

definition commit_tx_inner ::
  "(tuple \<Rightarrow> bytes) \<Rightarrow> i64 \<Rightarrow> i64 \<Rightarrow> pending_tt_write list \<Rightarrow> bool \<Rightarrow> mem_tx \<Rightarrow> i64 \<times> mem_tx result" where
  "commit_tx_inner to_vec now hwm writes tt_hwm_dirty st =
     (if writes \<noteq> [] \<or> tt_hwm_dirty
      then (case commit_tx_with_tt to_vec now hwm writes st of (hwm', r) \<Rightarrow> (hwm', map_res fst r))
      else (hwm, Inr (mem_commit st)))"

definition read_persisted_tt_hwm :: "mem_tx \<Rightarrow> i64 option result" where
  "read_persisted_tt_hwm st =
     (case mem_get st tt_hwm_key of
        None \<Rightarrow> Inr None
      | Some v \<Rightarrow>
          if length v \<noteq> 8 then Inl CorruptTtHwm
          else if sint (read_u64 v) < 0 then Inl CorruptTtHwm
          else Inr (Some (read_u64 v)))"

definition storage_version_key :: bytes where
  "storage_version_key = encode_as_key SYSTEM [Null, Str (map of_char ''STORAGE_VERSION'')]"

definition CURRENT_STORAGE_VERSION :: bytes where
  "CURRENT_STORAGE_VERSION = [0]"

text \<open>The relation id counter that the store was left with.\<close>

definition init_storage :: "mem_tx \<Rightarrow> (mem_tx \<times> u64) result" where
  "init_storage st =
     (let t_encoded = encode_as_key SYSTEM [Null]
      in case mem_get st t_encoded of
           None \<Rightarrow>
             bind_res (mem_put st storage_version_key CURRENT_STORAGE_VERSION) (\<lambda>st1.
             bind_res (mem_put st1 t_encoded (write_u64 0)) (\<lambda>st2. Inr (st2, SYSTEM)))
         | Some found \<Rightarrow>
             (case mem_get st storage_version_key of
                None \<Rightarrow> Inl StorageUnversioned
              | Some v \<Rightarrow>
                  if v \<noteq> CURRENT_STORAGE_VERSION then Inl StorageVersionMismatch
                  else map_res (Pair st) (ok_or Panic (raw_decode found))))"

section \<open>Allocation\<close>

lemma sint_imax: "sint (imax a b) = max (sint a) (sint b)"
  by (simp add: imax_def)

lemma sint_I64_MAX: "sint I64_MAX = 2 ^ 63 - 1"
  by (simp add: I64_MAX_def)

lemma sint_succ:
  assumes "sint (a :: i64) \<noteq> 2 ^ 63 - 1"
  shows "sint (a + 1) = sint a + 1"
proof -
  have "- (2 ^ 63) \<le> sint a" "sint a < 2 ^ 63" using sint_i64_bounds[of a] by auto
  then have "- (2 ^ 63) \<le> sint a + 1" "sint a + 1 < 2 ^ 63" using assms by auto
  then have "signed_take_bit 63 (sint a + 1) = sint a + 1" by (intro signed_take_bit_int_eq_self) simp_all
  then show ?thesis by (simp add: sint_word_ariths)
qed

lemma sint_saturating: "sint (saturating_add_1 a) = min (2 ^ 63 - 1) (sint a + 1)"
proof (cases "a = I64_MAX")
  case True
  then show ?thesis by (simp add: saturating_add_1_def sint_I64_MAX)
next
  case False
  then have ne: "sint a \<noteq> 2 ^ 63 - 1" using sint_I64_MAX by (metis signed_word_eqI)
  moreover have "sint a < 2 ^ 63" using sint_i64_bounds[of a] by auto
  ultimately show ?thesis using False sint_succ[OF ne] by (simp add: saturating_add_1_def)
qed

lemma candidate_ge: "sint lst \<le> sint (candidate now lst)"
proof -
  have "sint lst < 2 ^ 63" using sint_i64_bounds[of lst] by auto
  then show ?thesis by (simp add: candidate_def sint_imax sint_saturating)
qed

lemma candidate_later: "candidate now lst \<noteq> I64_MAX \<Longrightarrow> sint lst < sint (candidate now lst)"
proof -
  assume "candidate now lst \<noteq> I64_MAX"
  then have "sint (candidate now lst) \<noteq> 2 ^ 63 - 1" using sint_I64_MAX by (metis signed_word_eqI)
  moreover have "sint lst < 2 ^ 63" using sint_i64_bounds[of lst] by auto
  ultimately show ?thesis by (auto simp: candidate_def sint_imax sint_saturating max_def min_def split: if_splits)
qed

text \<open>At the last instant allocation stops advancing.\<close>

lemma candidate_saturates: "candidate now I64_MAX = I64_MAX"
proof -
  have "sint now \<le> sint I64_MAX" using sint_i64_bounds[of now] by (auto simp: sint_I64_MAX)
  then show ?thesis by (simp add: candidate_def saturating_add_1_def imax_def)
qed

text \<open>All that has been allocated, in order, is below the mark.\<close>

definition clock_inv :: "'t clock_state \<Rightarrow> bool" where
  "clock_inv s \<longleftrightarrow> list_all (\<lambda>(_, tt). sint tt \<le> sint (mark s)) (allocated s)
     \<and> (list_all (\<lambda>(_, tt). tt \<noteq> I64_MAX) (allocated s) \<longrightarrow> sorted_wrt (\<lambda>(_, a) (_, b). sint a < sint b) (allocated s))"

lemma clock_inv_step: "clock_step s s' \<Longrightarrow> clock_inv s \<Longrightarrow> clock_inv s'"
proof (induction rule: clock_step.induct)
  case (exchange s t now)
  then show ?case
    using candidate_ge[of "mark s" now] candidate_later[of now "mark s"]
    by (fastforce simp: clock_inv_def list_all_iff sorted_wrt_append)
qed (simp_all add: clock_inv_def)

lemma clock_inv_reachable: "clock_step\<^sup>*\<^sup>* s s' \<Longrightarrow> clock_inv s \<Longrightarrow> clock_inv s'"
  by (induction rule: rtranclp_induct) (auto intro: clock_inv_step)

lemma increasing_distinct: "sorted_wrt (\<lambda>(_, a) (_, b). sint (a :: i64) < sint b) xs \<Longrightarrow> distinct (map snd xs)"
  by (induction xs) fastforce+

section \<open>Stamping\<close>

text \<open>The entry of a row: under its own key columns followed by the transaction time, the columns that
  are not part of the key.  A tt-only relation notes a retraction beside the transaction time.\<close>

definition entry_of :: "(tuple \<Rightarrow> bytes) \<Rightarrow> i64 \<Rightarrow> pending_tt_write \<Rightarrow> tuple \<Rightarrow> bytes \<times> bytes" where
  "entry_of to_vec tt w row =
     (let ks = keys (metadata (pw_handle w)); n = length ks - 1; rid = rel_id (pw_handle w);
          bitemporal = (1 \<le> n \<and> coltype (typing (ks ! (n - 1))) = CValidity)
      in (encode_as_key rid (take n row @ [Validity \<lparr>timestamp = tt, is_assert = (pw_is_retract w \<longrightarrow> bitemporal)\<rparr>]),
          write_u64 rid @ to_vec (drop n row)))"

definition entries_of :: "(tuple \<Rightarrow> bytes) \<Rightarrow> i64 \<Rightarrow> pending_tt_write list \<Rightarrow> (bytes \<times> bytes) list" where
  "entries_of to_vec tt ws = concat (map (\<lambda>w. map (entry_of to_vec tt w) (pw_rows w)) ws)"

lemma mem_view_put: "mem_view (Writer s (bt_insert k (Some v) c)) = (mem_view (Writer s c))(k \<mapsto> v)"
  by (auto simp: fun_eq_iff bt_get_insert)

lemma stamped_entry:
  assumes "kpos_of w = Inr n" "n \<le> length row"
    and "encode_key_for_store (pw_handle w) (stamp_row w n tt row) = Inr key"
    and "encode_val_for_store to_vec (pw_handle w) (stamp_row w n tt row) = Inr val"
  shows "(key, val) = entry_of to_vec tt w row"
proof -
  have len: "length (keys (metadata (pw_handle w))) = Suc n" using assms(1) by (auto simp: kpos_of_def Let_def split: if_splits)
  have "take (Suc n) (stamp_row w n tt row) = take n row @ [tt_value w n tt]" "drop (Suc n) (stamp_row w n tt row) = drop n row"
    using assms(2) by (simp_all add: stamp_row_def)
  then show ?thesis
    using assms(3,4) len
    by (auto simp: entry_of_def encode_key_for_store_def encode_val_for_store_def encode_key_prefix_def encode_as_key_def
        tt_value_def is_bitemporal_def Let_def split: if_splits)
qed

lemma put_rows_contents:
  assumes "kpos_of w = Inr n" "put_rows to_vec w n tt rows (Writer s c) = Inr st" "bt_inv c"
  shows "\<exists>c'. st = Writer s c' \<and> bt_inv c'
    \<and> mem_view st = mem_view (Writer s c) ++ map_of (rev (map (entry_of to_vec tt w) rows))"
  using assms(2,3)
proof (induction rows arbitrary: c)
  case (Cons row rows)
  then obtain key val where kv: "n \<le> length row" "encode_key_for_store (pw_handle w) (stamp_row w n tt row) = Inr key"
    "encode_val_for_store to_vec (pw_handle w) (stamp_row w n tt row) = Inr val"
    "put_rows to_vec w n tt rows (Writer s (bt_insert key (Some val) c)) = Inr st"
    by (auto simp: Let_def bind_res_eq_Inr split: if_splits)
  then have "entry_of to_vec tt w row = (key, val)" using stamped_entry[OF assms(1)] by metis
  then have "mem_view (Writer s c) ++ map_of (rev (map (entry_of to_vec tt w) (row # rows))) =
      mem_view (Writer s (bt_insert key (Some val) c)) ++ map_of (rev (map (entry_of to_vec tt w) rows))"
    unfolding mem_view_put by (simp del: mem_view.simps)
  then show ?case
    using Cons.IH[OF kv(4) bt_inv_insert[OF Cons.prems(2)]] by (simp only:)
qed auto

lemma put_writes_contents:
  assumes "put_writes to_vec tt ws (Writer s c) = Inr st" "bt_inv c"
  shows "\<exists>c'. st = Writer s c' \<and> bt_inv c'
    \<and> mem_view st = mem_view (Writer s c) ++ map_of (rev (entries_of to_vec tt ws))"
  using assms
proof (induction ws arbitrary: c)
  case (Cons w ws)
  then obtain n st1 where st1: "kpos_of w = Inr n" "put_rows to_vec w n tt (pw_rows w) (Writer s c) = Inr st1"
    "put_writes to_vec tt ws st1 = Inr st"
    by (auto simp: bind_res_eq_Inr)
  obtain c1 where c1: "st1 = Writer s c1" "bt_inv c1"
    "mem_view st1 = mem_view (Writer s c) ++ map_of (rev (map (entry_of to_vec tt w) (pw_rows w)))"
    using put_rows_contents[OF st1(1,2) Cons.prems(2)] by auto
  show ?case
    using Cons.IH[OF st1(3)[unfolded c1(1)] c1(2)] c1(1,3) by (auto simp: entries_of_def map_of_append simp del: mem_view.simps)
qed (auto simp: entries_of_def)

text \<open>The conflict check on the list of keys and flags it sees.\<close>

fun check_claims :: "('k \<times> bool) list \<Rightarrow> ('k \<Rightarrow> bool option) \<Rightarrow> ('k \<Rightarrow> bool option) option" where
  "check_claims [] m = Some m"
| "check_claims ((k, f) # cs) m = (if m k = Some (\<not> f) then None else check_claims cs (m(k \<mapsto> f)))"

lemma check_claims_None:
  "check_claims cs m = None \<longleftrightarrow> (\<exists>k f. (k, f) \<in> set cs \<and> (m k = Some (\<not> f) \<or> (k, \<not> f) \<in> set cs))"
proof (induction cs m rule: check_claims.induct)
  case (2 k f cs m)
  show ?case
  proof (cases "m k = Some (\<not> f)")
    case False
    then have IH: "check_claims ((k, f) # cs) m = None \<longleftrightarrow>
        (\<exists>k' f'. (k', f') \<in> set cs \<and> ((m(k \<mapsto> f)) k' = Some (\<not> f') \<or> (k', \<not> f') \<in> set cs))"
      using 2[OF False] by (simp only: check_claims.simps if_False)
    have m: "m k = None \<or> m k = Some f" using False by (cases "m k") auto
    show ?thesis unfolding IH
    proof
      assume "\<exists>k' f'. (k', f') \<in> set cs \<and> ((m(k \<mapsto> f)) k' = Some (\<not> f') \<or> (k', \<not> f') \<in> set cs)"
      then obtain k' f' where h: "(k', f') \<in> set cs" "(m(k \<mapsto> f)) k' = Some (\<not> f') \<or> (k', \<not> f') \<in> set cs" by blast
      then show "\<exists>k' f'. (k', f') \<in> set ((k, f) # cs) \<and> (m k' = Some (\<not> f') \<or> (k', \<not> f') \<in> set ((k, f) # cs))"
        by (intro exI[of _ k'] exI[of _ f']) (auto split: if_splits)
    next
      assume "\<exists>k' f'. (k', f') \<in> set ((k, f) # cs) \<and> (m k' = Some (\<not> f') \<or> (k', \<not> f') \<in> set ((k, f) # cs))"
      then obtain k' f' where h: "(k', f') \<in> set ((k, f) # cs)" "m k' = Some (\<not> f') \<or> (k', \<not> f') \<in> set ((k, f) # cs)" by blast
      then consider "(k', f') = (k, f)" "(k, \<not> f) \<in> set cs" | "(k', f') \<in> set cs" using m by fastforce
      then show "\<exists>k' f'. (k', f') \<in> set cs \<and> ((m(k \<mapsto> f)) k' = Some (\<not> f') \<or> (k', \<not> f') \<in> set cs)"
        using h m by cases (fastforce split: if_splits)+
    qed
  qed auto
qed simp

definition claims :: "(pending_tt_write \<Rightarrow> tuple \<Rightarrow> ((u64 \<times> bytes) \<times> bool) option) \<Rightarrow> pending_tt_write list \<Rightarrow> ((u64 \<times> bytes) \<times> bool) list" where
  "claims nk ws = concat (map (\<lambda>w. List.map_filter (nk w) (pw_rows w)) ws)"

lemma check_rows_claims:
  assumes "\<forall>row \<in> set rows. norm_key w kpos row = Inr (nk row)"
  shows "check_rows w kpos rows m =
    (case check_claims (List.map_filter nk rows) m of None \<Rightarrow> Inl TtAssertRetractConflict | Some m' \<Rightarrow> Inr m')"
  using assms by (induction rows arbitrary: m) (auto simp: map_filter_simps split: option.splits)

lemma check_claims_append: "check_claims (xs @ ys) m = (case check_claims xs m of None \<Rightarrow> None | Some m' \<Rightarrow> check_claims ys m')"
  by (induction xs arbitrary: m) auto

lemma check_writes_claims:
  assumes "\<forall>w \<in> set ws. \<exists>kpos. kpos_of w = Inr kpos \<and> (\<forall>row \<in> set (pw_rows w). norm_key w kpos row = Inr (nk w row))"
  shows "check_writes ws m =
    (case check_claims (claims nk ws) m of None \<Rightarrow> Inl TtAssertRetractConflict | Some m' \<Rightarrow> Inr m')"
  using assms
proof (induction ws arbitrary: m)
  case (Cons w ws)
  then obtain kpos where "kpos_of w = Inr kpos" "\<forall>row \<in> set (pw_rows w). norm_key w kpos row = Inr (nk w row)" by auto
  then show ?case
    using Cons check_rows_claims[of "pw_rows w" w kpos "nk w" m]
    by (auto simp: claims_def check_claims_append split: option.splits)
qed (simp add: claims_def)

lemma bind_res_eq_Inl: "bind_res r f = Inl e \<longleftrightarrow> r = Inl e \<or> (\<exists>x. r = Inr x \<and> f x = Inl e)"
  by (cases r) auto

lemma put_rows_no_conflict: "put_rows to_vec w kpos tt rows st \<noteq> Inl TtAssertRetractConflict"
proof (induction rows arbitrary: st)
  case (Cons row rows)
  then show ?case
    by (cases st) (auto simp: Let_def encode_key_for_store_def encode_val_for_store_def bind_res_eq_Inl split: if_splits)
qed simp

lemma put_writes_no_conflict: "put_writes to_vec tt ws st \<noteq> Inl TtAssertRetractConflict"
proof (induction ws arbitrary: st)
  case (Cons w ws)
  then show ?case using put_rows_no_conflict[of to_vec w _ tt "pw_rows w" st]
    by (auto simp: kpos_of_def Let_def bind_res_eq_Inl split: if_splits)
qed simp

lemma conflict_claims:
  assumes "\<forall>w \<in> set ws. \<exists>kpos. kpos_of w = Inr kpos \<and> (\<forall>row \<in> set (pw_rows w). norm_key w kpos row = Inr (nk w row))"
  shows "stamp_pending_tt_writes to_vec tt ws st = Inl TtAssertRetractConflict \<longleftrightarrow>
    (\<exists>w \<in> set ws. \<exists>row \<in> set (pw_rows w). \<exists>w' \<in> set ws. \<exists>row' \<in> set (pw_rows w'). \<exists>k.
       nk w row = Some (k, True) \<and> nk w' row' = Some (k, False))"
proof -
  have a: "check_claims (claims nk ws) Map.empty = None \<longleftrightarrow> (\<exists>k. (k, True) \<in> set (claims nk ws) \<and> (k, False) \<in> set (claims nk ws))"
  proof -
    have "(\<exists>k f. (k, f) \<in> set (claims nk ws) \<and> (k, \<not> f) \<in> set (claims nk ws)) \<longleftrightarrow>
        (\<exists>k. (k, True) \<in> set (claims nk ws) \<and> (k, False) \<in> set (claims nk ws))" for k
      unfolding ex_bool_eq by (simp only: not_True_eq_False not_False_eq_True) blast
    then show ?thesis unfolding check_claims_None by (simp only: option.distinct simp_thms)
  qed
  have b: "(k, f) \<in> set (claims nk ws) \<longleftrightarrow> (\<exists>w \<in> set ws. \<exists>row \<in> set (pw_rows w). nk w row = Some (k, f))" for k f
    by (auto simp: claims_def set_map_filter)
  have c: "stamp_pending_tt_writes to_vec tt ws st = Inl TtAssertRetractConflict \<longleftrightarrow> check_claims (claims nk ws) Map.empty = None"
    using check_writes_claims[OF assms, of Map.empty] put_writes_no_conflict[of to_vec tt ws st]
    by (auto simp: stamp_pending_tt_writes_def bind_res_eq_Inl split: option.splits)
  show ?thesis unfolding c a b by blast
qed

text \<open>What a commit with a transaction time leaves in the store; it includes the mark.\<close>

lemma commit_contents:
  assumes "commit_tx_with_tt to_vec now hwm ws (Writer s c) = (hwm', Inr (st, tt))" "bt_inv s" "bt_inv c"
  shows "hwm' = tt" "tt = candidate now hwm"
    "\<exists>s'. st = Writer s' [] \<and> bt_inv s'
      \<and> bt_get s' = (mem_view (Writer s c) ++ map_of (rev (entries_of to_vec tt ws)))(tt_hwm_key \<mapsto> write_u64 tt)"
proof -
  have a: "hwm' = candidate now hwm" "tt = candidate now hwm" and
    r: "bind_res (stamp_pending_tt_writes to_vec tt ws (Writer s c)) (\<lambda>st1.
        bind_res (mem_put st1 tt_hwm_key (write_u64 tt)) (\<lambda>st2. Inr (mem_commit st2, tt))) = Inr (st, tt)"
    using assms(1) by (auto simp: commit_tx_with_tt_def advance_with_now_def Let_def bind_res_eq_Inr)
  then show "hwm' = tt" "tt = candidate now hwm" by simp_all
  obtain st1 where st1: "put_writes to_vec tt ws (Writer s c) = Inr st1"
      "bind_res (mem_put st1 tt_hwm_key (write_u64 tt)) (\<lambda>st2. Inr (mem_commit st2, tt)) = Inr (st, tt)"
    using r by (auto simp: bind_res_eq_Inr stamp_pending_tt_writes_def)
  obtain c' where c': "st1 = Writer s c'" "bt_inv c'"
      "mem_view st1 = mem_view (Writer s c) ++ map_of (rev (entries_of to_vec tt ws))"
    using put_writes_contents[OF st1(1) assms(3)] by blast
  let ?c = "bt_insert tt_hwm_key (Some (write_u64 tt)) c'"
  have st: "st = mem_commit (Writer s ?c)" using st1(2) c'(1) by simp
  have "bt_get (fold commit_change ?c s) = mem_view (Writer s ?c)" "bt_inv (fold commit_change ?c s)"
    using commit_changes[of ?c s] assms(2) bt_inv_insert[OF c'(2)] by auto
  then show "\<exists>s'. st = Writer s' [] \<and> bt_inv s'
      \<and> bt_get s' = (mem_view (Writer s c) ++ map_of (rev (entries_of to_vec tt ws)))(tt_hwm_key \<mapsto> write_u64 tt)"
    using st c'(1,3) unfolding mem_view_put by (simp del: mem_view.simps)
qed

lemma commit_persists:
  assumes "commit_tx_with_tt to_vec now hwm ws (Writer s c) = (hwm', Inr (st, tt))" "bt_inv s" "bt_inv c"
  shows "\<exists>s'. st = Writer s' [] \<and> bt_inv s' \<and> bt_get s' tt_hwm_key = Some (write_u64 tt)"
  using commit_contents(3)[OF assms] by auto

section \<open>Facts\<close>

text \<open>What a row speaks about, the relation, the key and, of a bitemporal relation, the valid time, and
  whether it asserts or retracts it.  A bitemporal row says so itself; of a tt-only relation the
  statement does.\<close>

definition row_fact :: "pending_tt_write \<Rightarrow> tuple \<Rightarrow> ((u64 \<times> tuple \<times> i64 option) \<times> bool) option" where
  "row_fact w row =
     (let ks = keys (metadata (pw_handle w)); n = length ks - 1; rid = rel_id (pw_handle w)
      in if 1 \<le> n \<and> coltype (typing (ks ! (n - 1))) = CValidity
         then (case row ! (n - 1) of
                 Validity v \<Rightarrow> Some ((rid, take (n - 1) row, Some (timestamp v)), is_assert v)
               | _ \<Rightarrow> None)
         else Some ((rid, take n row, None), \<not> pw_is_retract w))"

fun fact_tuple :: "u64 \<times> tuple \<times> i64 option \<Rightarrow> tuple" where
  "fact_tuple (rid, t, None) = t"
| "fact_tuple (rid, t, Some ts) = t @ [Validity \<lparr>timestamp = ts, is_assert = True\<rparr>]"

definition fact_key :: "u64 \<times> tuple \<times> i64 option \<Rightarrow> u64 \<times> bytes" where
  "fact_key f = (fst f, encode_as_key (fst f) (fact_tuple f))"

lemma take_update_last: "0 < n \<Longrightarrow> n \<le> length xs \<Longrightarrow> (take n xs)[n - 1 := x] = take (n - 1) xs @ [x]"
  by (cases n) (auto simp: take_Suc_conv_app_nth list_update_append)

lemma row_fact_alt:
  assumes "n = length (keys (metadata (pw_handle w))) - 1"
  shows "row_fact w row =
    (if is_bitemporal w n
     then (case row ! (n - 1) of
             Validity v \<Rightarrow> Some ((rel_id (pw_handle w), take (n - 1) row, Some (timestamp v)), is_assert v)
           | _ \<Rightarrow> None)
     else Some ((rel_id (pw_handle w), take n row, None), \<not> pw_is_retract w))"
  unfolding row_fact_def Let_def is_bitemporal_def assms ..

lemma encode_partial_key_relation: "encode_partial_key_for_store h t = encode_as_key (rel_id h) t"
  by (simp add: encode_partial_key_for_store_def encode_key_prefix_def encode_as_key_def)

lemma norm_key_fact:
  assumes "kpos_of w = Inr n" "n \<le> length row"
  shows "norm_key w n row = Inr (map_option (map_prod fact_key id) (row_fact w row))"
proof -
  have n: "n = length (keys (metadata (pw_handle w))) - 1" using assms(1) by (auto simp: kpos_of_def Let_def split: if_splits)
  show ?thesis
  proof (cases "is_bitemporal w n")
    case True
    then have "0 < n" by (simp add: is_bitemporal_def)
    then have "(take n row)[n - 1 := x] = take (n - 1) row @ [x]" "\<not> length row \<le> n - 1" for x
      using take_update_last[of n row] assms(2) by auto
    then show ?thesis
      using True assms(2) unfolding row_fact_alt[OF n] norm_key_def encode_partial_key_relation
      by (cases "row ! (n - 1)") (simp_all add: fact_key_def)
  next
    case False
    then show ?thesis
      using assms(2) unfolding row_fact_alt[OF n] norm_key_def encode_partial_key_relation by (simp add: fact_key_def)
  qed
qed

lemma row_fact_shape:
  assumes "row_fact w row = Some (f, b)" "n = length (keys (metadata (pw_handle w))) - 1"
  shows "if is_bitemporal w n then \<exists>ts. f = (rel_id (pw_handle w), take (n - 1) row, Some ts)
    else f = (rel_id (pw_handle w), take n row, None)"
  using assms(1) unfolding row_fact_alt[OF assms(2)] by (cases "is_bitemporal w n"; cases "row ! (n - 1)") auto

lemma row_fact_tuple:
  assumes "row_fact w row = Some (f, b)" "wf_tuple E (take (length (keys (metadata (pw_handle w))) - 1) row)"
  shows "wf_tuple E (fact_tuple f)"
proof -
  have "set (take (m - 1) row) \<subseteq> set (take m row)" for m by (rule set_take_subset_set_take) simp
  then have "wf_tuple E (take (length (keys (metadata (pw_handle w))) - 1 - 1) row)"
    using assms(2) unfolding list_all_iff by blast
  then show ?thesis using row_fact_shape[OF assms(1) refl] assms(2) by (auto split: if_splits)
qed

lemma row_fact_inj:
  assumes "ext_ok E" "row_fact w row = Some (f, b)" "row_fact w' row' = Some (f', b')"
    and "wf_tuple E (take (length (keys (metadata (pw_handle w))) - 1) row)"
      "wf_tuple E (take (length (keys (metadata (pw_handle w'))) - 1) row')"
    and "rel_id (pw_handle w) = rel_id (pw_handle w') \<Longrightarrow> metadata (pw_handle w) = metadata (pw_handle w')"
    and "fact_key f = fact_key f'"
  shows "f = f'"
proof -
  have r: "fst f = fst f'" and "encode_as_key (fst f) (fact_tuple f) = encode_as_key (fst f') (fact_tuple f')"
    using assms(7) by (auto simp: fact_key_def)
  then have t: "fact_tuple f = fact_tuple f'"
    using decode_encode_as_key[OF assms(1)] row_fact_tuple[OF assms(2,4)] row_fact_tuple[OF assms(3,5)] by (metis option.inject)
  note s = row_fact_shape[OF assms(2) refl] row_fact_shape[OF assms(3) refl]
  have "fst f = rel_id (pw_handle w)" "fst f' = rel_id (pw_handle w')" using s by (auto split: if_splits)
  then have "metadata (pw_handle w) = metadata (pw_handle w')" using r assms(6) by simp
  then show ?thesis using r t s by (auto simp: is_bitemporal_def split: if_splits)
qed

section \<open>A database over time\<close>

record db =
  db_store :: "bytes btree"
  db_hwm :: i64

text \<open>Commits with and without a transaction time, failed commits, which burn a time, and opening the
  store again; the label is the transaction time that became visible.  \<open>c\<close> are a transaction's own
  writes, never of the mark's key.\<close>

inductive db_step :: "(tuple \<Rightarrow> bytes) \<Rightarrow> db \<Rightarrow> i64 option \<Rightarrow> db \<Rightarrow> bool" for to_vec where
  commit: "bt_inv c \<Longrightarrow> commit_tx_with_tt to_vec now (db_hwm d) ws (Writer (db_store d) c) = (hwm', Inr (Writer s' [], tt)) \<Longrightarrow>
    db_step to_vec d (Some tt) \<lparr>db_store = s', db_hwm = hwm'\<rparr>"
| failed: "commit_tx_with_tt to_vec now (db_hwm d) ws (Writer (db_store d) c) = (hwm', Inl e) \<Longrightarrow>
    db_step to_vec d None (d\<lparr>db_hwm := hwm'\<rparr>)"
| plain: "bt_inv c \<Longrightarrow> bt_get c tt_hwm_key = None \<Longrightarrow> mem_commit (Writer (db_store d) c) = Writer s' [] \<Longrightarrow>
    db_step to_vec d None (d\<lparr>db_store := s'\<rparr>)"
| reopen: "read_persisted_tt_hwm (Reader (db_store d)) = Inr p \<Longrightarrow> db_step to_vec d None (d\<lparr>db_hwm := seed p now 0\<rparr>)"

inductive db_run :: "(tuple \<Rightarrow> bytes) \<Rightarrow> db \<Rightarrow> i64 list \<Rightarrow> db \<Rightarrow> bool" for to_vec where
  stay: "db_run to_vec d [] d"
| silent: "db_run to_vec d log d1 \<Longrightarrow> db_step to_vec d1 None d2 \<Longrightarrow> db_run to_vec d log d2"
| visible: "db_run to_vec d log d1 \<Longrightarrow> db_step to_vec d1 (Some tt) d2 \<Longrightarrow> db_run to_vec d (log @ [tt]) d2"

definition db_inv :: "db \<Rightarrow> i64 list \<Rightarrow> bool" where
  "db_inv d log \<longleftrightarrow> bt_inv (db_store d) \<and> 0 \<le> sint (db_hwm d)
     \<and> (\<forall>tt \<in> set log. 0 < sint tt \<and> sint tt \<le> sint (db_hwm d))
     \<and> (\<forall>tt \<in> set log. \<exists>p. read_persisted_tt_hwm (Reader (db_store d)) = Inr (Some p) \<and> sint tt \<le> sint p)
     \<and> (I64_MAX \<notin> set log \<longrightarrow> sorted_wrt (\<lambda>a b. sint a < sint b) log)"

lemma persisted_mark:
  "bt_get s tt_hwm_key = Some (write_u64 tt) \<Longrightarrow> 0 \<le> sint tt \<Longrightarrow> read_persisted_tt_hwm (Reader s) = Inr (Some tt)"
  by (simp add: read_persisted_tt_hwm_def)

lemma persisted_same:
  "bt_get s tt_hwm_key = bt_get s' tt_hwm_key \<Longrightarrow> read_persisted_tt_hwm (Reader s) = read_persisted_tt_hwm (Reader s')"
  by (simp add: read_persisted_tt_hwm_def)

lemma candidate_pos: "0 \<le> sint lst \<Longrightarrow> 0 < sint (candidate now lst)"
  using sint_i64_bounds[of lst] by (auto simp: candidate_def sint_imax sint_saturating)

lemma db_inv_commit:
  assumes "bt_inv c" "commit_tx_with_tt to_vec now (db_hwm d) ws (Writer (db_store d) c) = (hwm', Inr (Writer s' [], tt))"
    and inv: "db_inv d log"
  shows "db_inv \<lparr>db_store = s', db_hwm = hwm'\<rparr> (log @ [tt])"
proof -
  have d: "bt_inv (db_store d)" "0 \<le> sint (db_hwm d)" using inv by (auto simp: db_inv_def)
  note p = commit_contents(1,2)[OF assms(2) d(1) assms(1)] commit_persists[OF assms(2) d(1) assms(1)]
  have tt: "0 < sint tt" "sint (db_hwm d) \<le> sint tt"
    using p(2) candidate_pos[OF d(2)] candidate_ge by auto
  have "read_persisted_tt_hwm (Reader s') = Inr (Some tt)" "bt_inv s'"
    using p(3) tt persisted_mark by auto
  moreover have "sint a < sint tt" if "a \<in> set log" "I64_MAX \<notin> set (log @ [tt])" for a
    using that inv candidate_later[of now "db_hwm d"] p(2) by (fastforce simp: db_inv_def)
  ultimately show ?thesis
    using inv tt p(1) by (fastforce simp: db_inv_def sorted_wrt_append)
qed

lemma db_inv_silent:
  assumes "db_step to_vec d None d'" "db_inv d log"
  shows "db_inv d' log"
  using assms
proof (cases rule: db_step.cases)
  case (failed now ws c hwm' e)
  then have "hwm' = candidate now (db_hwm d)"
    by (auto simp: commit_tx_with_tt_def advance_with_now_def Let_def)
  then show ?thesis
    using failed assms(2) candidate_ge[of "db_hwm d" now] by (force simp: db_inv_def)
next
  case (plain c s')
  have "bt_inv s'" "bt_get s' tt_hwm_key = bt_get (db_store d) tt_hwm_key"
    using plain commit_changes[of c "db_store d"] assms(2) by (auto simp: db_inv_def)
  then show ?thesis
    using plain assms(2) persisted_same[of s' "db_store d"] by (auto simp: db_inv_def)
next
  case (reopen p now)
  have "0 \<le> sint (seed p now 0)" "\<And>m. p = Some m \<Longrightarrow> sint m \<le> sint (seed p now 0)"
    by (auto simp: seed_def sint_imax unwrap_or_def)
  then show ?thesis using reopen assms(2) by (fastforce simp: db_inv_def)
qed

lemma db_inv_run: "db_run to_vec d log d' \<Longrightarrow> db_inv d [] \<Longrightarrow> db_inv d' log"
proof (induction rule: db_run.induct)
  case (silent d log d1 d2)
  then show ?case using db_inv_silent by blast
next
  case (visible d log d1 tt d2)
  then show ?case by (auto elim!: db_step.cases intro: db_inv_commit)
qed

section \<open>Properties\<close>

text \<open>C6. Transaction times order commits: whatever the wall clock does, and across failed commits
  and reopening of the store, the transaction times that become visible are strictly increasing as
  long as none reaches the last representable instant, and the mark read from the store at the
  next opening is at least every one of them.\<close>

theorem tt_order_is_commit_order:
  assumes "db_run to_vec \<lparr>db_store = [], db_hwm = seed None now 0\<rparr> log d"
  shows "(I64_MAX \<notin> set log \<longrightarrow> sorted_wrt (\<lambda>a b. sint a < sint b) log)
    \<and> (\<forall>tt \<in> set log. sint tt \<le> sint (db_hwm d)
         \<and> (\<exists>p. read_persisted_tt_hwm (Reader (db_store d)) = Inr (Some p) \<and> sint tt \<le> sint p))"
proof -
  have "db_inv \<lparr>db_store = [], db_hwm = seed None now 0\<rparr> []"
    by (simp add: db_inv_def bt_inv_def seed_def sint_imax unwrap_or_def)
  then show ?thesis using db_inv_run[OF assms] by (auto simp: db_inv_def)
qed

theorem tt_order_is_commit_order_witness:
  "\<exists>d. db_run (\<lambda>_. []) \<lparr>db_store = [], db_hwm = seed None 4 0\<rparr> [5] d \<and>
     (\<exists>p. read_persisted_tt_hwm (Reader (db_store d)) = Inr (Some p) \<and> sint (5 :: i64) \<le> sint p)"
proof -
  let ?d = "\<lparr>db_store = [], db_hwm = seed None 4 0\<rparr>" and ?d' = "\<lparr>db_store = [(tt_hwm_key, write_u64 5)], db_hwm = 5\<rparr>"
  have "db_step (\<lambda>_. []) ?d (Some 5) ?d'"
    by (rule db_step.commit[where c = "[]" and now = 5 and ws = "[]"])
      (simp_all add: bt_inv_def commit_tx_with_tt_def advance_with_now_def candidate_def saturating_add_1_def seed_def
        imax_def unwrap_or_def I64_MAX_def stamp_pending_tt_writes_def commit_change_def)
  then have run: "db_run (\<lambda>_. []) ?d [5] ?d'" using db_run.visible[OF db_run.stay, where tt = 5] by fastforce
  show ?thesis using run tt_order_is_commit_order[OF run] by auto
qed

text \<open>C13. Racing callers of the clock never get the same transaction time, nor one out of order: in
  every interleaving of loads and exchanges the allocated times are strictly increasing, as
  long as none is the last representable instant.\<close>

theorem racing_allocations_unique:
  assumes "clock_step\<^sup>*\<^sup>* \<lparr>mark = m, loaded = \<lambda>_. None, allocated = []\<rparr> s" "\<forall>(t, tt) \<in> set (allocated s). tt \<noteq> I64_MAX"
  shows "sorted_wrt (\<lambda>(_, a) (_, b). sint a < sint b) (allocated s) \<and> distinct (map snd (allocated s))"
proof -
  have "clock_inv s" using clock_inv_reachable[OF assms(1)] by (simp add: clock_inv_def)
  then have sorted: "sorted_wrt (\<lambda>(_, a) (_, b). sint a < sint b) (allocated s)"
    using assms(2) by (auto simp: clock_inv_def list_all_iff)
  then show ?thesis using increasing_distinct by blast
qed

theorem racing_allocations_unique_witness:
  "\<exists>s. clock_step\<^sup>*\<^sup>* \<lparr>mark = 7, loaded = \<lambda>_ :: nat. None, allocated = []\<rparr> s \<and> allocated s = [(2, 8), (1, 9)]
     \<and> sorted_wrt (\<lambda>(_, a) (_, b). sint a < sint b) (allocated s) \<and> distinct (map snd (allocated s))"
proof -
  let ?s0 = "\<lparr>mark = 7, loaded = \<lambda>_ :: nat. None, allocated = []\<rparr>"
  let ?s1 = "?s0\<lparr>loaded := (loaded ?s0)(1 \<mapsto> (mark ?s0, 3))\<rparr>"
  let ?s2 = "?s1\<lparr>loaded := (loaded ?s1)(2 \<mapsto> (mark ?s1, 4))\<rparr>"
  let ?s3 = "?s2\<lparr>mark := candidate 4 (mark ?s2), loaded := (loaded ?s2)(2 := None),
      allocated := allocated ?s2 @ [(2, candidate 4 (mark ?s2))]\<rparr>"
  let ?s4 = "?s3\<lparr>loaded := (loaded ?s3)(1 := None)\<rparr>"
  let ?s5 = "?s4\<lparr>loaded := (loaded ?s4)(1 \<mapsto> (mark ?s4, 5))\<rparr>"
  let ?s6 = "?s5\<lparr>mark := candidate 5 (mark ?s5), loaded := (loaded ?s5)(1 := None),
      allocated := allocated ?s5 @ [(1, candidate 5 (mark ?s5))]\<rparr>"
  have "clock_step ?s0 ?s1" "clock_step ?s1 ?s2" by (rule clock_step.load, simp)+
  moreover have "clock_step ?s2 ?s3" by (rule clock_step.exchange) simp
  moreover have "clock_step ?s3 ?s4" by (rule clock_step.failure) simp
  moreover have "clock_step ?s4 ?s5" by (rule clock_step.load) simp
  moreover have "clock_step ?s5 ?s6" by (rule clock_step.exchange) simp
  ultimately have run: "clock_step\<^sup>*\<^sup>* ?s0 ?s6" by (meson converse_rtranclp_into_rtranclp rtranclp.rtrancl_refl)
  have c: "candidate 4 7 = 8" "candidate 5 8 = 9" by (simp_all add: candidate_def saturating_add_1_def imax_def I64_MAX_def)
  have a: "allocated ?s6 = [(2, 8), (1, 9)]" by (simp add: c)
  then have "\<forall>(t, tt) \<in> set (allocated ?s6). tt \<noteq> I64_MAX" by (simp only: a) (simp add: I64_MAX_def)
  from racing_allocations_unique[OF run this] show ?thesis using run a by blast
qed

text \<open>C23. A transaction is refused for contradicting itself exactly when two of its buffered rows, in
  whatever statements, speak about the same key of the same relation, of a bitemporal relation at
  the same valid time, and one asserts it while the other retracts it.\<close>

theorem self_contradiction_refused:
  assumes "ext_ok E"
    and "\<forall>w \<in> set ws. keys (metadata (pw_handle w)) \<noteq> [] \<and> (\<forall>row \<in> set (pw_rows w).
           length (keys (metadata (pw_handle w))) - 1 \<le> length row
           \<and> wf_tuple E (take (length (keys (metadata (pw_handle w))) - 1) row))"
    and "\<forall>w \<in> set ws. \<forall>w' \<in> set ws. rel_id (pw_handle w) = rel_id (pw_handle w') \<longrightarrow>
           metadata (pw_handle w) = metadata (pw_handle w')"
  shows "stamp_pending_tt_writes to_vec tt ws st = Inl TtAssertRetractConflict \<longleftrightarrow>
    (\<exists>w \<in> set ws. \<exists>row \<in> set (pw_rows w). \<exists>w' \<in> set ws. \<exists>row' \<in> set (pw_rows w'). \<exists>f.
       row_fact w row = Some (f, True) \<and> row_fact w' row' = Some (f, False))"
proof -
  let ?nk = "\<lambda>w row. map_option (map_prod fact_key id) (row_fact w row)"
  have "\<exists>n. kpos_of w = Inr n \<and> (\<forall>row \<in> set (pw_rows w). norm_key w n row = Inr (?nk w row))" if w: "w \<in> set ws" for w
  proof -
    have n: "kpos_of w = Inr (length (keys (metadata (pw_handle w))) - 1)" using assms(2) w by (simp add: kpos_of_def)
    then show ?thesis using norm_key_fact[OF n] assms(2) w by (intro exI conjI) auto
  qed
  then have "stamp_pending_tt_writes to_vec tt ws st = Inl TtAssertRetractConflict \<longleftrightarrow>
      (\<exists>w \<in> set ws. \<exists>row \<in> set (pw_rows w). \<exists>w' \<in> set ws. \<exists>row' \<in> set (pw_rows w'). \<exists>k.
         ?nk w row = Some (k, True) \<and> ?nk w' row' = Some (k, False))"
    by (intro conflict_claims) blast
  moreover have "(\<exists>k. ?nk w row = Some (k, True) \<and> ?nk w' row' = Some (k, False)) \<longleftrightarrow>
      (\<exists>f. row_fact w row = Some (f, True) \<and> row_fact w' row' = Some (f, False))"
    if "w \<in> set ws" "row \<in> set (pw_rows w)" "w' \<in> set ws" "row' \<in> set (pw_rows w')" for w row w' row'
  proof
    assume "\<exists>k. ?nk w row = Some (k, True) \<and> ?nk w' row' = Some (k, False)"
    then obtain f f' where f: "row_fact w row = Some (f, True)" "row_fact w' row' = Some (f', False)" "fact_key f = fact_key f'"
      by auto
    moreover have "f = f'" using row_fact_inj[OF assms(1) f(1,2) _ _ _ f(3)] assms(2,3) that by blast
    ultimately show "\<exists>f. row_fact w row = Some (f, True) \<and> row_fact w' row' = Some (f, False)" by blast
  next
    assume "\<exists>f. row_fact w row = Some (f, True) \<and> row_fact w' row' = Some (f, False)"
    then obtain f where "row_fact w row = Some (f, True)" "row_fact w' row' = Some (f, False)" by blast
    then show "\<exists>k. ?nk w row = Some (k, True) \<and> ?nk w' row' = Some (k, False)"
      by (intro exI[of _ "fact_key f"]) simp
  qed
  ultimately show ?thesis by (simp cong: bex_cong)
qed

text \<open>C24. A commit leaves in the store exactly what the transaction saw before, updated with one entry
  for each buffered row, in order, and with the mark: the entry of a row is under its key columns
  followed by the one transaction time of the commit and holds its other columns.\<close>

theorem commit_writes_all_rows:
  assumes "commit_tx_with_tt to_vec now hwm ws (Writer s c) = (hwm', Inr (st, tt))" "bt_inv s" "bt_inv c"
  shows "\<exists>s'. st = Writer s' [] \<and> bt_inv s'
    \<and> bt_get s' = (mem_view (Writer s c) ++ map_of (rev (entries_of to_vec tt ws)))(tt_hwm_key \<mapsto> write_u64 tt)"
  by (rule commit_contents(3)[OF assms])

definition sample_write :: "bool \<Rightarrow> pending_tt_write" where
  "sample_write r = \<lparr>pw_handle = \<lparr>rel_name = [114], rel_id = 1,
       metadata = \<lparr>keys = [\<lparr>col_name = [97], typing = Nullable CAny False, has_default = False\<rparr>,
                         \<lparr>col_name = [98], typing = Nullable CTxTime False, has_default = False\<rparr>], non_keys = []\<rparr>,
       rel_access = Normal, is_temp = False, indices = [], tt_gc_floor = None\<rparr>,
     pw_rows = [[Null]], pw_is_retract = r\<rparr>"

definition sample_belief :: "i64 \<Rightarrow> bool \<Rightarrow> pending_tt_write" where
  "sample_belief ts a = \<lparr>pw_handle = \<lparr>rel_name = [115], rel_id = 2,
       metadata = \<lparr>keys = [\<lparr>col_name = [97], typing = Nullable CAny False, has_default = False\<rparr>,
                         \<lparr>col_name = [98], typing = Nullable CValidity False, has_default = False\<rparr>,
                         \<lparr>col_name = [99], typing = Nullable CTxTime False, has_default = False\<rparr>], non_keys = []\<rparr>,
       rel_access = Normal, is_temp = False, indices = [], tt_gc_floor = None\<rparr>,
     pw_rows = [[Null, Validity \<lparr>timestamp = ts, is_assert = a\<rparr>]], pw_is_retract = False\<rparr>"

lemmas sample_writes = sample_write_def sample_belief_def

text \<open>A belief asserted and retracted at one valid time is refused; at two valid times, or beside a
  retraction from the other relation, it is not.\<close>

theorem self_contradiction_refused_witness:
  "stamp_pending_tt_writes (\<lambda>_. []) 5 [sample_belief 3 True, sample_write False, sample_belief 3 False] (Writer [] [])
     = Inl TtAssertRetractConflict
   \<and> stamp_pending_tt_writes (\<lambda>_. []) 5 [sample_write False, sample_write True] (Writer [] []) = Inl TtAssertRetractConflict
   \<and> stamp_pending_tt_writes (\<lambda>_. []) 5 [sample_belief 3 True, sample_write True, sample_belief 4 False] (Writer [] [])
     \<noteq> Inl TtAssertRetractConflict"
proof -
  note t = self_contradiction_refused[OF sample_ext_ok, of _ "\<lambda>_. []" 5 "Writer [] []"]
  have "stamp_pending_tt_writes (\<lambda>_. []) 5 [sample_belief 3 True, sample_write False, sample_belief 3 False] (Writer [] [])
     = Inl TtAssertRetractConflict"
    by (subst t) (simp_all add: sample_writes row_fact_def)
  moreover have "stamp_pending_tt_writes (\<lambda>_. []) 5 [sample_write False, sample_write True] (Writer [] []) = Inl TtAssertRetractConflict"
    by (subst t) (simp_all add: sample_writes row_fact_def)
  moreover have "stamp_pending_tt_writes (\<lambda>_. []) 5 [sample_belief 3 True, sample_write True, sample_belief 4 False] (Writer [] [])
     \<noteq> Inl TtAssertRetractConflict"
    by (subst t) (simp_all add: sample_writes row_fact_def)
  ultimately show ?thesis by blast
qed

theorem commit_writes_all_rows_witness:
  "\<exists>s'. commit_tx_with_tt (\<lambda>_. [9]) 5 4 [sample_write False] (Writer [] []) = (5, Inr (Writer s' [], 5)) \<and>
     bt_get s' (encode_as_key 1 [Null, Validity \<lparr>timestamp = 5, is_assert = True\<rparr>]) = Some (write_u64 1 @ [9]) \<and>
     bt_get s' (encode_as_key 1 [Null, Validity \<lparr>timestamp = 4, is_assert = True\<rparr>]) = None"
proof -
  have ne: "encode_as_key 1 [Null, Validity v] \<noteq> tt_hwm_key" for v
    using decode_encode_as_key[OF sample_ext_ok, of "[Null, Validity v]" 1]
      decode_encode_as_key[OF sample_ext_ok, of "[Null, Str (map of_char ''TT_HWM'')]" 0]
    by (auto simp: tt_hwm_key_def)
  have ne': "encode_as_key 1 [Null, Validity \<lparr>timestamp = 4, is_assert = True\<rparr>] \<noteq> encode_as_key 1 [Null, Validity \<lparr>timestamp = 5, is_assert = True\<rparr>]"
    using decode_encode_as_key[OF sample_ext_ok, of "[Null, Validity \<lparr>timestamp = 4, is_assert = True\<rparr>]" 1]
      decode_encode_as_key[OF sample_ext_ok, of "[Null, Validity \<lparr>timestamp = 5, is_assert = True\<rparr>]" 1]
    by auto
  obtain st where st: "commit_tx_with_tt (\<lambda>_. [9]) 5 4 [sample_write False] (Writer [] []) = (5, Inr (st, 5))"
    by (simp add: commit_tx_with_tt_def advance_with_now_def candidate_def saturating_add_1_def imax_def I64_MAX_def
        stamp_pending_tt_writes_def sample_write_def kpos_of_def norm_key_def is_bitemporal_def stamp_row_def
        encode_key_for_store_def encode_val_for_store_def)
  have "entries_of (\<lambda>_. [9]) 5 [sample_write False] =
      [(encode_as_key 1 [Null, Validity \<lparr>timestamp = 5, is_assert = True\<rparr>], write_u64 1 @ [9])]"
    by (simp add: entries_of_def entry_of_def sample_write_def)
  then show ?thesis
    using st commit_writes_all_rows[OF st] ne ne' by (auto simp: bt_inv_def)
qed

end
