(* ===== verification/Graphs.thy ===== *)
theory Graphs
  imports Tuples
begin

text \<open>The graph algorithms of query planning (\<open>query/graph.rs\<close>): Tarjan's strongly connected
  components, reachability and the generalised topological sort that also stratifies.  Ordered
  maps are association lists in key order; a \<open>Vec\<close> used as a stack is a list with the top first.\<close>

section \<open>Ordered maps\<close>

fun lm_insert :: "'k::linorder \<Rightarrow> 'v \<Rightarrow> ('k \<times> 'v) list \<Rightarrow> ('k \<times> 'v) list" where
  "lm_insert k v [] = [(k, v)]"
| "lm_insert k v ((k', v') # m) =
     (if k < k' then (k, v) # (k', v') # m
      else if k = k' then (k, v) # m
      else (k', v') # lm_insert k v m)"

definition lm_inv :: "('k::linorder \<times> 'v) list \<Rightarrow> bool" where
  "lm_inv m \<longleftrightarrow> sorted_wrt (<) (map fst m)"

type_synonym 'k graph = "('k \<times> 'k list) list"

type_synonym 'k stratified_graph = "('k \<times> ('k \<times> bool) list) list"

section \<open>Tarjan's algorithm\<close>

record tarjan =
  scc_id :: nat
  ids :: "nat option list"
  low :: "nat list"
  on_stack :: "bool list"
  stk :: "nat list"

definition tarjan_new :: "nat list list \<Rightarrow> tarjan" where
  "tarjan_new g = \<lparr>scc_id = 0, ids = replicate (length g) None, low = replicate (length g) 0,
     on_stack = replicate (length g) False, stk = []\<rparr>"

definition dfs_enter :: "nat \<Rightarrow> tarjan \<Rightarrow> tarjan" where
  "dfs_enter at s =
     (let i = scc_id s + 1
      in s\<lparr>stk := at # stk s, on_stack := (on_stack s)[at := True], scc_id := i,
           ids := (ids s)[at := Some i], low := (low s)[at := i]\<rparr>)"

definition dfs_edge :: "nat \<Rightarrow> nat \<Rightarrow> tarjan \<Rightarrow> tarjan" where
  "dfs_edge at to s =
     (if on_stack s ! to then s\<lparr>low := (low s)[at := min (low s ! at) (low s ! to)]\<rparr> else s)"

fun dfs_pop :: "nat \<Rightarrow> nat \<Rightarrow> nat list \<Rightarrow> tarjan \<Rightarrow> tarjan" where
  "dfs_pop at i [] s = s\<lparr>stk := []\<rparr>"
| "dfs_pop at i (node # rest) s =
     (let s' = s\<lparr>stk := rest, on_stack := (on_stack s)[node := False], low := (low s)[node := i]\<rparr>
      in if node = at then s' else dfs_pop at i rest s')"

definition dfs_exit :: "nat \<Rightarrow> tarjan \<Rightarrow> tarjan" where
  "dfs_exit at s = (if ids s ! at = Some (low s ! at) then dfs_pop at (low s ! at) (stk s) s else s)"

text \<open>The recursion, with fuel for its depth.\<close>

function (sequential) dfs :: "nat \<Rightarrow> nat list list \<Rightarrow> nat \<Rightarrow> tarjan \<Rightarrow> tarjan option"
  and dfs_children :: "nat \<Rightarrow> nat list list \<Rightarrow> nat \<Rightarrow> nat list \<Rightarrow> tarjan \<Rightarrow> tarjan option" where
  "dfs 0 g at s = None"
| "dfs (Suc n) g at s = map_option (dfs_exit at) (dfs_children n g at (g ! at) (dfs_enter at s))"
| "dfs_children n g at [] s = Some s"
| "dfs_children n g at (to # tos) s =
     (case (if ids s ! to = None then dfs n g to s else Some s) of
        None \<Rightarrow> None
      | Some s' \<Rightarrow> dfs_children n g at tos (dfs_edge at to s'))"
  by pat_completeness auto
termination
  by (relation "measures [\<lambda>x. case x of Inl (n, _) \<Rightarrow> n | Inr (n, _) \<Rightarrow> n,
                          \<lambda>x. case x of Inl _ \<Rightarrow> 0 | Inr (_, _, _, tos, _) \<Rightarrow> Suc (length tos)]") auto

fun tarjan_visit :: "nat \<Rightarrow> nat list list \<Rightarrow> nat list \<Rightarrow> tarjan \<Rightarrow> tarjan option" where
  "tarjan_visit n g [] s = Some s"
| "tarjan_visit n g (i # is) s =
     (case (if ids s ! i = None then dfs n g i s else Some s) of
        None \<Rightarrow> None
      | Some s' \<Rightarrow> tarjan_visit n g is s')"

text \<open>The components in the order of their root's number.\<close>

definition low_groups :: "nat list \<Rightarrow> nat list list" where
  "low_groups lows = map (\<lambda>grp. filter (\<lambda>i. lows ! i = grp) [0..<length lows]) (sort (remdups lows))"

definition tarjan_run :: "nat list list \<Rightarrow> nat list list option" where
  "tarjan_run g = map_option (low_groups \<circ> low) (tarjan_visit (Suc (length g)) g [0..<length g] (tarjan_new g))"

fun index_of :: "'k \<Rightarrow> 'k list \<Rightarrow> nat option" where
  "index_of k [] = None"
| "index_of k (x # xs) = (if k = x then Some 0 else map_option Suc (index_of k xs))"

definition strongly_connected_components :: "'k graph \<Rightarrow> 'k list list option" where
  "strongly_connected_components graph =
     (let indices = map fst graph;
          idx_graph = map (\<lambda>(_, vs). List.map_filter (\<lambda>v. index_of v indices) vs) graph
      in map_option (map (map (\<lambda>i. indices ! i))) (tarjan_run idx_graph))"

section \<open>Reachability\<close>

function (sequential) walk :: "nat \<Rightarrow> 'k graph \<Rightarrow> 'k \<Rightarrow> 'k list \<Rightarrow> 'k list option"
  and walk_children :: "nat \<Rightarrow> 'k graph \<Rightarrow> 'k list \<Rightarrow> 'k list \<Rightarrow> 'k list option" where
  "walk 0 graph starting collected = None"
| "walk (Suc n) graph starting collected =
     (case map_of graph starting of
        None \<Rightarrow> Some collected
      | Some children \<Rightarrow> walk_children n graph children collected)"
| "walk_children n graph [] collected = Some collected"
| "walk_children n graph (el # els) collected =
     (if el \<in> set collected then walk_children n graph els collected
      else (case walk n graph el (el # collected) of
              None \<Rightarrow> None
            | Some collected' \<Rightarrow> walk_children n graph els collected'))"
  by pat_completeness auto
termination
  by (relation "measures [\<lambda>x. case x of Inl (n, _) \<Rightarrow> n | Inr (n, _) \<Rightarrow> n,
                          \<lambda>x. case x of Inl _ \<Rightarrow> 0 | Inr (_, _, els, _) \<Rightarrow> Suc (length els)]") auto

definition graph_size :: "'k graph \<Rightarrow> nat" where
  "graph_size graph = length graph + sum_list (map (\<lambda>(_, vs). length vs) graph)"

definition reachable_components :: "'k graph \<Rightarrow> 'k \<Rightarrow> 'k list option" where
  "reachable_components graph start = walk (Suc (Suc (graph_size graph))) graph start [start]"

section \<open>Topological sort with strata\<close>

record kahn =
  in_degree :: "nat list"
  strata :: "nat list list"
  current_stratum :: "nat list"
  safe_pending :: "nat list"
  unsafe_nodes :: "nat list"

definition edge_list :: "nat stratified_graph \<Rightarrow> (nat \<times> nat \<times> bool) list" where
  "edge_list graph = concat (map (\<lambda>(fr, tos). map (\<lambda>(to, p). (fr, to, p)) tos) graph)"

definition count_degrees :: "nat stratified_graph \<Rightarrow> nat \<Rightarrow> nat list option" where
  "count_degrees graph num_nodes =
     fold (\<lambda>(fr, to, p) d. case d of
             None \<Rightarrow> None
           | Some ds \<Rightarrow> if to < length ds then Some (ds[to := ds ! to + 1]) else None)
       (edge_list graph) (Some (replicate num_nodes 0))"

definition kahn_start :: "nat list \<Rightarrow> kahn" where
  "kahn_start ds = \<lparr>in_degree = ds, strata = [], current_stratum = [],
     safe_pending = rev (filter (\<lambda>v. ds ! v = 0) [0..<length ds]), unsafe_nodes = []\<rparr>"

text \<open>The edges of a removed node, in key order.  A set of nodes is a list without repetitions.\<close>

definition relax :: "nat \<times> bool \<Rightarrow> kahn \<Rightarrow> kahn" where
  "relax = (\<lambda>(nxt, poisoned) s.
     let d = in_degree s ! nxt - 1;
         u = (if poisoned \<and> nxt \<notin> set (unsafe_nodes s) then nxt # unsafe_nodes s else unsafe_nodes s)
     in s\<lparr>in_degree := (in_degree s)[nxt := d], unsafe_nodes := u,
          safe_pending := (if d = 0 \<and> nxt \<notin> set u then nxt # safe_pending s else safe_pending s)\<rparr>)"

definition next_stratum :: "kahn \<Rightarrow> kahn" where
  "next_stratum s =
     (if safe_pending s = [] \<and> unsafe_nodes s \<noteq> []
      then s\<lparr>strata := strata s @ [current_stratum s], current_stratum := [],
             safe_pending := rev (filter (\<lambda>v. in_degree s ! v = 0) (sort (unsafe_nodes s))), unsafe_nodes := []\<rparr>
      else s)"

fun kahn_loop :: "nat \<Rightarrow> nat stratified_graph \<Rightarrow> kahn \<Rightarrow> nat list list option" where
  "kahn_loop 0 graph s = None"
| "kahn_loop (Suc n) graph s =
     (let s1 = next_stratum s
      in case safe_pending s1 of
           [] \<Rightarrow> Some (if current_stratum s1 \<noteq> [] then strata s1 @ [current_stratum s1] else strata s1)
         | removed # rest \<Rightarrow>
             let s2 = s1\<lparr>safe_pending := rest, current_stratum := current_stratum s1 @ [removed]\<rparr>
             in kahn_loop n graph
                  (case map_of graph removed of None \<Rightarrow> s2 | Some edges \<Rightarrow> fold relax edges s2))"

definition generalized_kahn :: "nat stratified_graph \<Rightarrow> nat \<Rightarrow> nat list list option" where
  "generalized_kahn graph num_nodes =
     (case count_degrees graph num_nodes of
        None \<Rightarrow> None
      | Some ds \<Rightarrow> kahn_loop (Suc num_nodes) graph (kahn_start ds))"

section \<open>The sort respects the edges\<close>

definition graph_ok :: "nat \<Rightarrow> nat stratified_graph \<Rightarrow> bool" where
  "graph_ok N graph \<longleftrightarrow> distinct (map fst graph)
     \<and> (\<forall>(fr, tos) \<in> set graph. fr < N \<and> distinct (map fst tos) \<and> (\<forall>(to, p) \<in> set tos. to < N))"

abbreviation edges :: "nat stratified_graph \<Rightarrow> (nat \<times> nat \<times> bool) set" where
  "edges graph \<equiv> set (edge_list graph)"

definition preds :: "nat stratified_graph \<Rightarrow> nat \<Rightarrow> nat set" where
  "preds graph v = {u. \<exists>p. (u, v, p) \<in> edges graph}"

lemma edges_iff: "(u, v, p) \<in> edges graph \<longleftrightarrow> (\<exists>tos. (u, tos) \<in> set graph \<and> (v, p) \<in> set tos)"
  by (force simp: edge_list_def)

lemma finite_preds [simp]: "finite (preds graph v)"
proof -
  have "preds graph v \<subseteq> fst ` edges graph" by (force simp: preds_def)
  then show ?thesis by (rule finite_subset) simp
qed

lemma edges_of:
  assumes "graph_ok N graph"
  shows "(u, v, p) \<in> edges graph \<longleftrightarrow> (\<exists>tos. map_of graph u = Some tos \<and> (v, p) \<in> set tos)"
  using assms unfolding edges_iff graph_ok_def by (metis (no_types, lifting) map_of_eq_Some_iff map_of_SomeD)

lemma edge_bounds: "graph_ok N graph \<Longrightarrow> (u, v, p) \<in> edges graph \<Longrightarrow> u < N \<and> v < N"
  by (fastforce simp: edges_iff graph_ok_def)

text \<open>One pass over the edges of a removed node.\<close>

lemma relax_fold:
  assumes "distinct (map fst es)" "\<forall>(v, p) \<in> set es. v < length (in_degree s) \<and> v \<notin> set (safe_pending s)"
  shows "length (in_degree (fold relax es s)) = length (in_degree s)
    \<and> (\<forall>v < length (in_degree s). in_degree (fold relax es s) ! v = in_degree s ! v - (if v \<in> fst ` set es then 1 else 0))
    \<and> set (unsafe_nodes (fold relax es s)) = set (unsafe_nodes s) \<union> {v. (v, True) \<in> set es}
    \<and> strata (fold relax es s) = strata s \<and> current_stratum (fold relax es s) = current_stratum s
    \<and> (\<exists>new. safe_pending (fold relax es s) = new @ safe_pending s \<and> distinct new
         \<and> set new = {v. (v, False) \<in> set es \<and> in_degree s ! v - 1 = 0 \<and> v \<notin> set (unsafe_nodes s)})"
  using assms
proof (induction es arbitrary: s)
  case (Cons e es)
  obtain w p where e: "e = (w, p)" by force
  let ?s = "relax e s"
  have w: "w < length (in_degree s)" "w \<notin> fst ` set es" using Cons.prems e by auto
  have s1: "length (in_degree ?s) = length (in_degree s)" "strata ?s = strata s" "current_stratum ?s = current_stratum s"
      "in_degree ?s = (in_degree s)[w := in_degree s ! w - 1]"
      "set (unsafe_nodes ?s) = set (unsafe_nodes s) \<union> (if p then {w} else {})"
      "safe_pending ?s = (if in_degree s ! w - 1 = 0 \<and> w \<notin> set (unsafe_nodes ?s) then w # safe_pending s else safe_pending s)"
    using e by (auto simp: relax_def Let_def)
  have "\<forall>(v, p) \<in> set es. v < length (in_degree ?s) \<and> v \<notin> set (safe_pending ?s)"
    using Cons.prems(2) w(2) s1(1,6) by (force split: if_splits)
  then have IH: "length (in_degree (fold relax es ?s)) = length (in_degree ?s)"
      "\<forall>v < length (in_degree ?s). in_degree (fold relax es ?s) ! v = in_degree ?s ! v - (if v \<in> fst ` set es then 1 else 0)"
      "set (unsafe_nodes (fold relax es ?s)) = set (unsafe_nodes ?s) \<union> {v. (v, True) \<in> set es}"
      "strata (fold relax es ?s) = strata ?s" "current_stratum (fold relax es ?s) = current_stratum ?s"
      "\<exists>new. safe_pending (fold relax es ?s) = new @ safe_pending ?s \<and> distinct new
         \<and> set new = {v. (v, False) \<in> set es \<and> in_degree ?s ! v - 1 = 0 \<and> v \<notin> set (unsafe_nodes ?s)}"
    using Cons.IH[of ?s] Cons.prems(1) by simp_all
  obtain new where new: "safe_pending (fold relax es ?s) = new @ safe_pending ?s" "distinct new"
      "set new = {v. (v, False) \<in> set es \<and> in_degree ?s ! v - 1 = 0 \<and> v \<notin> set (unsafe_nodes ?s)}"
    using IH(6) by blast
  let ?w = "if in_degree s ! w - 1 = 0 \<and> w \<notin> set (unsafe_nodes ?s) then [w] else []"
  have es_w: "(v, x) \<in> set es \<Longrightarrow> v \<noteq> w" for v x using w(2) by force
  have "set new = {v. (v, False) \<in> set es \<and> in_degree s ! v - 1 = 0 \<and> v \<notin> set (unsafe_nodes s)}"
  proof -
    have "in_degree ?s ! v = in_degree s ! v" if "(v, x) \<in> set es" for v x
      unfolding s1(4) using es_w[OF that] by (simp add: nth_list_update_neq)
    then show ?thesis unfolding new(3) s1(5) using es_w by auto
  qed
  then have "set (new @ ?w) = {v. (v, False) \<in> set (e # es) \<and> in_degree s ! v - 1 = 0 \<and> v \<notin> set (unsafe_nodes s)}"
    "distinct (new @ ?w)"
    using es_w new(2) e s1(5) by auto
  moreover have "safe_pending (fold relax (e # es) s) = (new @ ?w) @ safe_pending s" using new(1) s1(6) by simp
  moreover have "\<forall>v < length (in_degree s). in_degree (fold relax (e # es) s) ! v = in_degree s ! v - (if v \<in> fst ` set (e # es) then 1 else 0)"
    using IH(2) s1(1,4) w e by (auto simp: nth_list_update)
  moreover have "set (unsafe_nodes (fold relax (e # es) s)) = set (unsafe_nodes s) \<union> {v. (v, True) \<in> set (e # es)}"
    using IH(3) s1(5) e by auto
  ultimately show ?case using IH(1,4,5) s1(1-3) by auto
qed simp

subsection \<open>Invariant of the loop\<close>

abbreviation levels :: "kahn \<Rightarrow> nat list list" where
  "levels s \<equiv> strata s @ [current_stratum s]"

definition placed :: "kahn \<Rightarrow> nat list" where
  "placed s = concat (levels s)"

abbreviation popped :: "kahn \<Rightarrow> nat set" where
  "popped s \<equiv> set (placed s)"

text \<open>A list of strata respects the edges: the sources of an edge are not in a later stratum than its
  target, and in an earlier one if the edge is poisoned.\<close>

definition keeps_edges :: "nat stratified_graph \<Rightarrow> nat list list \<Rightarrow> bool" where
  "keeps_edges graph ss \<longleftrightarrow> (\<forall>i < length ss. \<forall>v \<in> set (ss ! i). \<forall>u p. (u, v, p) \<in> edges graph \<longrightarrow>
     (\<exists>j \<le> i. u \<in> set (ss ! j) \<and> (p \<longrightarrow> j < i)))"

text \<open>A list of nodes is in topological order: the sources of edges into a node stand before it.\<close>

definition topological :: "nat stratified_graph \<Rightarrow> nat list \<Rightarrow> bool" where
  "topological graph xs \<longleftrightarrow> (\<forall>ys v zs. xs = ys @ v # zs \<longrightarrow> preds graph v \<subseteq> set ys)"

lemma topological_snoc:
  assumes "topological graph xs" "preds graph v \<subseteq> set xs"
  shows "topological graph (xs @ [v])"
  unfolding topological_def
proof (intro allI impI)
  fix ys w zs
  assume "xs @ [v] = ys @ w # zs"
  then show "preds graph w \<subseteq> set ys"
    using assms unfolding topological_def by (cases zs rule: rev_cases) auto
qed

definition kahn_inv :: "nat stratified_graph \<Rightarrow> nat \<Rightarrow> kahn \<Rightarrow> bool" where
  "kahn_inv graph N s \<longleftrightarrow> length (in_degree s) = N
     \<and> distinct (unsafe_nodes s) \<and> distinct (placed s @ safe_pending s) \<and> set (placed s @ safe_pending s) \<subseteq> {..<N}
     \<and> (\<forall>v < N. in_degree s ! v = card (preds graph v - popped s))
     \<and> (\<forall>v \<in> set (safe_pending s). in_degree s ! v = 0)
     \<and> (\<forall>v < N. in_degree s ! v = 0 \<and> v \<notin> popped s \<longrightarrow> v \<in> set (safe_pending s) \<or> v \<in> set (unsafe_nodes s))
     \<and> (\<forall>v \<in> set (unsafe_nodes s). v < N \<and> v \<notin> popped s \<and> v \<notin> set (safe_pending s))
     \<and> (\<forall>u \<in> set (current_stratum s). \<forall>v. (u, v, True) \<in> edges graph \<longrightarrow> v \<in> set (unsafe_nodes s))
     \<and> keeps_edges graph (levels s) \<and> topological graph (placed s)"

lemma kahn_invD:
  assumes "kahn_inv graph N s"
  shows "length (in_degree s) = N" "distinct (unsafe_nodes s)"
    and "distinct (placed s @ safe_pending s)" "set (placed s @ safe_pending s) \<subseteq> {..<N}"
    and "\<forall>v < N. in_degree s ! v = card (preds graph v - popped s)"
    and "\<forall>v \<in> set (safe_pending s). in_degree s ! v = 0"
    and "\<forall>v < N. in_degree s ! v = 0 \<and> v \<notin> popped s \<longrightarrow> v \<in> set (safe_pending s) \<or> v \<in> set (unsafe_nodes s)"
    and "\<forall>v \<in> set (unsafe_nodes s). v < N \<and> v \<notin> popped s \<and> v \<notin> set (safe_pending s)"
    and "\<forall>u \<in> set (current_stratum s). \<forall>v. (u, v, True) \<in> edges graph \<longrightarrow> v \<in> set (unsafe_nodes s)"
    and "keeps_edges graph (levels s)" "topological graph (placed s)"
  using assms unfolding kahn_inv_def by argo+

lemma keeps_edges_extend:
  assumes "keeps_edges graph (ss @ [c])"
    and "\<And>u p. (u, v, p) \<in> edges graph \<Longrightarrow> \<exists>j \<le> length ss. u \<in> set ((ss @ [c]) ! j) \<and> (p \<longrightarrow> j < length ss)"
  shows "keeps_edges graph (ss @ [c @ [v]])"
  unfolding keeps_edges_def
proof (intro allI impI ballI)
  fix i w u p
  assume i: "i < length (ss @ [c @ [v]])" and w: "w \<in> set ((ss @ [c @ [v]]) ! i)" and e: "(u, w, p) \<in> edges graph"
  have "\<exists>j \<le> i. u \<in> set ((ss @ [c]) ! j) \<and> (p \<longrightarrow> j < i)"
  proof (cases "w \<in> set ((ss @ [c]) ! i)")
    case True
    then show ?thesis using assms(1) i e unfolding keeps_edges_def by simp
  next
    case False
    then have "i = length ss" "w = v" using i w by (auto simp: nth_append split: if_splits)
    then show ?thesis using assms(2) e by blast
  qed
  then obtain j where j: "j \<le> i" "u \<in> set ((ss @ [c]) ! j)" "p \<longrightarrow> j < i" by blast
  then have "u \<in> set ((ss @ [c @ [v]]) ! j)" by (auto simp: nth_append nth_Cons' split: if_splits)
  then show "\<exists>j \<le> i. u \<in> set ((ss @ [c @ [v]]) ! j) \<and> (p \<longrightarrow> j < i)" using j by blast
qed

lemma keeps_edges_empty: "keeps_edges graph ss \<Longrightarrow> keeps_edges graph (ss @ [[]])"
  unfolding keeps_edges_def
proof (intro allI impI ballI)
  fix i v u p
  assume r: "\<forall>i < length ss. \<forall>v \<in> set (ss ! i). \<forall>u p. (u, v, p) \<in> edges graph \<longrightarrow> (\<exists>j \<le> i. u \<in> set (ss ! j) \<and> (p \<longrightarrow> j < i))"
    and i: "i < length (ss @ [[]])" "v \<in> set ((ss @ [[]]) ! i)" "(u, v, p) \<in> edges graph"
  then have "i < length ss" by (auto simp: nth_append split: if_splits)
  moreover from this have "v \<in> set (ss ! i)" using i by (simp add: nth_append)
  ultimately obtain j where "j \<le> i" "u \<in> set (ss ! j)" "p \<longrightarrow> j < i" using r i(3) by blast
  then show "\<exists>j \<le> i. u \<in> set ((ss @ [[]]) ! j) \<and> (p \<longrightarrow> j < i)"
    using \<open>i < length ss\<close> by (intro exI[of _ j]) (auto simp: nth_append)
qed

lemma next_stratum_inv:
  assumes "kahn_inv graph N s"
  shows "kahn_inv graph N (next_stratum s)"
proof (cases "safe_pending s = [] \<and> unsafe_nodes s \<noteq> []")
  case True
  let ?t = "next_stratum s"
  let ?q = "filter (\<lambda>v. in_degree s ! v = 0) (sort (unsafe_nodes s))"
  have t: "in_degree ?t = in_degree s" "strata ?t = levels s" "current_stratum ?t = []"
      "safe_pending ?t = rev ?q" "unsafe_nodes ?t = []"
    using True by (simp_all add: next_stratum_def)
  have p: "placed ?t = placed s" unfolding placed_def t(2,3) by simp
  have inv: "distinct (unsafe_nodes s)" "distinct (placed s)" "popped s \<subseteq> {..<N}"
      "\<forall>v \<in> set (unsafe_nodes s). v < N \<and> v \<notin> popped s"
      "\<forall>v < N. in_degree s ! v = 0 \<and> v \<notin> popped s \<longrightarrow> v \<in> set (unsafe_nodes s)"
    using kahn_invD(2,3,4,7,8)[OF assms] True by auto
  have "distinct (placed s @ rev ?q)" "set (placed s @ rev ?q) \<subseteq> {..<N}"
    using inv(1-4) by auto
  moreover have "keeps_edges graph (levels s @ [[]])" using keeps_edges_empty kahn_invD(10)[OF assms] by blast
  ultimately show ?thesis
    using kahn_invD(1,5,11)[OF assms] inv(5) unfolding kahn_inv_def t p by auto
next
  case False
  then have "next_stratum s = s" by (auto simp: next_stratum_def)
  then show ?thesis using assms by simp
qed

lemma next_stratum_stuck:
  assumes "kahn_inv graph N s" "safe_pending (next_stratum s) = []" "v < N"
    and "preds graph v \<subseteq> popped (next_stratum s)"
  shows "v \<in> popped (next_stratum s)"
proof -
  have "unsafe_nodes (next_stratum s) = []" using assms(2) by (auto simp: next_stratum_def split: if_splits)
  moreover have "preds graph v - popped (next_stratum s) = {}" using assms(4) by blast
  ultimately show ?thesis using kahn_invD(5,7)[OF next_stratum_inv[OF assms(1)]] assms(2,3) by (metis card.empty empty_iff list.set(1))
qed

lemma relax_distinct: "distinct (unsafe_nodes s) \<Longrightarrow> distinct (unsafe_nodes (fold relax es s))"
  by (induction es arbitrary: s) (auto simp: relax_def Let_def split: prod.split)

lemma popped_preds:
  assumes "kahn_inv graph N s" "v \<in> popped s"
  shows "preds graph v \<subseteq> popped s"
proof
  fix u
  assume "u \<in> preds graph v"
  then obtain p where e: "(u, v, p) \<in> edges graph" by (auto simp: preds_def)
  obtain i where "i < length (levels s)" "v \<in> set (levels s ! i)" using assms(2) unfolding placed_def by (metis in_set_conv_nth set_concat UN_E)
  then obtain j where "j \<le> i" "u \<in> set (levels s ! j)" using kahn_invD(10)[OF assms(1)] e unfolding keeps_edges_def by meson
  then show "u \<in> popped s" using \<open>i < length (levels s)\<close> unfolding placed_def by (metis UN_I le_less_trans nth_mem set_concat)
qed

definition out_edges :: "nat stratified_graph \<Rightarrow> nat \<Rightarrow> (nat \<times> bool) list" where
  "out_edges graph u = (case map_of graph u of None \<Rightarrow> [] | Some es \<Rightarrow> es)"

lemma out_edges_iff: "graph_ok N graph \<Longrightarrow> (v, p) \<in> set (out_edges graph u) \<longleftrightarrow> (u, v, p) \<in> edges graph"
  unfolding out_edges_def edges_of by (cases "map_of graph u") auto

lemma out_edges_distinct: "graph_ok N graph \<Longrightarrow> distinct (map fst (out_edges graph u))"
  unfolding out_edges_def graph_ok_def by (cases "map_of graph u") (auto dest: map_of_SomeD)

definition kahn_step :: "nat stratified_graph \<Rightarrow> kahn \<Rightarrow> nat \<Rightarrow> nat list \<Rightarrow> kahn" where
  "kahn_step graph s removed rest =
     fold relax (out_edges graph removed)
       (s\<lparr>safe_pending := rest, current_stratum := current_stratum s @ [removed]\<rparr>)"

lemma pending_facts:
  assumes inv: "kahn_inv graph N s" and pending: "safe_pending s = r # rest"
  shows "r < N" "set rest \<subseteq> {..<N}" "distinct (placed s)" "r \<notin> popped s" "r \<notin> set rest" "distinct rest"
    and "popped s \<inter> set rest = {}" "in_degree s ! r = 0" "\<And>v. v \<in> set rest \<Longrightarrow> in_degree s ! v = 0"
  using kahn_invD(1,3,4,5,6)[OF inv] pending by auto

lemma relax_target:
  assumes ok: "graph_ok N graph" and inv: "kahn_inv graph N s" and pending: "safe_pending s = r # rest"
    and e: "(r, v, p) \<in> edges graph"
  shows "v < N \<and> v \<notin> popped s \<and> v \<noteq> r \<and> v \<notin> set rest"
proof -
  have v: "v < N" "r \<in> preds graph v" using edge_bounds[OF ok e] e by (auto simp: preds_def)
  then have "v \<notin> popped s" using popped_preds[OF inv] pending_facts(4)[OF inv pending] by blast
  moreover have "preds graph v - popped s \<noteq> {}" using v(2) pending_facts(4)[OF inv pending] by blast
  then have "in_degree s ! v \<noteq> 0" using kahn_invD(5)[OF inv] v(1) by simp
  ultimately show ?thesis using v pending_facts(8,9)[OF inv pending] by metis
qed

lemma kahn_step_effect:
  assumes ok: "graph_ok N graph" and inv: "kahn_inv graph N s" and pending: "safe_pending s = r # rest"
    and t: "t = kahn_step graph s r rest"
  shows "length (in_degree t) = N"
    and "\<And>v. v < N \<Longrightarrow> in_degree t ! v = in_degree s ! v - (if r \<in> preds graph v then 1 else 0)"
    and "set (unsafe_nodes t) = set (unsafe_nodes s) \<union> {v. (r, v, True) \<in> edges graph}"
    and "strata t = strata s" "current_stratum t = current_stratum s @ [r]" "placed t = placed s @ [r]"
    and "\<exists>new. safe_pending t = new @ rest \<and> distinct new
         \<and> set new = {v. (r, v, False) \<in> edges graph \<and> in_degree s ! v - 1 = 0 \<and> v \<notin> set (unsafe_nodes s)}"
proof -
  let ?es = "out_edges graph r"
  let ?s = "s\<lparr>safe_pending := rest, current_stratum := current_stratum s @ [r]\<rparr>"
  have pre: "\<forall>(v, p) \<in> set ?es. v < length (in_degree ?s) \<and> v \<notin> set (safe_pending ?s)"
    using relax_target[OF ok inv pending] kahn_invD(1)[OF inv] by (auto simp: out_edges_iff[OF ok])
  have img: "v \<in> fst ` set ?es \<longleftrightarrow> r \<in> preds graph v" for v
    using out_edges_iff[OF ok] by (force simp: preds_def)
  note R = relax_fold[OF out_edges_distinct[OF ok] pre, unfolded img out_edges_iff[OF ok]]
  show "length (in_degree t) = N"
    and "\<And>v. v < N \<Longrightarrow> in_degree t ! v = in_degree s ! v - (if r \<in> preds graph v then 1 else 0)"
    and "set (unsafe_nodes t) = set (unsafe_nodes s) \<union> {v. (r, v, True) \<in> edges graph}"
    and st: "strata t = strata s" "current_stratum t = current_stratum s @ [r]"
    and "\<exists>new. safe_pending t = new @ rest \<and> distinct new
         \<and> set new = {v. (r, v, False) \<in> edges graph \<and> in_degree s ! v - 1 = 0 \<and> v \<notin> set (unsafe_nodes s)}"
    using R kahn_invD(1)[OF inv] unfolding t kahn_step_def by simp_all
  show "placed t = placed s @ [r]" unfolding placed_def st by simp
qed

lemma pending_preds:
  assumes inv: "kahn_inv graph N s" and pending: "safe_pending s = r # rest"
  shows "preds graph r \<subseteq> popped s"
  using kahn_invD(5)[OF inv] pending_facts(1,8)[OF inv pending] by (simp add: card_eq_0_iff)

lemma kahn_step_keeps_edges:
  assumes ok: "graph_ok N graph" and inv: "kahn_inv graph N s" and pending: "safe_pending s = r # rest"
  shows "keeps_edges graph (strata s @ [current_stratum s @ [r]])"
proof (rule keeps_edges_extend[OF kahn_invD(10)[OF inv]])
  fix u p
  assume e: "(u, r, p) \<in> edges graph"
  have "u \<in> popped s" using pending_preds[OF inv pending] e by (auto simp: preds_def)
  then obtain j where j: "j < length (levels s)" "u \<in> set (levels s ! j)"
    unfolding placed_def by (metis in_set_conv_nth set_concat UN_E)
  have "j < length (strata s)" if p
  proof (rule ccontr)
    assume "\<not> j < length (strata s)"
    then have "u \<in> set (current_stratum s)" using j by (simp add: nth_append nth_Cons' split: if_splits)
    then have "r \<in> set (unsafe_nodes s)" using kahn_invD(9)[OF inv] e that by auto
    then show False using kahn_invD(8)[OF inv] pending by auto
  qed
  then show "\<exists>j \<le> length (strata s). u \<in> set (levels s ! j) \<and> (p \<longrightarrow> j < length (strata s))"
    using j by (intro exI[of _ j]) auto
qed

lemma edge_label_unique:
  "graph_ok N graph \<Longrightarrow> (u, v, p) \<in> edges graph \<Longrightarrow> (u, v, q) \<in> edges graph \<Longrightarrow> p = q"
  unfolding out_edges_iff[symmetric] by (rule eq_key_imp_eq_value[OF out_edges_distinct])

lemma kahn_step_inv:
  assumes ok: "graph_ok N graph" and inv: "kahn_inv graph N s" and pending: "safe_pending s = r # rest"
    and t: "t = kahn_step graph s r rest"
  shows "kahn_inv graph N t"
proof -
  note fold = kahn_step_effect[OF ok inv pending t]
  note P = pending_facts[OF inv pending] and target = relax_target[OF ok inv pending]
  obtain new where new: "safe_pending t = new @ rest" "distinct new"
      "set new = {v. (r, v, False) \<in> edges graph \<and> in_degree s ! v - 1 = 0 \<and> v \<notin> set (unsafe_nodes s)}"
    using fold(7) by blast
  have new_t: "set new \<subseteq> {..<N} - popped s - set (r # rest)" using target unfolding new(3) by auto
  have A: "distinct (placed t @ safe_pending t)" "set (placed t @ safe_pending t) \<subseteq> {..<N}"
    using kahn_invD(4)[OF inv] P new_t new(2) unfolding fold(6) new(1) by auto
  have B: "in_degree t ! v = card (preds graph v - popped t)" if "v < N" for v
  proof -
    have "preds graph v - popped t = preds graph v - popped s - {r}" unfolding fold(6) by auto
    then show ?thesis using P(4) kahn_invD(5)[OF inv] that unfolding fold(2)[OF that] by (simp add: card_Diff_singleton_if)
  qed
  have C: "in_degree t ! v = 0" if "v \<in> set (safe_pending t)" for v
  proof (cases "v \<in> set rest")
    case False
    then have "v < N" "r \<in> preds graph v" "in_degree s ! v - 1 = 0"
      using that new_t unfolding new(1,3) set_append preds_def by auto
    then show ?thesis using fold(2) by simp
  qed (use P(2,9) fold(2) in auto)
  have D: "v \<in> set (safe_pending t) \<or> v \<in> set (unsafe_nodes t)" if "v < N" "in_degree t ! v = 0" "v \<notin> popped t" for v
  proof (cases "in_degree s ! v = 0")
    case True
    then show ?thesis using kahn_invD(7)[OF inv] that(1,3) pending unfolding new(1) fold(3,6) by auto
  next
    case False
    then have "r \<in> preds graph v" "in_degree s ! v - 1 = 0" using that(2) fold(2)[OF that(1)] by (auto split: if_splits)
    moreover from this obtain p where "(r, v, p) \<in> edges graph" by (auto simp: preds_def)
    ultimately show ?thesis unfolding new(1) fold(3) set_append new(3) by (cases p) auto
  qed
  have E: "v < N \<and> v \<notin> popped t \<and> v \<notin> set (safe_pending t)" if "v \<in> set (unsafe_nodes t)" for v
  proof (cases "v \<in> set (unsafe_nodes s)")
    case True
    then show ?thesis using kahn_invD(8)[OF inv] pending unfolding fold(6) new(1) set_append new(3) by auto
  next
    case False
    then have "(r, v, True) \<in> edges graph" using that unfolding fold(3) by blast
    then show ?thesis using target edge_label_unique[OF ok, of r v True False] unfolding fold(6) new(1) set_append new(3) by auto
  qed
  have F: "\<forall>u \<in> set (current_stratum t). \<forall>v. (u, v, True) \<in> edges graph \<longrightarrow> v \<in> set (unsafe_nodes t)"
    using kahn_invD(9)[OF inv] unfolding fold(3,5) by auto
  have G: "keeps_edges graph (levels t)" unfolding fold(4,5) by (rule kahn_step_keeps_edges[OF ok inv pending])
  have H: "topological graph (placed t)"
    unfolding fold(6) by (rule topological_snoc[OF kahn_invD(11)[OF inv] pending_preds[OF inv pending]])
  have "distinct (unsafe_nodes t)" unfolding t kahn_step_def using relax_distinct kahn_invD(2)[OF inv] by simp
  then show ?thesis unfolding kahn_inv_def using fold(1) A B C D E F G H by blast
qed

subsection \<open>The whole sort\<close>

lemma kahn_loop_step:
  "kahn_loop (Suc n) graph s =
     (case safe_pending (next_stratum s) of
        [] \<Rightarrow> Some (strata (next_stratum s) @ (if current_stratum (next_stratum s) = [] then [] else [current_stratum (next_stratum s)]))
      | r # rest \<Rightarrow> kahn_loop n graph (kahn_step graph (next_stratum s) r rest))"
  by (auto simp: Let_def kahn_step_def out_edges_def split: list.split option.split)

lemma keeps_edges_butlast: "keeps_edges graph (ss @ [[]]) \<Longrightarrow> keeps_edges graph ss"
  unfolding keeps_edges_def
proof (intro allI impI ballI)
  fix i v u p
  assume r: "\<forall>i < length (ss @ [[]]). \<forall>v \<in> set ((ss @ [[]]) ! i). \<forall>u p. (u, v, p) \<in> edges graph \<longrightarrow>
      (\<exists>j \<le> i. u \<in> set ((ss @ [[]]) ! j) \<and> (p \<longrightarrow> j < i))"
    and i: "i < length ss" "v \<in> set (ss ! i)" "(u, v, p) \<in> edges graph"
  then have "i < length (ss @ [[]])" "v \<in> set ((ss @ [[]]) ! i)" by (simp_all add: nth_append)
  then obtain j where "j \<le> i" "u \<in> set ((ss @ [[]]) ! j)" "p \<longrightarrow> j < i" using r i(3) by blast
  then show "\<exists>j \<le> i. u \<in> set (ss ! j) \<and> (p \<longrightarrow> j < i)" using i(1) by (intro exI[of _ j]) (auto simp: nth_append)
qed

definition stratification :: "nat stratified_graph \<Rightarrow> nat \<Rightarrow> nat list list \<Rightarrow> bool" where
  "stratification graph N ss \<longleftrightarrow> distinct (concat ss) \<and> set (concat ss) \<subseteq> {..<N} \<and> keeps_edges graph ss
     \<and> (\<forall>v < N. preds graph v \<subseteq> set (concat ss) \<longrightarrow> v \<in> set (concat ss)) \<and> topological graph (concat ss)"

lemma kahn_final:
  assumes "graph_ok N graph" "kahn_inv graph N s" "safe_pending (next_stratum s) = []"
  shows "stratification graph N (strata (next_stratum s) @ (if current_stratum (next_stratum s) = [] then [] else [current_stratum (next_stratum s)]))"
proof -
  let ?t = "next_stratum s"
  let ?ss = "strata ?t @ (if current_stratum ?t = [] then [] else [current_stratum ?t])"
  have inv: "kahn_inv graph N ?t" by (rule next_stratum_inv[OF assms(2)])
  have c: "concat ?ss = placed ?t" by (simp add: placed_def)
  have "keeps_edges graph ?ss" using kahn_invD(10)[OF inv] keeps_edges_butlast[of graph "strata ?t"]
    by (cases "current_stratum ?t = []") simp_all
  then show ?thesis
    unfolding stratification_def c using kahn_invD(3,4,11)[OF inv] next_stratum_stuck[OF assms(2,3)] by auto
qed

lemma kahn_loop_stratifies:
  assumes "graph_ok N graph" "kahn_inv graph N s" "N - length (placed s) < n"
  shows "\<exists>ss. kahn_loop n graph s = Some ss \<and> stratification graph N ss"
  using assms(2,3)
proof (induction n arbitrary: s)
  case (Suc n)
  let ?t = "next_stratum s"
  have inv: "kahn_inv graph N ?t" by (rule next_stratum_inv[OF Suc.prems(1)])
  have pl: "placed ?t = placed s" by (simp add: placed_def next_stratum_def)
  show ?case
  proof (cases "safe_pending ?t")
    case Nil
    then show ?thesis using kahn_final[OF assms(1) Suc.prems(1)] by (simp only: kahn_loop_step list.case) blast
  next
    case (Cons r rest)
    let ?u = "kahn_step graph ?t r rest"
    have u: "kahn_inv graph N ?u" "placed ?u = placed s @ [r]"
      using kahn_step_inv[OF assms(1) inv Cons refl] kahn_step_effect(6)[OF assms(1) inv Cons refl] pl by simp_all
    have "length (placed ?u) \<le> N"
      using kahn_invD(3,4)[OF u(1)] by (metis card_lessThan card_mono distinct_append distinct_card finite_lessThan le_sup_iff set_append)
    then have "N - length (placed ?u) < n" using Suc.prems(2) u(2) by simp
    then show ?thesis using Suc.IH[OF u(1)] Cons by (simp only: kahn_loop_step list.case)
  qed
qed simp

lemma degree_fold:
  assumes "\<forall>(u, v, p) \<in> set es. v < length ds"
  shows "\<exists>ds'. fold (\<lambda>(fr, to, p) d. case d of
             None \<Rightarrow> None
           | Some ds \<Rightarrow> if to < length ds then Some (ds[to := ds ! to + 1]) else None) es (Some ds) = Some ds'
     \<and> length ds' = length ds
     \<and> (\<forall>v < length ds. ds' ! v = ds ! v + length (filter (\<lambda>(fr, to, p). to = v) es))"
  using assms
proof (induction es arbitrary: ds)
  case (Cons e es)
  obtain u w p where e: "e = (u, w, p)" by (cases e)
  have w: "w < length ds" using Cons.prems e by simp
  obtain ds' where "fold (\<lambda>(fr, to, p) d. case d of
             None \<Rightarrow> None
           | Some ds \<Rightarrow> if to < length ds then Some (ds[to := ds ! to + 1]) else None) es (Some (ds[w := ds ! w + 1])) = Some ds'"
      "length ds' = length ds"
      "\<forall>v < length ds. ds' ! v = ds[w := ds ! w + 1] ! v + length (filter (\<lambda>(fr, to, p). to = v) es)"
    using Cons.IH[of "ds[w := ds ! w + 1]"] Cons.prems by auto
  then show ?case using w e by (auto simp: nth_list_update)
qed simp

lemma edge_list_distinct:
  "distinct (map fst graph) \<Longrightarrow> \<forall>(fr, tos) \<in> set graph. distinct (map fst tos) \<Longrightarrow> distinct (edge_list graph)"
proof (induction graph)
  case (Cons e graph)
  obtain fr tos where e: "e = (fr, tos)" by force
  have "distinct tos" using Cons.prems(2) e by (simp add: distinct_map)
  then have "distinct (map (\<lambda>(to, p). (fr, to, p)) tos)" by (auto simp: distinct_map inj_on_def)
  moreover have "set (map (\<lambda>(to, p). (fr, to, p)) tos) \<inter> edges graph = {}"
    using Cons.prems(1) e by (force simp: edges_iff)
  ultimately show ?case using Cons e by (auto simp: edge_list_def)
qed (simp add: edge_list_def)

lemma in_edges_card:
  assumes "graph_ok N graph"
  shows "length (filter (\<lambda>(fr, to, p). to = v) (edge_list graph)) = card (preds graph v)"
proof -
  have "distinct (edge_list graph)" using edge_list_distinct assms by (auto simp: graph_ok_def)
  then have "length (filter (\<lambda>(fr, to, p). to = v) (edge_list graph)) = card {e \<in> edges graph. fst (snd e) = v}"
    by (subst distinct_card[symmetric]) (auto simp: case_prod_unfold)
  moreover have "bij_betw fst {e \<in> edges graph. fst (snd e) = v} (preds graph v)"
    using edge_label_unique[OF assms] by (auto simp: bij_betw_def inj_on_def preds_def image_iff) 
  ultimately show ?thesis using bij_betw_same_card by fastforce
qed

lemma count_degrees_preds:
  assumes "graph_ok N graph"
  shows "\<exists>ds. count_degrees graph N = Some ds \<and> length ds = N \<and> (\<forall>v < N. ds ! v = card (preds graph v))"
proof -
  have "\<forall>(u, v, p) \<in> edges graph. v < length (replicate N (0::nat))" using edge_bounds[OF assms] by auto
  from degree_fold[OF this] show ?thesis
    unfolding count_degrees_def in_edges_card[OF assms] by auto
qed

lemma kahn_start_inv:
  assumes "length ds = N" "\<forall>v < N. ds ! v = card (preds graph v)"
  shows "kahn_inv graph N (kahn_start ds)"
  using assms by (auto simp: kahn_inv_def kahn_start_def placed_def keeps_edges_def topological_def)

lemma generalized_kahn_result:
  assumes "graph_ok N graph"
  shows "\<exists>ss. generalized_kahn graph N = Some ss \<and> stratification graph N ss"
proof -
  obtain ds where ds: "count_degrees graph N = Some ds" "length ds = N" "\<forall>v < N. ds ! v = card (preds graph v)"
    using count_degrees_preds[OF assms] by blast
  show ?thesis
    unfolding generalized_kahn_def ds(1) option.case
    using kahn_loop_stratifies[OF assms kahn_start_inv[OF ds(2,3)], of "Suc N"] by simp
qed

definition arcs :: "nat stratified_graph \<Rightarrow> (nat \<times> nat) set" where
  "arcs graph = {(u, v). \<exists>p. (u, v, p) \<in> edges graph}"

lemma stratification_complete:
  assumes ok: "graph_ok N graph" and ss: "stratification graph N ss" and "acyclic (arcs graph)"
  shows "set (concat ss) = {..<N}"
proof -
  have "arcs graph \<subseteq> (\<lambda>(u, v, p). (u, v)) ` edges graph" by (force simp: arcs_def)
  then have "finite (arcs graph)" by (rule finite_subset) simp
  then have "wf (arcs graph)" using assms(3) by (rule finite_acyclic_wf)
  then have "v < N \<longrightarrow> v \<in> set (concat ss)" for v
  proof (induction v rule: wf_induct_rule)
    case (less v)
    have "u \<in> set (concat ss)" if u: "u \<in> preds graph v" for u
    proof -
      obtain p where "(u, v, p) \<in> edges graph" using u by (auto simp: preds_def)
      then have "(u, v) \<in> arcs graph" "u < N" using edge_bounds[OF ok] by (auto simp: arcs_def)
      then show ?thesis using less by blast
    qed
    then show ?case using ss unfolding stratification_def by blast
  qed
  then show ?thesis using ss unfolding stratification_def by auto
qed

text \<open>C8. On every well-formed graph the generalised Kahn sort returns, and what it returns is a
  topological order and a stratification at once: no node is listed twice, in the strata one after the
  other every source of an edge stands before its target, also within a stratum, and it is in a strictly
  earlier stratum when the edge is poisoned; on an acyclic graph every node is listed.\<close>

theorem generalized_kahn_stratifies:
  assumes "graph_ok N graph"
  shows "\<exists>ss. generalized_kahn graph N = Some ss \<and> distinct (concat ss) \<and> set (concat ss) \<subseteq> {..<N}
     \<and> (\<forall>i < length ss. \<forall>v \<in> set (ss ! i). \<forall>u p. (u, v, p) \<in> set (edge_list graph) \<longrightarrow>
          (\<exists>j \<le> i. u \<in> set (ss ! j) \<and> (p \<longrightarrow> j < i)))
     \<and> (\<forall>ys v zs u p. concat ss = ys @ v # zs \<longrightarrow> (u, v, p) \<in> set (edge_list graph) \<longrightarrow> u \<in> set ys)
     \<and> (acyclic (arcs graph) \<longrightarrow> set (concat ss) = {..<N})"
proof -
  obtain ss where ss: "generalized_kahn graph N = Some ss" "stratification graph N ss"
    using generalized_kahn_result[OF assms] by blast
  then have t: "distinct (concat ss)" "set (concat ss) \<subseteq> {..<N}" "keeps_edges graph ss" "topological graph (concat ss)"
    unfolding stratification_def by argo+
  have "\<forall>ys v zs u p. concat ss = ys @ v # zs \<longrightarrow> (u, v, p) \<in> edges graph \<longrightarrow> u \<in> set ys"
    using t(4) unfolding topological_def preds_def by blast
  then show ?thesis
    using ss(1) t(1-3) stratification_complete[OF assms ss(2)] unfolding keeps_edges_def by (intro exI[of _ ss] conjI impI)
qed

definition sample_strata_graph :: "nat stratified_graph" where
  "sample_strata_graph = [(0, [(1, True), (2, False)]), (1, [(3, False)]), (2, [(1, False), (3, True)])]"

theorem generalized_kahn_stratifies_witness:
  "\<exists>ss. generalized_kahn sample_strata_graph 4 = Some ss \<and> distinct (concat ss) \<and> set (concat ss) \<subseteq> {..<4}
     \<and> (\<forall>i < length ss. \<forall>v \<in> set (ss ! i). \<forall>u p. (u, v, p) \<in> set (edge_list sample_strata_graph) \<longrightarrow>
          (\<exists>j \<le> i. u \<in> set (ss ! j) \<and> (p \<longrightarrow> j < i)))
     \<and> (\<forall>ys v zs u p. concat ss = ys @ v # zs \<longrightarrow> (u, v, p) \<in> set (edge_list sample_strata_graph) \<longrightarrow> u \<in> set ys)
     \<and> (acyclic (arcs sample_strata_graph) \<longrightarrow> set (concat ss) = {..<4})"
  by (rule generalized_kahn_stratifies) (simp add: graph_ok_def sample_strata_graph_def)

section \<open>Reachability\<close>

definition succs :: "'k graph \<Rightarrow> ('k \<times> 'k) set" where
  "succs graph = {(u, v). \<exists>vs. map_of graph u = Some vs \<and> v \<in> set vs}"

definition targets :: "'k graph \<Rightarrow> 'k set" where
  "targets graph = (\<Union>(u, vs) \<in> set graph. set vs)"

lemma targets_finite [simp]: "finite (targets graph)"
  by (auto simp: targets_def)

lemma targets_size: "card (targets graph) \<le> graph_size graph"
proof (induction graph)
  case (Cons e graph)
  obtain u vs where e: "e = (u, vs)" by force
  have "targets (e # graph) = set vs \<union> targets graph" by (simp add: targets_def e)
  then have "card (targets (e # graph)) \<le> length vs + card (targets graph)"
    using card_Un_le[of "set vs" "targets graph"] card_length[of vs] by simp
  then show ?case using Cons by (simp add: graph_size_def e)
qed (simp add: targets_def)

lemma succs_targets: "(u, v) \<in> succs graph \<Longrightarrow> v \<in> targets graph"
  by (force simp: succs_def targets_def dest: map_of_SomeD)

lemma card_insert_less:
  "finite U \<Longrightarrow> x \<in> U \<Longrightarrow> x \<notin> A \<Longrightarrow> card (U - insert x A) < card (U - A)"
  by (rule psubset_card_mono) auto

text \<open>A walk collects what its start reaches, and leaves nothing it collected half explored.\<close>

definition walked :: "'k graph \<Rightarrow> 'k set \<Rightarrow> 'k set \<Rightarrow> 'k set \<Rightarrow> bool" where
  "walked graph from before after \<longleftrightarrow> before \<subseteq> after \<and> after \<subseteq> before \<union> (succs graph)\<^sup>* `` from
     \<and> succs graph `` (after - before) \<subseteq> after"

lemma walked_step:
  assumes w1: "walked graph {el} (insert el before) mid" and s: "succs graph `` {el} \<subseteq> mid" and w2: "walked graph els mid after"
  shows "walked graph (insert el els) before after"
  unfolding walked_def
proof (intro conjI)
  show "before \<subseteq> after" using w1 w2 by (auto simp: walked_def)
  have "after \<subseteq> mid \<union> (succs graph)\<^sup>* `` els" "mid \<subseteq> insert el before \<union> (succs graph)\<^sup>* `` {el}"
    using w1 w2 by (simp_all add: walked_def)
  then show "after \<subseteq> before \<union> (succs graph)\<^sup>* `` insert el els" by blast
  show "succs graph `` (after - before) \<subseteq> after"
  proof (clarify)
    fix u v assume u: "u \<in> after" "u \<notin> before" "(u, v) \<in> succs graph"
    have "v \<in> mid" if "u \<in> mid" using that u s w1 unfolding walked_def by (cases "u = el") blast+
    then show "v \<in> after" using u w2 unfolding walked_def by (cases "u \<in> mid") blast+
  qed
qed

lemma walk_correct:
  fixes graph :: "'k graph"
  shows "card (targets graph - set c) < n \<Longrightarrow>
    \<exists>c'. walk n graph x c = Some c' \<and> walked graph {x} (set c) (set c') \<and> succs graph `` {x} \<subseteq> set c'"
    and "set els \<subseteq> targets graph \<Longrightarrow> card (targets graph - set c) \<le> n \<Longrightarrow>
    \<exists>c'. walk_children n graph els c = Some c' \<and> walked graph (set els) (set c) (set c') \<and> set els \<subseteq> set c'"
proof (induction n graph x c and n graph els c rule: walk_walk_children.induct)
  case (2 n graph x c)
  show ?case
  proof (cases "map_of graph x")
    case None
    then show ?thesis by (auto simp: walked_def succs_def)
  next
    case (Some els)
    have x: "succs graph `` {x} = set els" using Some by (auto simp: succs_def)
    have "set els \<subseteq> targets graph"
    proof
      fix v assume "v \<in> set els"
      then have "(x, v) \<in> succs graph" using Some by (auto simp: succs_def)
      then show "v \<in> targets graph" by (rule succs_targets)
    qed
    moreover have "card (targets graph - set c) \<le> n" using "2.prems" by simp
    ultimately obtain c' where c': "walk_children n graph els c = Some c'" "walked graph (set els) (set c) (set c')" "set els \<subseteq> set c'"
      using "2.IH"[OF Some] by blast
    have "(succs graph)\<^sup>* `` set els \<subseteq> (succs graph)\<^sup>* `` {x}"
      unfolding x[symmetric] by (auto intro: converse_rtrancl_into_rtrancl)
    then have "walked graph {x} (set c) (set c')" using c'(2) unfolding walked_def by blast
    then show ?thesis using c' Some x by simp
  qed
next
  case (4 n graph el els c)
  show ?case
  proof (cases "el \<in> set c")
    case True
    obtain c' where "walk_children n graph els c = Some c'" "walked graph (set els) (set c) (set c')" "set els \<subseteq> set c'"
      using "4.IH"(1)[OF True] "4.prems" by auto
    then show ?thesis using True unfolding walked_def by auto
  next
    case False
    have el: "el \<in> targets graph" "set els \<subseteq> targets graph" using "4.prems" by auto
    have less: "card (targets graph - set (el # c)) < n"
      using card_insert_less[OF targets_finite el(1) False] "4.prems"(2) by simp
    then obtain c1 where c1: "walk n graph el (el # c) = Some c1" "walked graph {el} (set (el # c)) (set c1)" "succs graph `` {el} \<subseteq> set c1"
      using "4.IH"(2)[OF False] by blast
    have "card (targets graph - set c1) \<le> card (targets graph - set (el # c))"
      using c1(2) by (intro card_mono) (auto simp: walked_def)
    then have "card (targets graph - set c1) \<le> n" using less by simp
    then obtain c' where c': "walk_children n graph els c1 = Some c'" "walked graph (set els) (set c1) (set c')" "set els \<subseteq> set c'"
      using "4.IH"(3)[OF False c1(1) el(2)] by blast
    have "walked graph (set (el # els)) (set c) (set c')"
      using walked_step[of graph el "set c" "set c1" "set els" "set c'"] c1(2,3) c'(2) by simp
    moreover have "el \<in> set c'" using c1(2) c'(2) by (auto simp: walked_def)
    ultimately show ?thesis using c1(1) c'(1,3) False by simp
  qed
qed (auto simp: walked_def)

lemma reachable_components_image:
  "\<exists>xs. reachable_components graph start = Some xs \<and> set xs = (succs graph)\<^sup>* `` {start}"
proof -
  have "card (targets graph - set [start]) < Suc (Suc (graph_size graph))"
    using targets_size[of graph] card_mono[of "targets graph" "targets graph - set [start]"] by simp
  then obtain xs where xs: "reachable_components graph start = Some xs"
      "walked graph {start} (set [start]) (set xs)" "succs graph `` {start} \<subseteq> set xs"
    using walk_correct(1)[of graph "[start]" _ start] unfolding reachable_components_def by blast
  then have "succs graph `` set xs \<subseteq> set xs" "start \<in> set xs" unfolding walked_def by auto
  then have "(succs graph)\<^sup>* `` {start} \<subseteq> set xs" by (metis Image_closed_trancl Image_mono insert_subset empty_subsetI order_refl subset_trans)
  then show ?thesis using xs unfolding walked_def by (intro exI[of _ xs]) auto
qed

text \<open>C35. The components reachable from a start are exactly the nodes with a path from it in the
  graph; the search always returns.\<close>

theorem reachable_components_exact:
  "\<exists>xs. reachable_components graph start = Some xs \<and> set xs = (succs graph)\<^sup>* `` {start}"
  by (rule reachable_components_image)

section \<open>Tarjan's algorithm finds the components\<close>

definition adj :: "nat list list \<Rightarrow> (nat \<times> nat) set" where
  "adj g = {(u, v). u < length g \<and> v \<in> set (g ! u)}"

definition closed_graph :: "nat list list \<Rightarrow> bool" where
  "closed_graph g \<longleftrightarrow> (\<forall>vs \<in> set g. \<forall>v \<in> set vs. v < length g)"

definition seen :: "tarjan \<Rightarrow> nat set" where
  "seen s = {v. v < length (ids s) \<and> ids s ! v \<noteq> None}"

definition num :: "tarjan \<Rightarrow> nat \<Rightarrow> nat" where
  "num s v = the (ids s ! v)"

definition settled :: "tarjan \<Rightarrow> nat set" where
  "settled s = seen s - set (stk s)"

definition mutual :: "nat list list \<Rightarrow> nat \<Rightarrow> nat \<Rightarrow> bool" where
  "mutual g u v \<longleftrightarrow> (u, v) \<in> (adj g)\<^sup>* \<and> (v, u) \<in> (adj g)\<^sup>*"

lemma mutual_trans: "mutual g u v \<Longrightarrow> mutual g v w \<Longrightarrow> mutual g u w"
  unfolding mutual_def by (meson rtrancl_trans)

lemma mutual_sym: "mutual g u v \<Longrightarrow> mutual g v u"
  unfolding mutual_def by simp

text \<open>The search between two steps, with the nodes being explored as \<open>cs\<close>: the tables have
  the length of the graph, the stack has the unsettled nodes, latest number first, and every
  node of it reaches a node under exploration and is reached by the earlier ones; the settled nodes are
  closed under edges and carry the number of their component.\<close>

definition tables_ok :: "nat list list \<Rightarrow> tarjan \<Rightarrow> bool" where
  "tables_ok g s \<longleftrightarrow> length (ids s) = length g \<and> length (low s) = length g \<and> length (on_stack s) = length g
     \<and> (\<forall>v < length g. on_stack s ! v \<longleftrightarrow> v \<in> set (stk s)) \<and> set (stk s) \<subseteq> seen s
     \<and> sorted_wrt (\<lambda>x y. num s y < num s x) (stk s)
     \<and> inj_on (num s) (seen s) \<and> (\<forall>v \<in> seen s. num s v \<le> scc_id s)"

definition stack_ok :: "nat list list \<Rightarrow> nat set \<Rightarrow> tarjan \<Rightarrow> bool" where
  "stack_ok g cs s \<longleftrightarrow> cs \<subseteq> set (stk s)
     \<and> (\<forall>x \<in> set (stk s). \<exists>y \<in> cs. num s y \<le> num s x \<and> (x, y) \<in> (adj g)\<^sup>*)
     \<and> (\<forall>y \<in> cs. \<forall>x \<in> set (stk s). num s y \<le> num s x \<longrightarrow> (y, x) \<in> (adj g)\<^sup>*)
     \<and> (\<forall>x \<in> set (stk s). low s ! x \<le> num s x \<and> (\<exists>w \<in> set (stk s). low s ! x = num s w \<and> (x, w) \<in> (adj g)\<^sup>*))
     \<and> adj g `` (seen s - cs) \<subseteq> seen s"

definition settled_ok :: "nat list list \<Rightarrow> tarjan \<Rightarrow> bool" where
  "settled_ok g s \<longleftrightarrow> adj g `` settled s \<subseteq> settled s \<and> (\<forall>x \<in> settled s. \<exists>w \<in> settled s. low s ! x = num s w)
     \<and> (\<forall>x \<in> settled s. \<forall>y \<in> settled s. low s ! x = low s ! y \<longleftrightarrow> mutual g x y)"

definition tarjan_inv :: "nat list list \<Rightarrow> nat set \<Rightarrow> tarjan \<Rightarrow> bool" where
  "tarjan_inv g cs s \<longleftrightarrow> tables_ok g s \<and> stack_ok g cs s \<and> settled_ok g s"

lemma tables_okD:
  assumes "tables_ok g s"
  shows "length (ids s) = length g" "length (low s) = length g" "length (on_stack s) = length g"
    and "\<And>v. v < length g \<Longrightarrow> on_stack s ! v \<longleftrightarrow> v \<in> set (stk s)" "set (stk s) \<subseteq> seen s"
    and "sorted_wrt (\<lambda>x y. num s y < num s x) (stk s)" "inj_on (num s) (seen s)" "\<And>v. v \<in> seen s \<Longrightarrow> num s v \<le> scc_id s"
  using assms unfolding tables_ok_def by blast+

lemma stack_okD:
  assumes "stack_ok g cs s"
  shows "cs \<subseteq> set (stk s)"
    and "\<And>x. x \<in> set (stk s) \<Longrightarrow> \<exists>y \<in> cs. num s y \<le> num s x \<and> (x, y) \<in> (adj g)\<^sup>*"
    and "\<And>x y. y \<in> cs \<Longrightarrow> x \<in> set (stk s) \<Longrightarrow> num s y \<le> num s x \<Longrightarrow> (y, x) \<in> (adj g)\<^sup>*"
    and "\<And>x. x \<in> set (stk s) \<Longrightarrow> low s ! x \<le> num s x"
    and "\<And>x. x \<in> set (stk s) \<Longrightarrow> \<exists>w \<in> set (stk s). low s ! x = num s w \<and> (x, w) \<in> (adj g)\<^sup>*"
    and "adj g `` (seen s - cs) \<subseteq> seen s"
  using assms unfolding stack_ok_def by simp_all

lemma seen_less: "tables_ok g s \<Longrightarrow> v \<in> seen s \<Longrightarrow> v < length g"
  by (simp add: tables_ok_def seen_def)

lemma stack_seen: "tables_ok g s \<Longrightarrow> v \<in> set (stk s) \<Longrightarrow> v \<in> seen s"
  by (auto simp: tables_ok_def)

lemma stack_distinct: "tables_ok g s \<Longrightarrow> distinct (stk s)"
proof -
  have "sorted_wrt (\<lambda>x y. num s y < num s x) xs \<Longrightarrow> distinct xs" for xs by (induction xs) auto
  then show "tables_ok g s \<Longrightarrow> distinct (stk s)" by (simp add: tables_ok_def)
qed

subsection \<open>Entering a node\<close>

lemma enter_fields:
  assumes "tables_ok g s" "at < length g" "at \<notin> seen s"
  shows "stk (dfs_enter at s) = at # stk s" "seen (dfs_enter at s) = insert at (seen s)"
    and "num (dfs_enter at s) at = Suc (scc_id s)" "low (dfs_enter at s) ! at = Suc (scc_id s)" "scc_id (dfs_enter at s) = Suc (scc_id s)"
    and "\<And>v. v \<noteq> at \<Longrightarrow> ids (dfs_enter at s) ! v = ids s ! v"
    and "\<And>v. v \<noteq> at \<Longrightarrow> num (dfs_enter at s) v = num s v"
    and "\<And>v. v \<noteq> at \<Longrightarrow> low (dfs_enter at s) ! v = low s ! v"
    and "settled (dfs_enter at s) = settled s"
  using assms tables_okD(1-3)[OF assms(1)] tables_okD(5)[OF assms(1)]
  by (auto simp: dfs_enter_def Let_def seen_def num_def settled_def nth_list_update)

lemma enter_tables:
  assumes T: "tables_ok g s" and at: "at < length g" "at \<notin> seen s"
  shows "tables_ok g (dfs_enter at s)"
proof -
  let ?t = "dfs_enter at s"
  note F = enter_fields[OF T at(1,2)]
  have ns: "at \<notin> set (stk s)" using stack_seen[OF T] at(2) by blast
  have old: "v \<noteq> at" if "v \<in> seen s" for v using that at(2) by blast
  have stk_old: "v \<noteq> at" if "v \<in> set (stk s)" for v using that ns by blast
  have fresh: "num s v < Suc (scc_id s)" if "v \<in> seen s" for v using tables_okD(8)[OF T that] by simp
  show ?thesis
    unfolding tables_ok_def F(1,2,5)
  proof (intro conjI)
    show "sorted_wrt (\<lambda>x y. num ?t y < num ?t x) (at # stk s)"
      using tables_okD(6)[OF T] F(3,7) ns fresh stack_seen[OF T]
      by (auto intro: sorted_wrt_mono_rel[of "stk s" "\<lambda>x y. num s y < num s x"] simp: stk_old)
    show "inj_on (num ?t) (insert at (seen s))"
      using tables_okD(7)[OF T] fresh old F(3,7) at(2) by (auto simp: inj_on_def) (metis less_irrefl)+
    show "\<forall>v < length g. on_stack ?t ! v \<longleftrightarrow> v \<in> set (at # stk s)"
      using tables_okD(1-4)[OF T] at(1) by (auto simp: dfs_enter_def Let_def nth_list_update)
    show "\<forall>v \<in> insert at (seen s). num ?t v \<le> Suc (scc_id s)"
      using F(3,7) fresh old by (metis insert_iff le_eq_less_or_eq)
  qed (use tables_okD(1-5)[OF T] in \<open>auto simp: dfs_enter_def Let_def\<close>)
qed

lemma enter_inv:
  assumes inv: "tarjan_inv g cs s" and at: "at < length g" "at \<notin> seen s" "\<And>c. c \<in> cs \<Longrightarrow> (c, at) \<in> (adj g)\<^sup>*"
  shows "tarjan_inv g (insert at cs) (dfs_enter at s)"
proof -
  let ?t = "dfs_enter at s"
  have T: "tables_ok g s" and S: "stack_ok g cs s" and C: "settled_ok g s" using inv by (auto simp: tarjan_inv_def)
  note F = enter_fields[OF T at(1,2)]
  have ns: "at \<notin> set (stk s)" using stack_seen[OF T] at(2) by blast
  have old: "v \<noteq> at" if "v \<in> seen s" for v using that at(2) by blast
  have stk_old: "v \<noteq> at" if "v \<in> set (stk s)" for v using that ns by blast
  have fresh: "num s v < Suc (scc_id s)" if "v \<in> seen s" for v using tables_okD(8)[OF T that] by simp
  have "tables_ok g ?t" by (rule enter_tables[OF T at(1,2)])
  moreover have "stack_ok g (insert at cs) ?t"
    unfolding stack_ok_def F(1,2)
  proof (intro conjI ballI impI)
    show "insert at cs \<subseteq> set (at # stk s)" using stack_okD(1)[OF S] by auto
    show "adj g `` (insert at (seen s) - insert at cs) \<subseteq> insert at (seen s)" using stack_okD(6)[OF S] at(2) by blast
  next
    fix x assume x: "x \<in> set (at # stk s)"
    show "\<exists>y \<in> insert at cs. num ?t y \<le> num ?t x \<and> (x, y) \<in> (adj g)\<^sup>*"
    proof (cases "x = at")
      case False
      then obtain y where "y \<in> cs" "num s y \<le> num s x" "(x, y) \<in> (adj g)\<^sup>*" using stack_okD(2)[OF S, of x] x by auto
      then show ?thesis using False F(7) stk_old stack_okD(1)[OF S] by (intro bexI[of _ y]) auto
    qed auto
    show "low ?t ! x \<le> num ?t x" using x F stack_okD(4)[OF S, of x] by (cases "x = at") auto
    show "\<exists>w \<in> set (at # stk s). low ?t ! x = num ?t w \<and> (x, w) \<in> (adj g)\<^sup>*"
    proof (cases "x = at")
      case False
      then obtain w where "w \<in> set (stk s)" "low s ! x = num s w" "(x, w) \<in> (adj g)\<^sup>*" using stack_okD(5)[OF S, of x] x by auto
      then show ?thesis using False F(7,8) stk_old by (intro bexI[of _ w]) auto
    qed (use F(3,4) in auto)
  next
    fix y x assume y: "y \<in> insert at cs" and x: "x \<in> set (at # stk s)" and le: "num ?t y \<le> num ?t x"
    show "(y, x) \<in> (adj g)\<^sup>*"
    proof (cases "x = at")
      case False
      then have "x \<in> set (stk s)" using x by simp
      moreover from this have "y \<noteq> at" using le F(3) F(7)[OF False] fresh stack_seen[OF T] by fastforce
      ultimately show ?thesis using y le F(7) False stack_okD(3)[OF S, of y x] by simp
    qed (use y at(3) in auto)
  qed
  moreover have "settled_ok g ?t"
    using C old F(7,8) unfolding settled_ok_def F(9) by (simp add: settled_def)
  ultimately show ?thesis by (simp add: tarjan_inv_def)
qed

subsection \<open>Looking at an edge\<close>

lemma edge_fields:
  assumes "tables_ok g s" "at < length g" "to < length g"
  shows "stk (dfs_edge at to s) = stk s" "seen (dfs_edge at to s) = seen s" "ids (dfs_edge at to s) = ids s"
    and "num (dfs_edge at to s) = num s" "settled (dfs_edge at to s) = settled s" "scc_id (dfs_edge at to s) = scc_id s"
    and "on_stack (dfs_edge at to s) = on_stack s" "length (low (dfs_edge at to s)) = length g"
    and "\<And>v. v \<noteq> at \<Longrightarrow> low (dfs_edge at to s) ! v = low s ! v"
    and "low (dfs_edge at to s) ! at = (if to \<in> set (stk s) then min (low s ! at) (low s ! to) else low s ! at)"
  using assms tables_okD(1-4)[OF assms(1)]
  by (auto simp: dfs_edge_def seen_def num_def settled_def fun_eq_iff nth_list_update)

lemma edge_inv:
  assumes inv: "tarjan_inv g (insert at cs) s" and e: "(at, to) \<in> adj g" "to < length g"
  shows "tarjan_inv g (insert at cs) (dfs_edge at to s)"
proof -
  let ?t = "dfs_edge at to s"
  have T: "tables_ok g s" and S: "stack_ok g (insert at cs) s" and C: "settled_ok g s"
    using inv by (auto simp: tarjan_inv_def)
  have at: "at \<in> set (stk s)" using stack_okD(1)[OF S] by simp
  have "at < length g" using e(1) by (simp add: adj_def)
  note F = edge_fields[OF T this e(2)]
  have "tables_ok g ?t" using T unfolding tables_ok_def F by simp
  moreover have "low ?t ! x \<le> num s x \<and> (\<exists>w \<in> set (stk s). low ?t ! x = num s w \<and> (x, w) \<in> (adj g)\<^sup>*)"
    if x: "x \<in> set (stk s)" for x
  proof (cases "x = at \<and> low ?t ! at = low s ! to \<and> to \<in> set (stk s)")
    case True
    then have "low ?t ! at \<le> low s ! at" unfolding F(10) by simp
    then have "low ?t ! at \<le> num s at" using stack_okD(4)[OF S at] by simp
    moreover obtain w where "w \<in> set (stk s)" "low s ! to = num s w" "(to, w) \<in> (adj g)\<^sup>*"
      using stack_okD(5)[OF S] True by blast
    ultimately show ?thesis using True e(1) by (metis converse_rtrancl_into_rtrancl)
  next
    case False
    then have "low ?t ! x = low s ! x" using F(9)[of x] unfolding F(10) by (cases "x = at") (auto simp: F(10) min_def)
    then show ?thesis using stack_okD(4,5)[OF S x] by simp
  qed
  then have "stack_ok g (insert at cs) ?t" using S unfolding stack_ok_def F by blast
  moreover have "low ?t ! x = low s ! x" if "x \<in> settled s" for x
    using that at F(9) by (metis DiffD2 settled_def)
  then have "settled_ok g ?t" using C unfolding settled_ok_def F by simp
  ultimately show ?thesis by (simp add: tarjan_inv_def)
qed

subsection \<open>Leaving a node\<close>

lemma pop_fields:
  assumes "distinct (stk s)" "stk s = seg @ at # base"
  shows "stk (dfs_pop at i (stk s) s) = base" "ids (dfs_pop at i (stk s) s) = ids s" "scc_id (dfs_pop at i (stk s) s) = scc_id s"
    and "on_stack (dfs_pop at i (stk s) s) = fold (\<lambda>v b. b[v := False]) (seg @ [at]) (on_stack s)"
    and "low (dfs_pop at i (stk s) s) = fold (\<lambda>v l. l[v := i]) (seg @ [at]) (low s)"
proof -
  have "at \<notin> set seg \<Longrightarrow> stk (dfs_pop at i (seg @ at # base) r) = base \<and> ids (dfs_pop at i (seg @ at # base) r) = ids r
      \<and> scc_id (dfs_pop at i (seg @ at # base) r) = scc_id r
      \<and> on_stack (dfs_pop at i (seg @ at # base) r) = fold (\<lambda>v b. b[v := False]) (seg @ [at]) (on_stack r)
      \<and> low (dfs_pop at i (seg @ at # base) r) = fold (\<lambda>v l. l[v := i]) (seg @ [at]) (low r)" for r
    by (induction seg arbitrary: r) (auto simp: Let_def)
  then show "stk (dfs_pop at i (stk s) s) = base" "ids (dfs_pop at i (stk s) s) = ids s" "scc_id (dfs_pop at i (stk s) s) = scc_id s"
    "on_stack (dfs_pop at i (stk s) s) = fold (\<lambda>v b. b[v := False]) (seg @ [at]) (on_stack s)"
    "low (dfs_pop at i (stk s) s) = fold (\<lambda>v l. l[v := i]) (seg @ [at]) (low s)"
    using assms by auto
qed

lemma fold_update:
  "length (fold (\<lambda>v b. b[v := i]) vs xs) = length xs"
  "u < length xs \<Longrightarrow> fold (\<lambda>v b. b[v := i]) vs xs ! u = (if u \<in> set vs then i else xs ! u)"
  by (induction vs arbitrary: xs) (auto simp: nth_list_update)

lemma stack_split:
  assumes "tables_ok g s" "stk s = seg @ at # base"
  shows "\<And>x. x \<in> set seg \<Longrightarrow> num s at < num s x" "\<And>x. x \<in> set base \<Longrightarrow> num s x < num s at"
  using tables_okD(6)[OF assms(1)] unfolding assms(2) by (auto simp: sorted_wrt_append)

lemma keep_inv:
  assumes inv: "tarjan_inv g (insert at cs) s" and stk: "stk s = seg @ at # base" and cs: "cs \<subseteq> set base"
    and out: "adj g `` {at} \<subseteq> seen s" and low: "low s ! at \<noteq> num s at"
  shows "tarjan_inv g cs s"
proof -
  have T: "tables_ok g s" and S: "stack_ok g (insert at cs) s" and C: "settled_ok g s"
    using inv by (auto simp: tarjan_inv_def)
  have at: "at \<in> set (stk s)" using stk by simp
  obtain w where w: "w \<in> set (stk s)" "low s ! at = num s w" "(at, w) \<in> (adj g)\<^sup>*" using stack_okD(5)[OF S at] by blast
  then have less: "num s w < num s at" using stack_okD(4)[OF S at] low by simp
  obtain y where y: "y \<in> insert at cs" "num s y \<le> num s w" "(w, y) \<in> (adj g)\<^sup>*" using stack_okD(2)[OF S w(1)] by blast
  then have at_y: "y \<in> cs" "(at, y) \<in> (adj g)\<^sup>*" "num s y \<le> num s at" using less w(3) by auto
  have "\<exists>y \<in> cs. num s y \<le> num s x \<and> (x, y) \<in> (adj g)\<^sup>*" if x: "x \<in> set (stk s)" for x
  proof -
    obtain z where z: "z \<in> insert at cs" "num s z \<le> num s x" "(x, z) \<in> (adj g)\<^sup>*" using stack_okD(2)[OF S x] by blast
    then show ?thesis using at_y by (cases "z = at") (auto intro: rtrancl_trans order_trans)
  qed
  moreover have "adj g `` (seen s - cs) \<subseteq> seen s" using stack_okD(6)[OF S] out by blast
  ultimately have "stack_ok g cs s" using S unfolding stack_ok_def by simp
  then show ?thesis using T C by (simp add: tarjan_inv_def)
qed

lemma root_closed:
  assumes T: "tables_ok g s" and S: "stack_ok g (insert at cs) s" and C: "settled_ok g s" and stk: "stk s = seg @ at # base" and cs: "cs \<subseteq> set base"
    and out: "adj g `` {at} \<subseteq> seen s" and low: "low s ! at = num s at"
    and cross: "\<And>y z. y \<in> set (seg @ [at]) \<Longrightarrow> z \<in> set base \<Longrightarrow> (y, z) \<in> adj g \<Longrightarrow> low s ! at \<le> num s z"
  shows "adj g `` (settled s \<union> set (seg @ [at])) \<subseteq> settled s \<union> set (seg @ [at])"
proof
  fix z assume "z \<in> adj g `` (settled s \<union> set (seg @ [at]))"
  then obtain y where y: "y \<in> settled s \<union> set (seg @ [at])" "(y, z) \<in> adj g" by blast
  show "z \<in> settled s \<union> set (seg @ [at])"
  proof (cases "y \<in> settled s")
    case True
    then show ?thesis using C y(2) unfolding settled_ok_def by blast
  next
    case False
    then have yseg: "y \<in> set (seg @ [at])" using y by blast
    have "y \<in> seen s" using yseg stack_seen[OF T] stk by auto
    moreover have "y \<notin> cs" using yseg cs stack_distinct[OF T] stk by auto
    ultimately have "z \<in> seen s" using stack_okD(6)[OF S] out y(2) by (cases "y = at") auto
    moreover have "z \<notin> set base" using cross[OF yseg _ y(2)] low stack_split(2)[OF T stk] by fastforce
    ultimately show ?thesis unfolding settled_def stk by auto
  qed
qed

lemma root_component:
  assumes T: "tables_ok g s" and S: "stack_ok g (insert at cs) s" and C: "settled_ok g s" and stk: "stk s = seg @ at # base" and cs: "cs \<subseteq> set base"
    and closed: "adj g `` (settled s \<union> set (seg @ [at])) \<subseteq> settled s \<union> set (seg @ [at])" and x: "x \<in> set (seg @ [at])"
  shows "mutual g x at"
proof -
  have le: "num s at \<le> num s x" using x stack_split(1)[OF T stk] by (auto simp: less_imp_le)
  have "(at, x) \<in> (adj g)\<^sup>*" using stack_okD(3)[OF S, of at x] x le stk by auto
  moreover obtain y where y: "y \<in> insert at cs" "(x, y) \<in> (adj g)\<^sup>*" using stack_okD(2)[OF S, of x] x stk by auto
  have "y \<in> settled s \<union> set (seg @ [at])"
    using y(2) x Image_closed_trancl[OF closed] by blast
  then have "y = at" using y(1) cs stack_distinct[OF T] stk by (auto simp: settled_def)
  ultimately show ?thesis using y(2) by (simp add: mutual_def)
qed

lemma settled_extend:
  assumes C: "settled_ok g s" and closed: "adj g `` settled t \<subseteq> settled t" and st: "settled t = settled s \<union> S" "settled s \<inter> S = {}"
    and "at \<in> S" "num t = num s"
    and lowt: "\<And>v. v \<in> settled s \<Longrightarrow> low t ! v = low s ! v" "\<And>v. v \<in> S \<Longrightarrow> low t ! v = num s at"
    and comp: "\<And>v. v \<in> S \<Longrightarrow> mutual g v at"
    and apart: "\<And>x y. x \<in> settled s \<Longrightarrow> y \<in> S \<Longrightarrow> low s ! x \<noteq> num s at \<and> \<not> mutual g x y"
  shows "settled_ok g t"
  unfolding settled_ok_def
proof (intro conjI ballI)
  show "adj g `` settled t \<subseteq> settled t" by (rule closed)
next
  fix x assume "x \<in> settled t"
  then show "\<exists>w \<in> settled t. low t ! x = num t w"
    using C lowt assms(5,6) unfolding st(1) settled_ok_def by (metis Un_iff)
next
  fix x y assume "x \<in> settled t" "y \<in> settled t"
  then consider "x \<in> settled s" "y \<in> settled s" | "x \<in> S" "y \<in> S" | "x \<in> settled s" "y \<in> S" | "x \<in> S" "y \<in> settled s"
    unfolding st(1) by blast
  then show "low t ! x = low t ! y \<longleftrightarrow> mutual g x y"
  proof cases
    case 1
    then show ?thesis using C lowt(1) unfolding settled_ok_def by simp
  next
    case 2
    then show ?thesis using lowt(2) comp mutual_trans mutual_sym by metis
  next
    case 3
    then show ?thesis using lowt apart by simp
  next
    case 4
    then show ?thesis using lowt apart mutual_sym by metis
  qed
qed

lemma pop_inv:
  assumes inv: "tarjan_inv g (insert at cs) s" and stk: "stk s = seg @ at # base" and cs: "cs \<subseteq> set base"
    and out: "adj g `` {at} \<subseteq> seen s" and low: "low s ! at = num s at"
    and cross: "\<And>y z. y \<in> set (seg @ [at]) \<Longrightarrow> z \<in> set base \<Longrightarrow> (y, z) \<in> adj g \<Longrightarrow> low s ! at \<le> num s z"
  defines "t \<equiv> dfs_pop at (low s ! at) (stk s) s"
  shows "tarjan_inv g cs t"
proof -
  have T: "tables_ok g s" and S: "stack_ok g (insert at cs) s" and C: "settled_ok g s"
    using inv by (auto simp: tarjan_inv_def)
  let ?seg = "set (seg @ [at])"
  note F = pop_fields[OF stack_distinct[OF T] stk, of "low s ! at", folded t_def]
  have seen: "seen t = seen s" and num: "num t = num s" by (simp_all add: seen_def num_def F(2) fun_eq_iff)
  have st: "settled t = settled s \<union> ?seg" "settled s \<inter> ?seg = {}" "set base \<inter> ?seg = {}" "set base \<subseteq> seen s" "?seg \<subseteq> seen s"
    using stack_distinct[OF T] stack_seen[OF T] stk by (auto simp: settled_def F(1) seen)
  have lowt: "low t ! v = (if v \<in> ?seg then num s at else low s ! v)" if "v \<in> seen s" for v
    using seen_less[OF T that] tables_okD(2)[OF T] low unfolding F(5) by (subst fold_update(2)) simp_all
  have closed: "adj g `` settled t \<subseteq> settled t" using root_closed[OF T S C stk cs out low cross] st(1) by simp
  have comp: "mutual g x at" if "x \<in> ?seg" for x
    using root_component[OF T S C stk cs closed[unfolded st(1)] that] .
  have "on_stack t ! v \<longleftrightarrow> v \<in> set base" if "v < length g" for v
    unfolding F(4) using that tables_okD(3,4)[OF T] stack_distinct[OF T] stk by (subst fold_update(2)) auto
  then have "tables_ok g t"
    using tables_okD[OF T] st(4) unfolding tables_ok_def seen num F(1-3) F(4,5) fold_update(1)
    by (simp add: stk sorted_wrt_append)
  moreover have "stack_ok g cs t"
    unfolding stack_ok_def F(1) seen num
  proof (intro conjI ballI impI)
    show "cs \<subseteq> set base" by (rule cs)
    show "adj g `` (seen s - cs) \<subseteq> seen s" using stack_okD(6)[OF S] out by blast
  next
    fix x assume x: "x \<in> set base"
    then have xs: "x \<in> set (stk s)" "x \<in> seen s" "x \<notin> ?seg" "num s x < num s at"
      using stk st stack_split(2)[OF T stk] by auto
    obtain y where "y \<in> insert at cs" "num s y \<le> num s x" "(x, y) \<in> (adj g)\<^sup>*" using stack_okD(2)[OF S xs(1)] by blast
    then show "\<exists>y \<in> cs. num s y \<le> num s x \<and> (x, y) \<in> (adj g)\<^sup>*" using xs(4) by auto
    show "low t ! x \<le> num s x" using lowt[OF xs(2)] xs(3) stack_okD(4)[OF S xs(1)] by simp
    obtain w where w: "w \<in> set (stk s)" "low s ! x = num s w" "(x, w) \<in> (adj g)\<^sup>*" using stack_okD(5)[OF S xs(1)] by blast
    then have "num s w < num s at" using stack_okD(4)[OF S xs(1)] xs(4) by simp
    then have "w \<in> set base" using w(1) stack_split(1)[OF T stk] stk by fastforce
    then show "\<exists>w \<in> set base. low t ! x = num s w \<and> (x, w) \<in> (adj g)\<^sup>*" using w lowt[OF xs(2)] xs(3) by auto
  next
    fix y x assume "y \<in> cs" "x \<in> set base" "num s y \<le> num s x"
    then show "(y, x) \<in> (adj g)\<^sup>*" using stack_okD(3)[OF S] stk by simp
  qed
  moreover have "settled_ok g t"
  proof -
    have num_at: "num s w \<noteq> num s at" if "w \<in> settled s" for w
      using that st(2) tables_okD(7)[OF T] stack_seen[OF T] stk by (auto simp: settled_def inj_on_def)
    have apart: "low s ! x \<noteq> num s at \<and> \<not> mutual g x y" if "x \<in> settled s" "y \<in> ?seg" for x y
    proof
      show "low s ! x \<noteq> num s at" using C that(1) num_at unfolding settled_ok_def by metis
      have "adj g `` settled s \<subseteq> settled s" using C by (simp add: settled_ok_def)
      from Image_closed_trancl[OF this] have "(x, y) \<notin> (adj g)\<^sup>*" using that st(2) by blast
      then show "\<not> mutual g x y" by (simp add: mutual_def)
    qed
    show ?thesis
      by (rule settled_extend[OF C closed st(1,2)]) (use lowt num apart comp seen st(5) in \<open>auto simp: settled_def\<close>)
  qed
  ultimately show ?thesis by (simp add: tarjan_inv_def)
qed

subsection \<open>The recursion\<close>

text \<open>What a call guarantees for a node that was not seen: the invariant for the nodes still under
  exploration, the entries of the seen nodes as they were, and above the old stack only nodes
  that have no edge into it below the low link of the node.\<close>

definition dfs_post :: "nat list list \<Rightarrow> nat set \<Rightarrow> nat \<Rightarrow> tarjan \<Rightarrow> tarjan \<Rightarrow> bool" where
  "dfs_post g cs at s t \<longleftrightarrow> tarjan_inv g cs t \<and> insert at (seen s) \<subseteq> seen t
     \<and> (\<forall>v \<in> seen s. ids t ! v = ids s ! v \<and> low t ! v = low s ! v)
     \<and> (\<exists>seg. stk t = seg @ stk s \<and> set seg \<inter> seen s = {} \<and> (seg \<noteq> [] \<longrightarrow> at \<in> set seg)
          \<and> (\<forall>y \<in> set seg. \<forall>z \<in> set (stk s). (y, z) \<in> adj g \<longrightarrow> low t ! at \<le> num s z))"

text \<open>The loop over the edges of \<open>at\<close>, entered in the state \<open>s0\<close>, with the targets \<open>todo\<close> still to look at.\<close>

definition exploring :: "nat list list \<Rightarrow> nat set \<Rightarrow> nat \<Rightarrow> nat set \<Rightarrow> tarjan \<Rightarrow> tarjan \<Rightarrow> bool" where
  "exploring g cs at todo s0 s \<longleftrightarrow> tarjan_inv g (insert at cs) s \<and> insert at (seen s0) \<subseteq> seen s
     \<and> cs \<subseteq> set (stk s0) \<and> set (stk s0) \<subseteq> seen s0
     \<and> (\<forall>v \<in> seen s0. ids s ! v = ids s0 ! v \<and> low s ! v = low s0 ! v) \<and> set (g ! at) - todo \<subseteq> seen s
     \<and> (\<exists>seg. stk s = seg @ at # stk s0 \<and> set (seg @ [at]) \<inter> seen s0 = {}
          \<and> (\<forall>y \<in> set (seg @ [at]). \<forall>z \<in> set (stk s0). (y, z) \<in> adj g \<longrightarrow> y = at \<and> z \<in> todo \<or> low s ! at \<le> num s0 z))"

lemma exploring_start:
  assumes inv: "tarjan_inv g cs s" and at: "at < length g" "at \<notin> seen s" "\<And>c. c \<in> cs \<Longrightarrow> (c, at) \<in> (adj g)\<^sup>*"
  shows "exploring g cs at (set (g ! at)) s (dfs_enter at s)"
proof -
  have T: "tables_ok g s" and S: "stack_ok g cs s" using inv by (simp_all add: tarjan_inv_def)
  note F = enter_fields[OF T at(1,2)]
  have "v \<noteq> at" if "v \<in> seen s" for v using that at(2) by blast
  then show ?thesis
    unfolding exploring_def F(1,2) using enter_inv[OF inv at] F(6,8) at stack_okD(1)[OF S] tables_okD(5)[OF T] by (auto simp: adj_def)
qed

lemma num_cong: "ids t ! v = ids s ! v \<Longrightarrow> num t v = num s v"
  by (simp add: num_def)

lemma exploringD:
  assumes "exploring g cs at todo s0 s"
  shows "tarjan_inv g (insert at cs) s" "insert at (seen s0) \<subseteq> seen s" "cs \<subseteq> set (stk s0)" "set (stk s0) \<subseteq> seen s0"
    and "\<And>v. v \<in> seen s0 \<Longrightarrow> ids s ! v = ids s0 ! v" "\<And>v. v \<in> seen s0 \<Longrightarrow> low s ! v = low s0 ! v"
    and "set (g ! at) - todo \<subseteq> seen s"
    and "\<exists>seg. stk s = seg @ at # stk s0 \<and> set (seg @ [at]) \<inter> seen s0 = {}
          \<and> (\<forall>y \<in> set (seg @ [at]). \<forall>z \<in> set (stk s0). (y, z) \<in> adj g \<longrightarrow> y = at \<and> z \<in> todo \<or> low s ! at \<le> num s0 z)"
  using assms unfolding exploring_def by blast+

lemma exploring_edge:
  assumes ex: "exploring g cs at (set (to # tos)) s0 s" and e: "(at, to) \<in> adj g" "to < length g" and seen: "to \<in> seen s"
  shows "exploring g cs at (set tos) s0 (dfs_edge at to s)"
proof -
  note X = exploringD[OF ex]
  have T: "tables_ok g s" and S: "stack_ok g (insert at cs) s" using X(1) by (simp_all add: tarjan_inv_def)
  have at: "at < length g" using e by (simp add: adj_def)
  let ?t = "dfs_edge at to s"
  note F = edge_fields[OF T at e(2)]
  obtain seg where seg: "stk s = seg @ at # stk s0" "set (seg @ [at]) \<inter> seen s0 = {}"
      "\<forall>y \<in> set (seg @ [at]). \<forall>z \<in> set (stk s0). (y, z) \<in> adj g \<longrightarrow> y = at \<and> z \<in> set (to # tos) \<or> low s ! at \<le> num s0 z"
    using X(8) by blast
  have le: "low ?t ! at \<le> low s ! at" unfolding F(10) by simp
  have to: "low ?t ! at \<le> num s0 to" if "to \<in> set (stk s0)"
  proof -
    have "to \<in> set (stk s)" using that seg(1) by simp
    then have "low ?t ! at \<le> num s to" using stack_okD(4)[OF S] unfolding F(10) by fastforce
    moreover have "num s to = num s0 to" using that X(4,5) num_cong by blast
    ultimately show ?thesis by simp
  qed
  have "\<forall>y \<in> set (seg @ [at]). \<forall>z \<in> set (stk s0). (y, z) \<in> adj g \<longrightarrow> y = at \<and> z \<in> set tos \<or> low ?t ! at \<le> num s0 z"
  proof (intro ballI impI)
    fix y z assume y: "y \<in> set (seg @ [at])" and z: "z \<in> set (stk s0)" and e: "(y, z) \<in> adj g"
    then have "y = at \<and> z \<in> set (to # tos) \<or> low s ! at \<le> num s0 z" using seg(3) by blast
    then show "y = at \<and> z \<in> set tos \<or> low ?t ! at \<le> num s0 z" using to z le by (cases "z = to") auto
  qed
  moreover have "v \<noteq> at" if "v \<in> seen s0" for v using that seg(2) by auto
  ultimately show ?thesis
    unfolding exploring_def F(1,2,3) using edge_inv[OF X(1) e] X(2-7) seg(1,2) seen F(9) by auto
qed

lemma exploring_child:
  assumes ex: "exploring g cs at (set (to # tos)) s0 s" and e: "(at, to) \<in> adj g" "to < length g" and unseen: "to \<notin> seen s"
    and post: "dfs_post g (insert at cs) to s t"
  shows "exploring g cs at (set tos) s0 (dfs_edge at to t)"
proof -
  note X = exploringD[OF ex]
  have inv: "tarjan_inv g (insert at cs) t" and sub: "insert to (seen s) \<subseteq> seen t"
    and same: "\<And>v. v \<in> seen s \<Longrightarrow> ids t ! v = ids s ! v \<and> low t ! v = low s ! v"
    using post unfolding dfs_post_def by blast+
  obtain new where new: "stk t = new @ stk s" "set new \<inter> seen s = {}" "new \<noteq> [] \<longrightarrow> to \<in> set new"
      "\<forall>y \<in> set new. \<forall>z \<in> set (stk s). (y, z) \<in> adj g \<longrightarrow> low t ! to \<le> num s z"
    using post unfolding dfs_post_def by blast
  have T: "tables_ok g t" using inv by (simp add: tarjan_inv_def)
  have at: "at < length g" using e by (simp add: adj_def)
  let ?u = "dfs_edge at to t"
  note F = edge_fields[OF T at e(2)]
  obtain seg where seg: "stk s = seg @ at # stk s0" "set (seg @ [at]) \<inter> seen s0 = {}"
      "\<forall>y \<in> set (seg @ [at]). \<forall>z \<in> set (stk s0). (y, z) \<in> adj g \<longrightarrow> y = at \<and> z \<in> set (to # tos) \<or> low s ! at \<le> num s0 z"
    using X(8) by blast
  have at_s: "at \<in> seen s" "to \<noteq> at" "to \<notin> set (stk s0)" using X(2,4) unseen by auto
  have le: "low ?u ! at \<le> low s ! at" "new \<noteq> [] \<Longrightarrow> low ?u ! at \<le> low t ! to"
    unfolding F(10) using same[OF at_s(1)] new(1,3) by auto
  have "\<forall>y \<in> set ((new @ seg) @ [at]). \<forall>z \<in> set (stk s0). (y, z) \<in> adj g \<longrightarrow> y = at \<and> z \<in> set tos \<or> low ?u ! at \<le> num s0 z"
  proof (intro ballI impI)
    fix y z assume y: "y \<in> set ((new @ seg) @ [at])" and z: "z \<in> set (stk s0)" and e: "(y, z) \<in> adj g"
    show "y = at \<and> z \<in> set tos \<or> low ?u ! at \<le> num s0 z"
    proof (cases "y \<in> set new")
      case True
      then have "low t ! to \<le> num s z" "new \<noteq> []" using new(4) z e seg(1) by auto
      moreover have "num s z = num s0 z" using z X(4,5) num_cong by blast
      ultimately show ?thesis using le(2) by simp
    next
      case False
      then have "y = at \<and> z \<in> set (to # tos) \<or> low s ! at \<le> num s0 z" using seg(3) y z e by auto
      then show ?thesis using le(1) at_s(3) z by auto
    qed
  qed
  moreover have "v \<noteq> at" "v \<in> seen s" if "v \<in> seen s0" for v using that seg(2) X(2) by auto
  moreover have "set ((new @ seg) @ [at]) \<inter> seen s0 = {}" using new(2) seg(2) X(2) by auto
  ultimately show ?thesis
    unfolding exploring_def F(1,2,3) using edge_inv[OF inv e] X(2-7) seg(1) new(1) same sub F(9)
    by (auto intro!: exI[of _ "new @ seg"])
qed

lemma exploring_exit:
  assumes ex: "exploring g cs at {} s0 s"
  shows "dfs_post g cs at s0 (dfs_exit at s)"
proof -
  note X = exploringD[OF ex]
  have T: "tables_ok g s" using X(1) by (simp add: tarjan_inv_def)
  obtain seg where seg: "stk s = seg @ at # stk s0" "set (seg @ [at]) \<inter> seen s0 = {}"
      "\<forall>y \<in> set (seg @ [at]). \<forall>z \<in> set (stk s0). (y, z) \<in> adj g \<longrightarrow> low s ! at \<le> num s0 z"
    using X(8) by auto
  have num: "num s z = num s0 z" if "z \<in> set (stk s0)" for z using that X(4,5) num_cong by blast
  have out: "adj g `` {at} \<subseteq> seen s" using X(7) by (auto simp: adj_def)
  have root: "ids s ! at = Some (low s ! at) \<longleftrightarrow> low s ! at = num s at"
    using X(2) by (auto simp: seen_def num_def)
  show ?thesis
  proof (cases "low s ! at = num s at")
    case True
    let ?t = "dfs_pop at (low s ! at) (stk s) s"
    have "tarjan_inv g cs ?t"
      by (rule pop_inv[OF X(1) seg(1) X(3) out True]) (use seg(3) num in auto)
    moreover note F = pop_fields[OF stack_distinct[OF T] seg(1), of "low s ! at"]
    have "seen ?t = seen s" by (simp add: seen_def F(2))
    moreover have "low ?t ! v = low s ! v" if v: "v \<in> seen s0" for v
    proof -
      have "v < length g" "v \<notin> set (seg @ [at])" using v X(2) seen_less[OF T] seg(2) by auto
      then show ?thesis unfolding F(5) using tables_okD(2)[OF T] by (subst fold_update(2)) auto
    qed
    ultimately show ?thesis
      unfolding dfs_post_def dfs_exit_def root using True X(2,5,6) F(1,2) by simp
  next
    case False
    have "tarjan_inv g cs s" by (rule keep_inv[OF X(1) seg(1) X(3) out False])
    then show ?thesis
      unfolding dfs_post_def dfs_exit_def root using False X(2,5,6) seg
      by (auto intro!: exI[of _ "seg @ [at]"])
  qed
qed

definition unseen :: "nat list list \<Rightarrow> tarjan \<Rightarrow> nat" where
  "unseen g s = card ({..<length g} - seen s)"

lemma unseen_mono: "seen s \<subseteq> seen t \<Longrightarrow> unseen g t \<le> unseen g s"
  unfolding unseen_def by (intro card_mono) auto

lemma unseen_less: "seen s \<subseteq> seen t \<Longrightarrow> v < length g \<Longrightarrow> v \<notin> seen s \<Longrightarrow> v \<in> seen t \<Longrightarrow> unseen g t < unseen g s"
  unfolding unseen_def by (intro psubset_card_mono) auto

lemma ids_None: "tables_ok g s \<Longrightarrow> v < length g \<Longrightarrow> ids s ! v = None \<longleftrightarrow> v \<notin> seen s"
  by (simp add: seen_def tables_ok_def)

lemma children_correct:
  assumes g: "closed_graph g" and at: "at < length g" "\<And>c. c \<in> cs \<Longrightarrow> (c, at) \<in> (adj g)\<^sup>*"
    and dfs: "\<And>cs to s. tarjan_inv g cs s \<Longrightarrow> to < length g \<Longrightarrow> to \<notin> seen s \<Longrightarrow> (\<And>c. c \<in> cs \<Longrightarrow> (c, to) \<in> (adj g)\<^sup>*)
        \<Longrightarrow> unseen g s \<le> n \<Longrightarrow> \<exists>t. dfs n g to s = Some t \<and> dfs_post g cs to s t"
  shows "exploring g cs at (set tos) s0 s \<Longrightarrow> set tos \<subseteq> set (g ! at) \<Longrightarrow> unseen g s \<le> n
    \<Longrightarrow> \<exists>t. dfs_children n g at tos s = Some t \<and> exploring g cs at {} s0 t"
proof (induction tos arbitrary: s)
  case (Cons to tos)
  note inv = exploringD(1)[OF Cons.prems(1)]
  have T: "tables_ok g s" using inv by (simp add: tarjan_inv_def)
  have e: "(at, to) \<in> adj g" "to < length g" using Cons.prems(2) at(1) g by (auto simp: adj_def closed_graph_def)
  show ?case
  proof (cases "to \<in> seen s")
    case True
    have "unseen g (dfs_edge at to s) \<le> n"
      using Cons.prems(3) edge_fields(2)[OF T at(1) e(2)] by (simp add: unseen_def)
    then show ?thesis
      using Cons.IH[OF exploring_edge[OF Cons.prems(1) e True]] Cons.prems(2) True ids_None[OF T e(2)] by auto
  next
    case False
    have "(c, to) \<in> (adj g)\<^sup>*" if "c \<in> insert at cs" for c
      using that at(2) e(1) by (auto intro: rtrancl_into_rtrancl)
    then obtain t where t: "dfs n g to s = Some t" "dfs_post g (insert at cs) to s t"
      using dfs[OF inv e(2) False _ Cons.prems(3)] by blast
    have "seen s \<subseteq> seen t" "tables_ok g t" using t(2) by (auto simp: dfs_post_def tarjan_inv_def)
    then have "unseen g (dfs_edge at to t) \<le> n"
      using Cons.prems(3) edge_fields(2)[OF _ at(1) e(2)] unseen_mono[of s t g] by (simp add: unseen_def)
    then show ?thesis
      using Cons.IH[OF exploring_child[OF Cons.prems(1) e False t(2)]] Cons.prems(2) False ids_None[OF T e(2)] t(1) by simp
  qed
qed simp

lemma dfs_correct:
  assumes g: "closed_graph g"
  shows "tarjan_inv g cs s \<Longrightarrow> at < length g \<Longrightarrow> at \<notin> seen s \<Longrightarrow> (\<And>c. c \<in> cs \<Longrightarrow> (c, at) \<in> (adj g)\<^sup>*)
    \<Longrightarrow> unseen g s \<le> n \<Longrightarrow> \<exists>t. dfs n g at s = Some t \<and> dfs_post g cs at s t"
proof (induction n arbitrary: cs at s)
  case 0
  then have "{..<length g} - seen s = {}" by (simp add: unseen_def)
  then show ?case using 0 by auto
next
  case (Suc n)
  have T: "tables_ok g s" using Suc.prems(1) by (simp add: tarjan_inv_def)
  note F = enter_fields(2)[OF T Suc.prems(2,3)]
  have "unseen g (dfs_enter at s) < unseen g s"
    by (rule unseen_less[OF _ Suc.prems(2,3)]) (auto simp: F)
  then have "unseen g (dfs_enter at s) \<le> n" using Suc.prems(5) by simp
  then obtain t where "dfs_children n g at (g ! at) (dfs_enter at s) = Some t" "exploring g cs at {} s t"
    using children_correct[OF g Suc.prems(2,4) Suc.IH exploring_start[OF Suc.prems(1-4)]] by blast
  then show ?case using exploring_exit by simp
qed

lemma visit_correct:
  assumes g: "closed_graph g"
  shows "tarjan_inv g {} s \<Longrightarrow> set vs \<subseteq> {..<length g} \<Longrightarrow> unseen g s \<le> n
    \<Longrightarrow> \<exists>t. tarjan_visit n g vs s = Some t \<and> tarjan_inv g {} t \<and> seen s \<union> set vs \<subseteq> seen t"
proof (induction vs arbitrary: s)
  case (Cons v vs)
  have T: "tables_ok g s" using Cons.prems(1) by (simp add: tarjan_inv_def)
  show ?case
  proof (cases "v \<in> seen s")
    case True
    obtain t where "tarjan_visit n g vs s = Some t" "tarjan_inv g {} t" "seen s \<union> set vs \<subseteq> seen t"
      using Cons.IH[OF Cons.prems(1) _ Cons.prems(3)] Cons.prems(2) by auto
    then show ?thesis using True Cons.prems(2) ids_None[OF T, of v] by auto
  next
    case False
    obtain t where t: "dfs n g v s = Some t" "dfs_post g {} v s t"
      using dfs_correct[OF g Cons.prems(1) _ False _ Cons.prems(3)] Cons.prems(2) by auto
    then have "tarjan_inv g {} t" "insert v (seen s) \<subseteq> seen t" by (simp_all add: dfs_post_def)
    moreover from this have "unseen g t \<le> n" using Cons.prems(3) unseen_mono[of s t g] by simp
    ultimately obtain u where "tarjan_visit n g vs t = Some u" "tarjan_inv g {} u" "seen t \<union> set vs \<subseteq> seen u"
      using Cons.IH[of t] Cons.prems(2) by auto
    then show ?thesis
      using \<open>insert v (seen s) \<subseteq> seen t\<close> Cons.prems(2) t(1) False ids_None[OF T, of v] by auto
  qed
qed simp

lemma tarjan_new_inv: "tarjan_inv g {} (tarjan_new g)"
proof -
  have "seen (tarjan_new g) = {}" by (auto simp: seen_def tarjan_new_def)
  then show ?thesis
    by (simp add: tarjan_inv_def tables_ok_def stack_ok_def settled_ok_def settled_def) (simp add: tarjan_new_def)
qed

lemma tarjan_low:
  assumes g: "closed_graph g"
  shows "\<exists>t. tarjan_visit (Suc (length g)) g [0..<length g] (tarjan_new g) = Some t \<and> length (low t) = length g
    \<and> (\<forall>u < length g. \<forall>v < length g. low t ! u = low t ! v \<longleftrightarrow> mutual g u v)"
proof -
  have "unseen g (tarjan_new g) \<le> Suc (length g)"
    unfolding unseen_def using card_mono[of "{..<length g}" "{..<length g} - seen (tarjan_new g)"] by simp
  then obtain t where t: "tarjan_visit (Suc (length g)) g [0..<length g] (tarjan_new g) = Some t"
      "tarjan_inv g {} t" "set [0..<length g] \<subseteq> seen t"
    using visit_correct[OF g tarjan_new_inv, of "[0..<length g]" "Suc (length g)"] by (auto simp: lessThan_atLeast0)
  have "stk t = []" using t(2) by (auto simp: tarjan_inv_def stack_ok_def)
  then have "v \<in> settled t" if "v < length g" for v using that t(3) by (auto simp: settled_def)
  then show ?thesis using t(1,2) unfolding tarjan_inv_def settled_ok_def tables_ok_def by auto
qed

subsection \<open>The components of a graph over keys\<close>

lemma low_groups_partition:
  "distinct (concat (low_groups lows)) \<and> set (concat (low_groups lows)) = {..<length lows} \<and> [] \<notin> set (low_groups lows)"
  "u < length lows \<Longrightarrow> v < length lows \<Longrightarrow> (\<exists>c \<in> set (low_groups lows). u \<in> set c \<and> v \<in> set c) \<longleftrightarrow> lows ! u = lows ! v"
proof -
  let ?f = "\<lambda>grp. filter (\<lambda>i. lows ! i = grp) [0..<length lows]"
  have "distinct ks \<Longrightarrow> distinct (concat (map ?f ks))" for ks by (induction ks) auto
  then have "distinct (concat (low_groups lows))" by (simp add: low_groups_def)
  moreover have "set (concat (low_groups lows)) = {..<length lows}" by (auto simp: low_groups_def)
  moreover have ne: "?f grp \<noteq> []" if "grp \<in> set lows" for grp
  proof -
    obtain i where "i < length lows" "lows ! i = grp" using \<open>grp \<in> set lows\<close> by (auto simp: in_set_conv_nth)
    then have "i \<in> set (?f grp)" by simp
    then show ?thesis by (metis empty_iff list.set(1))
  qed
  have "[] \<notin> set (low_groups lows)"
  proof
    assume "[] \<in> set (low_groups lows)"
    then have "[] \<in> ?f ` set lows" by (simp add: low_groups_def)
    then show False
    proof (rule imageE)
      fix grp assume "[] = ?f grp" "grp \<in> set lows"
      then show False using ne[of grp] by metis
    qed
  qed
  ultimately show "distinct (concat (low_groups lows)) \<and> set (concat (low_groups lows)) = {..<length lows} \<and> [] \<notin> set (low_groups lows)" by simp
  show "u < length lows \<Longrightarrow> v < length lows \<Longrightarrow> (\<exists>c \<in> set (low_groups lows). u \<in> set c \<and> v \<in> set c) \<longleftrightarrow> lows ! u = lows ! v"
    by (auto simp: low_groups_def)
qed

lemma index_of_nth:
  "distinct ks \<Longrightarrow> index_of k ks = Some i \<longleftrightarrow> i < length ks \<and> ks ! i = k"
proof (induction ks arbitrary: i)
  case (Cons x ks)
  show ?case
  proof (cases i)
    case (Suc j)
    have "k \<noteq> x" if "j < length ks" "ks ! j = k" using that Cons.prems by auto
    then show ?thesis using Cons Suc by auto
  qed auto
qed simp

definition idx_graph :: "'k graph \<Rightarrow> nat list list" where
  "idx_graph graph = map (\<lambda>(_, vs). List.map_filter (\<lambda>v. index_of v (map fst graph)) vs) graph"

lemma idx_graph_closed: "distinct (map fst graph) \<Longrightarrow> closed_graph (idx_graph graph)"
  by (auto simp: closed_graph_def idx_graph_def set_map_filter index_of_nth)

lemma idx_graph_adj:
  assumes d: "distinct (map fst graph)" and ij: "i < length graph" "j < length graph"
  shows "(i, j) \<in> adj (idx_graph graph) \<longleftrightarrow> (map fst graph ! i, map fst graph ! j) \<in> succs graph"
proof -
  have "map_of graph (map fst graph ! i) = Some (snd (graph ! i))"
    using d ij by (simp add: map_of_eq_Some_iff)
  moreover have "index_of v (map fst graph) = Some j \<longleftrightarrow> map fst graph ! j = v" for v
    using index_of_nth[OF d] ij by simp
  ultimately show ?thesis
    using ij by (auto simp: adj_def idx_graph_def succs_def set_map_filter case_prod_unfold)
qed

lemma succs_key: "(u, v) \<in> (succs graph)\<^sup>* \<Longrightarrow> v \<in> fst ` set graph \<Longrightarrow> u \<in> fst ` set graph"
  by (erule converse_rtranclE) (force simp: succs_def dest: map_of_SomeD)+

lemma idx_graph_reach:
  assumes d: "distinct (map fst graph)" and ij: "i < length graph" "j < length graph"
  shows "(i, j) \<in> (adj (idx_graph graph))\<^sup>* \<longleftrightarrow> (map fst graph ! i, map fst graph ! j) \<in> (succs graph)\<^sup>*"
proof
  have len: "length (idx_graph graph) = length graph" by (simp add: idx_graph_def)
  assume "(i, j) \<in> (adj (idx_graph graph))\<^sup>*"
  then show "(map fst graph ! i, map fst graph ! j) \<in> (succs graph)\<^sup>*"
    using ij(2)
  proof (induction)
    case (step k j)
    have "k < length graph" using step(2) len by (simp add: adj_def)
    then show ?case using step idx_graph_adj[OF d] by (metis rtrancl.rtrancl_into_rtrancl)
  qed simp
next
  assume "(map fst graph ! i, map fst graph ! j) \<in> (succs graph)\<^sup>*"
  then show "(i, j) \<in> (adj (idx_graph graph))\<^sup>*"
    using ij(1)
  proof (induction "map fst graph ! i" arbitrary: i rule: converse_rtrancl_induct)
    case base
    then have "i = j" using d ij by (metis length_map nth_eq_iff_index_eq)
    then show ?case by simp
  next
    case (step z)
    have "z \<in> fst ` set graph" using succs_key[OF step(2)] ij(2) by (metis length_map nth_mem set_map)
    then obtain k where k: "k < length graph" "map fst graph ! k = z" by (metis in_set_conv_nth length_map set_map)
    then show ?case using step idx_graph_adj[OF d] by (metis converse_rtrancl_into_rtrancl)
  qed
qed

lemma tarjan_run_partition:
  assumes "closed_graph g"
  shows "\<exists>ccs. tarjan_run g = Some ccs \<and> distinct (concat ccs) \<and> set (concat ccs) = {..<length g} \<and> [] \<notin> set ccs
    \<and> (\<forall>u < length g. \<forall>v < length g. (\<exists>c \<in> set ccs. u \<in> set c \<and> v \<in> set c) \<longleftrightarrow> mutual g u v)"
proof -
  obtain t where t: "tarjan_visit (Suc (length g)) g [0..<length g] (tarjan_new g) = Some t" "length (low t) = length g"
      "\<forall>u < length g. \<forall>v < length g. low t ! u = low t ! v \<longleftrightarrow> mutual g u v"
    using tarjan_low[OF assms] by blast
  show ?thesis
    unfolding tarjan_run_def t(1) using low_groups_partition[where lows = "low t"] t(2,3)
    by (intro exI[of _ "low_groups (low t)"]) simp
qed

lemma scc_partition:
  assumes d: "distinct (map fst graph)"
  shows "\<exists>ccs. strongly_connected_components graph = Some ccs \<and> distinct (concat ccs) \<and> set (concat ccs) = fst ` set graph \<and> [] \<notin> set ccs
    \<and> (\<forall>u \<in> fst ` set graph. \<forall>v \<in> fst ` set graph. (\<exists>c \<in> set ccs. u \<in> set c \<and> v \<in> set c)
         \<longleftrightarrow> (u, v) \<in> (succs graph)\<^sup>* \<and> (v, u) \<in> (succs graph)\<^sup>*)"
proof -
  let ?ks = "map fst graph"
  have len: "length (idx_graph graph) = length graph" by (simp add: idx_graph_def)
  obtain ccs where ccs: "tarjan_run (idx_graph graph) = Some ccs" "distinct (concat ccs)" "set (concat ccs) = {..<length graph}" "[] \<notin> set ccs"
      "\<forall>u < length graph. \<forall>v < length graph. (\<exists>c \<in> set ccs. u \<in> set c \<and> v \<in> set c) \<longleftrightarrow> mutual (idx_graph graph) u v"
    using tarjan_run_partition[OF idx_graph_closed[OF d]] unfolding len by blast
  let ?r = "map (map (\<lambda>i. ?ks ! i)) ccs"
  have inj: "inj_on ((!) ?ks) {..<length graph}" using d by (simp add: inj_on_nth)
  have cc: "concat ?r = map ((!) ?ks) (concat ccs)" by (simp add: map_concat)
  have "distinct (concat ?r)" unfolding cc using ccs(2,3) inj by (simp add: distinct_map del: set_concat)
  moreover have "set (concat ?r) = fst ` set graph"
    unfolding cc set_map ccs(3) by (metis length_map nth_image order_refl set_map take_all lessThan_atLeast0)
  moreover have "(\<exists>c \<in> set ?r. u \<in> set c \<and> v \<in> set c) \<longleftrightarrow> (u, v) \<in> (succs graph)\<^sup>* \<and> (v, u) \<in> (succs graph)\<^sup>*"
    if uv: "u \<in> fst ` set graph" "v \<in> fst ` set graph" for u v
  proof -
    obtain i j where ij: "i < length graph" "j < length graph" "u = ?ks ! i" "v = ?ks ! j"
      using uv by (metis in_set_conv_nth length_map set_map)
    have mem: "?ks ! k \<in> set (map ((!) ?ks) c) \<longleftrightarrow> k \<in> set c" if "c \<in> set ccs" "k < length graph" for c k
    proof -
      have "set c \<subseteq> {..<length graph}" using that(1) ccs(3) by auto
      then show ?thesis using inj_on_image_mem_iff[OF inj, of k "set c"] that(2) unfolding set_map by blast
    qed
    have "(\<exists>c \<in> set ?r. u \<in> set c \<and> v \<in> set c) \<longleftrightarrow> (\<exists>c \<in> set ccs. i \<in> set c \<and> j \<in> set c)"
      unfolding set_map bex_simps ij(3,4) using mem ij(1,2) by (metis set_map)
    then show ?thesis using ccs(5) ij idx_graph_reach[OF d] by (simp add: mutual_def)
  qed
  moreover have "[] \<notin> set ?r" using ccs(4) by auto
  ultimately show ?thesis
    using ccs(1) unfolding strongly_connected_components_def Let_def idx_graph_def[symmetric]
    by (intro exI[of _ ?r]) simp
qed

text \<open>C9. The strongly connected components of a graph: the search always returns, every key is in
  exactly one component, no component is empty, and two keys share a component exactly when each reaches the other.\<close>

theorem strongly_connected_components_exact:
  assumes d: "distinct (map fst graph)"
  shows "\<exists>ccs. strongly_connected_components graph = Some ccs \<and> distinct (concat ccs) \<and> set (concat ccs) = fst ` set graph \<and> [] \<notin> set ccs
    \<and> (\<forall>u \<in> fst ` set graph. \<forall>v \<in> fst ` set graph. (\<exists>c \<in> set ccs. u \<in> set c \<and> v \<in> set c)
         \<longleftrightarrow> (u, v) \<in> (succs graph)\<^sup>* \<and> (v, u) \<in> (succs graph)\<^sup>*)"
  using d by (rule scc_partition)

definition sample_graph :: "nat graph" where
  "sample_graph = [(1, [2, 9]), (2, [3]), (3, [1, 4]), (4, [])]"

theorem strongly_connected_components_exact_witness:
  "\<exists>ccs. strongly_connected_components sample_graph = Some ccs \<and> distinct (concat ccs) \<and> set (concat ccs) = fst ` set sample_graph \<and> [] \<notin> set ccs
    \<and> (\<forall>u \<in> fst ` set sample_graph. \<forall>v \<in> fst ` set sample_graph. (\<exists>c \<in> set ccs. u \<in> set c \<and> v \<in> set c)
         \<longleftrightarrow> (u, v) \<in> (succs sample_graph)\<^sup>* \<and> (v, u) \<in> (succs sample_graph)\<^sup>*)"
  by (rule strongly_connected_components_exact) (simp add: sample_graph_def)

end
