(* ===== verification/Functions.thy ===== *)
theory Functions
  imports Columns "HOL-Library.Multiset"
begin

text \<open>
  The built-in functions of the query language (\<open>data/functions.rs\<close>): the comparisons, the
  connectives, the tests on types, the operations on bytes, bits, lists and half-open intervals.
  A function gets the slice of its arguments; reading past its end is the panic of the indexing.
  The message of a failure is not modelled: every \<open>bail!\<close> and \<open>ensure!\<close> is \<open>OpFailed\<close>.
  The functions over floating-point arithmetic, JSON, regexes, Unicode tables, vectors, clocks and
  random numbers are the parameter \<open>other\<close> of \<open>call_op\<close>.
\<close>

section \<open>Arguments\<close>

text \<open>\<open>args[i]\<close>\<close>

definition arg :: "tuple \<Rightarrow> nat \<Rightarrow> data_value result" where
  "arg args i = (if i < length args then Inr (args ! i) else Inl Panic)"

section \<open>Comparisons\<close>

definition ensure_same_value_type :: "data_value \<Rightarrow> data_value \<Rightarrow> unit result" where
  "ensure_same_value_type a b =
     (case (a, b) of
        (Null, Null) \<Rightarrow> Inr ()
      | (Bool _, Bool _) \<Rightarrow> Inr ()
      | (Num _, Num _) \<Rightarrow> Inr ()
      | (Str _, Str _) \<Rightarrow> Inr ()
      | (Bytes _, Bytes _) \<Rightarrow> Inr ()
      | (Regex _, Regex _) \<Rightarrow> Inr ()
      | (List _, List _) \<Rightarrow> Inr ()
      | (Set _, Set _) \<Rightarrow> Inr ()
      | (Bot, Bot) \<Rightarrow> Inr ()
      | _ \<Rightarrow> Inl OpFailed)"

fun op_list :: "tuple \<Rightarrow> data_value result" where
  "op_list args = Inr (List args)"

fun op_coalesce :: "ext \<Rightarrow> tuple \<Rightarrow> data_value result" where
  "op_coalesce E [] = Inr Null"
| "op_coalesce E (v # args) = (if \<not> dv_eq E v Null then Inr v else op_coalesce E args)"

text \<open>The match on two operands that the comparisons share: a float against an integer, an integer
  against a float, and the rest.\<close>

definition by_number :: "(f64 \<Rightarrow> i64 \<Rightarrow> 'b) \<Rightarrow> (i64 \<Rightarrow> f64 \<Rightarrow> 'b) \<Rightarrow> (data_value \<Rightarrow> data_value \<Rightarrow> 'b)
    \<Rightarrow> data_value \<Rightarrow> data_value \<Rightarrow> 'b" where
  "by_number float_int int_float other a b =
     (case a of
        Num (NFloat l) \<Rightarrow> (case b of Num (NInt r) \<Rightarrow> float_int l r | _ \<Rightarrow> other a b)
      | Num (NInt l) \<Rightarrow> (case b of Num (NFloat r) \<Rightarrow> int_float l r | _ \<Rightarrow> other a b)
      | _ \<Rightarrow> other a b)"

fun op_eq :: "ext \<Rightarrow> tuple \<Rightarrow> data_value result" where
  "op_eq E (a # b # _) =
     Inr (Bool (by_number (\<lambda>l r. f64_eq (i64_as_f64 r) l) (\<lambda>l r. f64_eq (i64_as_f64 l) r) (\<lambda>a b. dv_eq E a b) a b))"
| "op_eq E _ = Inl Panic"

fun op_neq :: "ext \<Rightarrow> tuple \<Rightarrow> data_value result" where
  "op_neq E (a # b # _) =
     Inr (Bool (by_number (\<lambda>l r. \<not> f64_eq (i64_as_f64 r) l) (\<lambda>l r. \<not> f64_eq (i64_as_f64 l) r) (\<lambda>a b. \<not> dv_eq E a b) a b))"
| "op_neq E _ = Inl Panic"

fun op_gt :: "ext \<Rightarrow> tuple \<Rightarrow> data_value result" where
  "op_gt E (a # b # _) =
     bind_res (ensure_same_value_type a b) (\<lambda>_.
       Inr (Bool (by_number (\<lambda>l r. f64_lt (i64_as_f64 r) l) (\<lambda>l r. f64_lt r (i64_as_f64 l)) (\<lambda>a b. dv_less E b a) a b)))"
| "op_gt E _ = Inl Panic"

fun op_ge :: "ext \<Rightarrow> tuple \<Rightarrow> data_value result" where
  "op_ge E (a # b # _) =
     bind_res (ensure_same_value_type a b) (\<lambda>_.
       Inr (Bool (by_number (\<lambda>l r. f64_le (i64_as_f64 r) l) (\<lambda>l r. f64_le r (i64_as_f64 l)) (\<lambda>a b. dv_le E b a) a b)))"
| "op_ge E _ = Inl Panic"

fun op_lt :: "ext \<Rightarrow> tuple \<Rightarrow> data_value result" where
  "op_lt E (a # b # _) =
     bind_res (ensure_same_value_type a b) (\<lambda>_.
       Inr (Bool (by_number (\<lambda>l r. f64_lt l (i64_as_f64 r)) (\<lambda>l r. f64_lt (i64_as_f64 l) r) (\<lambda>a b. dv_less E a b) a b)))"
| "op_lt E _ = Inl Panic"

fun op_le :: "ext \<Rightarrow> tuple \<Rightarrow> data_value result" where
  "op_le E (a # b # _) =
     bind_res (ensure_same_value_type a b) (\<lambda>_.
       Inr (Bool (by_number (\<lambda>l r. f64_le l (i64_as_f64 r)) (\<lambda>l r. f64_le (i64_as_f64 l) r) (\<lambda>a b. dv_le E a b) a b)))"
| "op_le E _ = Inl Panic"

fun op_is_in :: "ext \<Rightarrow> tuple \<Rightarrow> data_value result" where
  "op_is_in E (left # b # _) =
     bind_res (ok_or OpFailed (get_slice b)) (\<lambda>right.
       Inr (Bool (list_ex (\<lambda>x. dv_eq E x left) right)))"
| "op_is_in E _ = Inl Panic"

section \<open>Intervals\<close>

text \<open>\<open>partial_cmp(..).unwrap()\<close> panics on a NaN.\<close>

fun interval_num_cmp :: "number \<Rightarrow> number \<Rightarrow> ordering result" where
  "interval_num_cmp (NInt x) (NInt y) = Inr (cmp_of (sint x) (sint y))"
| "interval_num_cmp (NFloat x) (NFloat y) = ok_or Panic (f64_partial_cmp x y)"
| "interval_num_cmp (NInt x) (NFloat y) = ok_or Panic (f64_partial_cmp (i64_as_f64 x) y)"
| "interval_num_cmp (NFloat x) (NInt y) = ok_or Panic (f64_partial_cmp x (i64_as_f64 y))"

fun nan_bound :: "number \<Rightarrow> bool" where
  "nan_bound (NFloat f) = f64_is_nan f"
| "nan_bound (NInt _) = False"

definition to_interval :: "data_value \<Rightarrow> (number \<times> number) result" where
  "to_interval a =
     bind_res (ok_or OpFailed (get_slice a)) (\<lambda>l.
       case l of
         [Num s, Num e] \<Rightarrow>
           if nan_bound s then Inl OpFailed
           else if nan_bound e then Inl OpFailed
           else bind_res (interval_num_cmp s e) (\<lambda>c.
             if c = Greater then Inl OpFailed else Inr (s, e))
       | _ \<Rightarrow> Inl OpFailed)"

definition op_interval_overlaps :: "tuple \<Rightarrow> data_value result" where
  "op_interval_overlaps args =
     bind_res (arg args 0) (\<lambda>a. bind_res (to_interval a) (\<lambda>(s1, e1).
     bind_res (arg args 1) (\<lambda>b. bind_res (to_interval b) (\<lambda>(s2, e2).
     bind_res (interval_num_cmp s1 e1) (\<lambda>c1.
       if c1 = Equal then Inr (Bool False)
       else bind_res (interval_num_cmp s2 e2) (\<lambda>c2.
         if c2 = Equal then Inr (Bool False)
         else bind_res (interval_num_cmp s1 e2) (\<lambda>c.
           if c \<noteq> Less then Inr (Bool False)
           else bind_res (interval_num_cmp s2 e1) (\<lambda>d. Inr (Bool (d = Less))))))))))"

section \<open>Connectives\<close>

fun op_and :: "tuple \<Rightarrow> data_value result" where
  "op_and [] = Inr (Bool True)"
| "op_and (a # args) =
     bind_res (ok_or OpFailed (get_bool a)) (\<lambda>b. if \<not> b then Inr (Bool False) else op_and args)"

fun op_or :: "tuple \<Rightarrow> data_value result" where
  "op_or [] = Inr (Bool False)"
| "op_or (a # args) =
     bind_res (ok_or OpFailed (get_bool a)) (\<lambda>b. if b then Inr (Bool True) else op_or args)"

fun op_negate :: "tuple \<Rightarrow> data_value result" where
  "op_negate (a # _) = (case a of Bool b \<Rightarrow> Inr (Bool (\<not> b)) | _ \<Rightarrow> Inl OpFailed)"
| "op_negate [] = Inl Panic"

section \<open>Bytes and bits\<close>

fun op_bit_and :: "tuple \<Rightarrow> data_value result" where
  "op_bit_and (a # b # _) =
     (case (a, b) of
        (Bytes left, Bytes right) \<Rightarrow>
          if length left = length right then Inr (Bytes (map2 (AND) left right)) else Inl OpFailed
      | _ \<Rightarrow> Inl OpFailed)"
| "op_bit_and _ = Inl Panic"

fun op_bit_or :: "tuple \<Rightarrow> data_value result" where
  "op_bit_or (a # b # _) =
     (case (a, b) of
        (Bytes left, Bytes right) \<Rightarrow>
          if length left = length right then Inr (Bytes (map2 (OR) left right)) else Inl OpFailed
      | _ \<Rightarrow> Inl OpFailed)"
| "op_bit_or _ = Inl Panic"

fun op_bit_not :: "tuple \<Rightarrow> data_value result" where
  "op_bit_not (a # _) = (case a of Bytes x \<Rightarrow> Inr (Bytes (map NOT x)) | _ \<Rightarrow> Inl OpFailed)"
| "op_bit_not [] = Inl Panic"

fun op_bit_xor :: "tuple \<Rightarrow> data_value result" where
  "op_bit_xor (a # b # _) =
     (case (a, b) of
        (Bytes left, Bytes right) \<Rightarrow>
          if length left = length right then Inr (Bytes (map2 (XOR) left right)) else Inl OpFailed
      | _ \<Rightarrow> Inl OpFailed)"
| "op_bit_xor _ = Inl Panic"

text \<open>The masks of the bits of a byte, the most significant first.\<close>

definition bit_masks :: bytes where
  "bit_masks = [0x80, 0x40, 0x20, 0x10, 0x08, 0x04, 0x02, 0x01]"

fun op_unpack_bits :: "tuple \<Rightarrow> data_value result" where
  "op_unpack_bits (a # _) =
     (case a of
        Bytes bs \<Rightarrow>
          Inr (List (map Bool (concat (map (\<lambda>byte. map (\<lambda>m. byte AND m \<noteq> 0) bit_masks) bs))))
      | _ \<Rightarrow> Inl OpFailed)"
| "op_unpack_bits [] = Inl Panic"

text \<open>The loop of \<open>pack_bits\<close> from element \<open>i\<close>; the result has \<open>ceil(len / 8)\<close> bytes.\<close>

fun pack_loop :: "nat \<Rightarrow> data_value list \<Rightarrow> bytes \<Rightarrow> bytes result" where
  "pack_loop i [] res = Inr res"
| "pack_loop i (b # v) res =
     (case b of
        Bool b \<Rightarrow>
          if \<not> b then pack_loop (Suc i) v res
          else if i div 8 < length res then
            pack_loop (Suc i) v (res[i div 8 := (res ! (i div 8)) OR (bit_masks ! (i mod 8))])
          else Inl Panic
      | _ \<Rightarrow> Inl OpFailed)"

fun op_pack_bits :: "tuple \<Rightarrow> data_value result" where
  "op_pack_bits (a # _) =
     (case a of
        List v \<Rightarrow> map_res Bytes (pack_loop 0 v (replicate ((length v + 7) div 8) 0))
      | Set v \<Rightarrow> map_res Bytes (pack_loop 0 v (replicate ((length v + 7) div 8) 0))
      | _ \<Rightarrow> Inl OpFailed)"
| "op_pack_bits [] = Inl Panic"

section \<open>Strings and bytes\<close>

fun op_starts_with :: "tuple \<Rightarrow> data_value result" where
  "op_starts_with (a # b # _) =
     (case (a, b) of
        (Str l, Str r) \<Rightarrow> Inr (Bool (prefix r l))
      | (Bytes l, Bytes r) \<Rightarrow> Inr (Bool (prefix r l))
      | _ \<Rightarrow> Inl OpFailed)"
| "op_starts_with _ = Inl Panic"

fun op_ends_with :: "tuple \<Rightarrow> data_value result" where
  "op_ends_with (a # b # _) =
     (case (a, b) of
        (Str l, Str r) \<Rightarrow> Inr (Bool (suffix r l))
      | (Bytes l, Bytes r) \<Rightarrow> Inr (Bool (suffix r l))
      | _ \<Rightarrow> Inl OpFailed)"
| "op_ends_with _ = Inl Panic"

section \<open>Tests on types\<close>

fun op_is_uuid :: "tuple \<Rightarrow> data_value result" where
  "op_is_uuid (a # _) = Inr (Bool (case a of Uuid _ \<Rightarrow> True | _ \<Rightarrow> False))"
| "op_is_uuid [] = Inl Panic"

fun op_is_json :: "tuple \<Rightarrow> data_value result" where
  "op_is_json (a # _) = Inr (Bool (case a of Json _ \<Rightarrow> True | _ \<Rightarrow> False))"
| "op_is_json [] = Inl Panic"

fun op_is_null :: "tuple \<Rightarrow> data_value result" where
  "op_is_null (a # _) = Inr (Bool (case a of Null \<Rightarrow> True | _ \<Rightarrow> False))"
| "op_is_null [] = Inl Panic"

fun op_is_int :: "tuple \<Rightarrow> data_value result" where
  "op_is_int (a # _) = Inr (Bool (case a of Num (NInt _) \<Rightarrow> True | _ \<Rightarrow> False))"
| "op_is_int [] = Inl Panic"

fun op_is_float :: "tuple \<Rightarrow> data_value result" where
  "op_is_float (a # _) = Inr (Bool (case a of Num (NFloat _) \<Rightarrow> True | _ \<Rightarrow> False))"
| "op_is_float [] = Inl Panic"

fun op_is_num :: "tuple \<Rightarrow> data_value result" where
  "op_is_num (a # _) = Inr (Bool (case a of Num _ \<Rightarrow> True | _ \<Rightarrow> False))"
| "op_is_num [] = Inl Panic"

fun op_is_finite :: "tuple \<Rightarrow> data_value result" where
  "op_is_finite (a # _) =
     Inr (Bool (case a of
        Num (NInt _) \<Rightarrow> True
      | Num (NFloat f) \<Rightarrow> f64_mag f < f64_mag f64_infinity
      | _ \<Rightarrow> False))"
| "op_is_finite [] = Inl Panic"

fun op_is_infinite :: "tuple \<Rightarrow> data_value result" where
  "op_is_infinite (a # _) =
     Inr (Bool (case a of Num (NFloat f) \<Rightarrow> f64_mag f = f64_mag f64_infinity | _ \<Rightarrow> False))"
| "op_is_infinite [] = Inl Panic"

fun op_is_nan :: "tuple \<Rightarrow> data_value result" where
  "op_is_nan (a # _) = Inr (Bool (case a of Num (NFloat f) \<Rightarrow> f64_is_nan f | _ \<Rightarrow> False))"
| "op_is_nan [] = Inl Panic"

fun op_is_string :: "tuple \<Rightarrow> data_value result" where
  "op_is_string (a # _) = Inr (Bool (case a of Str _ \<Rightarrow> True | _ \<Rightarrow> False))"
| "op_is_string [] = Inl Panic"

fun op_is_list :: "tuple \<Rightarrow> data_value result" where
  "op_is_list (a # _) = Inr (Bool (case a of List _ \<Rightarrow> True | Set _ \<Rightarrow> True | _ \<Rightarrow> False))"
| "op_is_list [] = Inl Panic"

fun op_is_vec :: "tuple \<Rightarrow> data_value result" where
  "op_is_vec (a # _) = Inr (Bool (case a of Vec _ \<Rightarrow> True | _ \<Rightarrow> False))"
| "op_is_vec [] = Inl Panic"

fun op_is_bytes :: "tuple \<Rightarrow> data_value result" where
  "op_is_bytes (a # _) = Inr (Bool (case a of Bytes _ \<Rightarrow> True | _ \<Rightarrow> False))"
| "op_is_bytes [] = Inl Panic"

section \<open>Lists\<close>

fun op_append :: "tuple \<Rightarrow> data_value result" where
  "op_append (a # args) =
     (case a of
        List l \<Rightarrow> (case args of x # _ \<Rightarrow> Inr (List (l @ [x])) | [] \<Rightarrow> Inl Panic)
      | Set l \<Rightarrow> (case args of x # _ \<Rightarrow> Inr (List (l @ [x])) | [] \<Rightarrow> Inl Panic)
      | _ \<Rightarrow> Inl OpFailed)"
| "op_append [] = Inl Panic"

fun op_prepend :: "tuple \<Rightarrow> data_value result" where
  "op_prepend (a # args) =
     (case a of
        List l \<Rightarrow> (case args of x # _ \<Rightarrow> Inr (List (x # l)) | [] \<Rightarrow> Inl Panic)
      | Set l \<Rightarrow> (case args of x # _ \<Rightarrow> Inr (List (x # l)) | [] \<Rightarrow> Inl Panic)
      | _ \<Rightarrow> Inl OpFailed)"
| "op_prepend [] = Inl Panic"

text \<open>\<open>chars().count()\<close> on the bytes of a valid string: those that are not continuation bytes.\<close>

definition chars_count :: "bytes \<Rightarrow> nat" where
  "chars_count s = length (filter (\<lambda>b. b AND 0xC0 \<noteq> 0x80) s)"

fun op_length :: "tuple \<Rightarrow> data_value result" where
  "op_length (a # _) =
     map_res (\<lambda>n. Num (NInt (of_nat n)))
      (case a of
         Set s \<Rightarrow> Inr (length s)
       | List l \<Rightarrow> Inr (length l)
       | Str s \<Rightarrow> Inr (chars_count s)
       | Bytes b \<Rightarrow> Inr (length b)
       | Vec v \<Rightarrow> Inr (vector_len v)
       | _ \<Rightarrow> Inl OpFailed)"
| "op_length [] = Inl Panic"

text \<open>\<open>slice::sort\<close> is stable, so its result is the one of insertion from the right.\<close>

fun sort_insert :: "ext \<Rightarrow> data_value \<Rightarrow> data_value list \<Rightarrow> data_value list" where
  "sort_insert E x [] = [x]"
| "sort_insert E x (y # ys) = (if dv_le E x y then x # y # ys else y # sort_insert E x ys)"

definition slice_sort :: "ext \<Rightarrow> data_value list \<Rightarrow> data_value list" where
  "slice_sort E xs = foldr (sort_insert E) xs []"

fun op_sorted :: "ext \<Rightarrow> tuple \<Rightarrow> data_value result" where
  "op_sorted E (a # _) =
     bind_res (ok_or OpFailed (get_slice a)) (\<lambda>l. Inr (List (slice_sort E l)))"
| "op_sorted E [] = Inl Panic"

fun op_reverse :: "tuple \<Rightarrow> data_value result" where
  "op_reverse (a # _) = bind_res (ok_or OpFailed (get_slice a)) (\<lambda>l. Inr (List (rev l)))"
| "op_reverse [] = Inl Panic"

fun op_first :: "tuple \<Rightarrow> data_value result" where
  "op_first (a # _) =
     bind_res (ok_or OpFailed (get_slice a)) (\<lambda>l. Inr (case l of [] \<Rightarrow> Null | x # _ \<Rightarrow> x))"
| "op_first [] = Inl Panic"

fun op_last :: "tuple \<Rightarrow> data_value result" where
  "op_last (a # _) =
     bind_res (ok_or OpFailed (get_slice a)) (\<lambda>l. Inr (if l = [] then Null else last l))"
| "op_last [] = Inl Panic"

text \<open>\<open>slice::chunks\<close>, \<open>slice::chunks_exact\<close> and \<open>slice::windows\<close> for a positive size.\<close>

function chunks :: "nat \<Rightarrow> 'a list \<Rightarrow> 'a list list" where
  "chunks n xs = (if xs = [] \<or> n = 0 then [] else take n xs # chunks n (drop n xs))"
  by pat_completeness auto
termination by (relation "measure (\<lambda>(n, xs). length xs)") auto

declare chunks.simps [simp del]

definition chunks_exact :: "nat \<Rightarrow> 'a list \<Rightarrow> 'a list list" where
  "chunks_exact n xs = filter (\<lambda>c. length c = n) (chunks n xs)"

definition windows :: "nat \<Rightarrow> 'a list \<Rightarrow> 'a list list" where
  "windows n xs = map (\<lambda>i. take n (drop i xs)) [0..<length xs + 1 - n]"

text \<open>The three functions differ in the iterator only.\<close>

definition by_size :: "(nat \<Rightarrow> data_value list \<Rightarrow> data_value list list) \<Rightarrow> tuple \<Rightarrow> data_value result" where
  "by_size iter args =
     bind_res (arg args 0) (\<lambda>a. bind_res (ok_or OpFailed (get_slice a)) (\<lambda>l.
     bind_res (arg args 1) (\<lambda>b. bind_res (ok_or OpFailed (get_int b)) (\<lambda>n.
       if \<not> sint n > 0 then Inl OpFailed
       else Inr (List (map List (iter (nat (sint n)) l)))))))"

definition op_chunks :: "tuple \<Rightarrow> data_value result" where
  "op_chunks = by_size chunks"

definition op_chunks_exact :: "tuple \<Rightarrow> data_value result" where
  "op_chunks_exact = by_size chunks_exact"

definition op_windows :: "tuple \<Rightarrow> data_value result" where
  "op_windows = by_size windows"

definition get_index :: "i64 \<Rightarrow> nat \<Rightarrow> bool \<Rightarrow> nat result" where
  "get_index i len is_upper =
     (let i = (if sint i < 0 then i + of_nat len else i) in
      if sint i \<ge> 0 then
        let j = nat (sint i) in
        if j > len \<or> (\<not> is_upper \<and> j = len) then Inl OpFailed else Inr j
      else Inl OpFailed)"

text \<open>\<open>l[m..n]\<close> panics where \<open>m > n\<close> or \<open>n > l.len()\<close>.\<close>

definition slice_range :: "'a list \<Rightarrow> nat \<Rightarrow> nat \<Rightarrow> 'a list result" where
  "slice_range l m n = (if m > n \<or> n > length l then Inl Panic else Inr (take (n - m) (drop m l)))"

definition op_slice :: "tuple \<Rightarrow> data_value result" where
  "op_slice args =
     bind_res (arg args 0) (\<lambda>a. bind_res (ok_or OpFailed (get_slice a)) (\<lambda>l.
     bind_res (arg args 1) (\<lambda>b. bind_res (ok_or OpFailed (get_int b)) (\<lambda>m.
     bind_res (arg args 2) (\<lambda>c. bind_res (ok_or OpFailed (get_int c)) (\<lambda>n.
     bind_res (get_index m (length l) False) (\<lambda>m.
     bind_res (get_index n (length l) True) (\<lambda>n.
     map_res List (slice_range l m n)))))))))"

section \<open>The table of functions\<close>

text \<open>\<open>define_op!\<close> pairs the name of a function with its implementation.  A function that is not
  modelled here is an arbitrary one under its name.\<close>

definition builtins :: "ext \<Rightarrow> (string \<times> (tuple \<Rightarrow> data_value result)) list" where
  "builtins E =
     [(''OP_LIST'', op_list),
      (''OP_COALESCE'', op_coalesce E),
      (''OP_EQ'', op_eq E),
      (''OP_NEQ'', op_neq E),
      (''OP_GT'', op_gt E),
      (''OP_GE'', op_ge E),
      (''OP_LT'', op_lt E),
      (''OP_LE'', op_le E),
      (''OP_IS_IN'', op_is_in E),
      (''OP_INTERVAL_OVERLAPS'', op_interval_overlaps),
      (''OP_AND'', op_and),
      (''OP_OR'', op_or),
      (''OP_NEGATE'', op_negate),
      (''OP_BIT_AND'', op_bit_and),
      (''OP_BIT_OR'', op_bit_or),
      (''OP_BIT_NOT'', op_bit_not),
      (''OP_BIT_XOR'', op_bit_xor),
      (''OP_UNPACK_BITS'', op_unpack_bits),
      (''OP_PACK_BITS'', op_pack_bits),
      (''OP_STARTS_WITH'', op_starts_with),
      (''OP_ENDS_WITH'', op_ends_with),
      (''OP_IS_UUID'', op_is_uuid),
      (''OP_IS_JSON'', op_is_json),
      (''OP_IS_NULL'', op_is_null),
      (''OP_IS_INT'', op_is_int),
      (''OP_IS_FLOAT'', op_is_float),
      (''OP_IS_NUM'', op_is_num),
      (''OP_IS_FINITE'', op_is_finite),
      (''OP_IS_INFINITE'', op_is_infinite),
      (''OP_IS_NAN'', op_is_nan),
      (''OP_IS_STRING'', op_is_string),
      (''OP_IS_LIST'', op_is_list),
      (''OP_IS_VEC'', op_is_vec),
      (''OP_IS_BYTES'', op_is_bytes),
      (''OP_APPEND'', op_append),
      (''OP_PREPEND'', op_prepend),
      (''OP_LENGTH'', op_length),
      (''OP_SORTED'', op_sorted E),
      (''OP_REVERSE'', op_reverse),
      (''OP_FIRST'', op_first),
      (''OP_LAST'', op_last),
      (''OP_CHUNKS'', op_chunks),
      (''OP_CHUNKS_EXACT'', op_chunks_exact),
      (''OP_WINDOWS'', op_windows),
      (''OP_SLICE'', op_slice)]"

text \<open>\<open>other\<close> stands for the functions that are not translated, as a function of name and arguments: those
  that draw random numbers or read the clock are outside the model.\<close>

definition call_op :: "ext \<Rightarrow> (string \<Rightarrow> tuple \<Rightarrow> data_value result) \<Rightarrow> string \<Rightarrow> tuple \<Rightarrow> data_value result" where
  "call_op E other name = (case map_of (builtins E) name of Some f \<Rightarrow> f | None \<Rightarrow> other name)"

lemma by_number_simps [simp]:
  "by_number fi nf d (Num (NFloat f)) (Num (NInt i)) = fi f i"
  "by_number fi nf d (Num (NInt i)) (Num (NFloat f)) = nf i f"
  "by_number fi nf d (Num (NFloat f)) (Num (NFloat g)) = d (Num (NFloat f)) (Num (NFloat g))"
  "by_number fi nf d (Num (NInt i)) (Num (NInt j)) = d (Num (NInt i)) (Num (NInt j))"
  by (simp_all add: by_number_def)

lemma by_number_other: "(\<nexists>n. a = Num n) \<or> (\<nexists>n. b = Num n) \<Longrightarrow> by_number fi nf d a b = d a b"
  by (cases a; cases b) (simp_all add: by_number_def split: number.split)

lemma call_op_builtin [simp]:
  "call_op E other ''OP_LIST'' = op_list"
  "call_op E other ''OP_GT'' = op_gt E"
  "call_op E other ''OP_GE'' = op_ge E"
  "call_op E other ''OP_LT'' = op_lt E"
  "call_op E other ''OP_LE'' = op_le E"
  "call_op E other ''OP_AND'' = op_and"
  "call_op E other ''OP_NEGATE'' = op_negate"
  "call_op E other ''OP_STARTS_WITH'' = op_starts_with"
  by (simp_all add: call_op_def builtins_def)

section \<open>Properties of bits\<close>

definition byte_bits :: "8 word \<Rightarrow> bool list" where
  "byte_bits byte = map (\<lambda>m. byte AND m \<noteq> 0) bit_masks"

lemma length_bit_masks [simp]: "length bit_masks = 8"
  by (simp add: bit_masks_def)

lemma length_byte_bits [simp]: "length (byte_bits b) = 8"
  by (simp add: byte_bits_def)

lemma bit_masks_bit: 
  assumes "j < 8" 
  shows "bit_masks ! j = 2 ^ (7 - j)"
proof -
  have "j = 0 \<or> j = 1 \<or> j = 2 \<or> j = 3 \<or> j = 4 \<or> j = 5 \<or> j = 6 \<or> j = 7" using assms by arith
  then show ?thesis by (elim disjE) (simp_all add: bit_masks_def)
qed

lemma bit_push_one: "bit (2 ^ n :: 8 word) k \<longleftrightarrow> k = n \<and> n < 8"
  by (auto simp: bit_exp_iff)

lemma and_single_bit: "(w AND 2 ^ n \<noteq> 0) = bit w n" for w :: "8 word"
proof -
  have "(w AND 2 ^ n \<noteq> 0) \<longleftrightarrow> (\<exists>k. bit (w AND 2 ^ n) k)"
    by (metis bit_0_eq bit_eqI bot_apply bot_bool_def)
  also have "\<dots> \<longleftrightarrow> bit w n"
    unfolding bit_and_iff bit_push_one by (auto dest: bit_imp_le_length)
  finally show ?thesis .
qed

lemma byte_bits_nth: "j < 8 \<Longrightarrow> byte_bits b ! j = bit b (7 - j)"
  by (simp add: byte_bits_def bit_masks_bit and_single_bit)

lemma pack_loop_bits:
  assumes "i + length bs \<le> 8 * length res"
  shows "\<exists>res'. pack_loop i (map Bool bs) res = Inr res' \<and> length res' = length res
    \<and> (\<forall>k < length res. \<forall>j < 8. bit (res' ! k) (7 - j) \<longleftrightarrow>
         bit (res ! k) (7 - j) \<or> (i \<le> 8 * k + j \<and> 8 * k + j < i + length bs \<and> bs ! (8 * k + j - i)))"
  using assms
proof (induction bs arbitrary: i res)
  case (Cons b bs)
  define r where "r = (if b then res[i div 8 := (res ! (i div 8)) OR (bit_masks ! (i mod 8))] else res)"
  have i: "i div 8 < length res" using Cons.prems by simp
  have run: "pack_loop i (map Bool (b # bs)) res = pack_loop (Suc i) (map Bool bs) r"
    using i by (simp add: r_def)
  have len: "length r = length res" by (simp add: r_def)
  have r: "bit (r ! k) (7 - j) \<longleftrightarrow> bit (res ! k) (7 - j) \<or> (8 * k + j = i \<and> b)"
    if "k < length res" "j < 8" for k j
  proof -
    have "8 * k + j = i \<longleftrightarrow> i div 8 = k \<and> i mod 8 = j" using that(2) by auto
    moreover have "7 - j = 7 - i mod 8 \<longleftrightarrow> j = i mod 8" using that(2) by auto
    ultimately show ?thesis using that i
      by (auto simp: r_def nth_list_update bit_or_iff bit_masks_bit bit_push_one)
  qed
  have "Suc i + length bs \<le> 8 * length r" using Cons.prems len by simp
  from Cons.IH [OF this] obtain res' where res': "pack_loop (Suc i) (map Bool bs) r = Inr res'" "length res' = length r"
    and bits: "\<forall>k < length r. \<forall>j < 8. bit (res' ! k) (7 - j) \<longleftrightarrow>
         bit (r ! k) (7 - j) \<or> (Suc i \<le> 8 * k + j \<and> 8 * k + j < Suc i + length bs \<and> bs ! (8 * k + j - Suc i))"
    by blast
  have "bit (res' ! k) (7 - j) \<longleftrightarrow>
         bit (res ! k) (7 - j) \<or> (i \<le> 8 * k + j \<and> 8 * k + j < i + length (b # bs) \<and> (b # bs) ! (8 * k + j - i))"
    if "k < length res" "j < 8" for k j
  proof -
    have "(i \<le> p \<and> p < i + length (b # bs) \<and> (b # bs) ! (p - i)) \<longleftrightarrow>
        (p = i \<and> b) \<or> (Suc i \<le> p \<and> p < Suc i + length bs \<and> bs ! (p - Suc i))" for p
      by (cases "p = i") (auto simp: nth_Cons' Suc_le_eq)
    then show ?thesis using bits r that len by auto
  qed
  then show ?case using run res' len by auto
qed auto

lemma length_concat_bits [simp]: "length (concat (map byte_bits bs)) = 8 * length bs"
  by (induction bs) simp_all

lemma concat_bits_nth:
  "k < length bs \<Longrightarrow> j < 8 \<Longrightarrow> concat (map byte_bits bs) ! (8 * k + j) = bit (bs ! k) (7 - j)"
proof (induction bs arbitrary: k)
  case (Cons b bs)
  then show ?case by (cases k) (auto simp: nth_append byte_bits_nth)
qed simp

lemma op_unpack_bits_eq: "op_unpack_bits [Bytes bs] = Inr (List (map Bool (concat (map byte_bits bs))))"
  by (simp add: byte_bits_def [abs_def])

lemma whole_bytes: "8 * ((n + 7) div 8) = n + (8 - n mod 8) mod 8" for n :: nat
proof -
  define q r where "q = n div 8" and "r = n mod 8"
  have n: "n = 8 * q + r" and r: "r < 8" by (simp_all add: q_def r_def)
  have "(n + 7) div 8 = q + (r + 7) div 8" unfolding n by simp
  moreover have "8 * ((r + 7) div 8) = r + (8 - r) mod 8" using r by (cases "r = 0") (simp_all add: div_if)
  ultimately show ?thesis using n r by simp
qed

lemma byte_eqI: "(\<And>j. j < 8 \<Longrightarrow> bit a (7 - j) = bit b (7 - j)) \<Longrightarrow> a = b" for a b :: "8 word"
proof (rule bit_word_eqI)
  fix n
  assume *: "\<And>j. j < 8 \<Longrightarrow> bit a (7 - j) = bit b (7 - j)" and "n < LENGTH(8)"
  then show "bit a n = bit b n" using *[of "7 - n"] by simp
qed

text \<open>Packing puts element \<open>8 * k + j\<close> into bit \<open>7 - j\<close> of byte \<open>k\<close>, and clears the bits past the end.\<close>

lemma op_pack_bits_eq:
  "\<exists>res. op_pack_bits [List (map Bool v)] = Inr (Bytes res) \<and> length res = (length v + 7) div 8
    \<and> (\<forall>k < length res. \<forall>j < 8. bit (res ! k) (7 - j) \<longleftrightarrow> 8 * k + j < length v \<and> v ! (8 * k + j))"
proof -
  let ?z = "replicate ((length v + 7) div 8) 0 :: bytes"
  have "0 + length v \<le> 8 * length ?z" by simp
  from pack_loop_bits [OF this] obtain res where "pack_loop 0 (map Bool v) ?z = Inr res" "length res = length ?z"
    "\<forall>k < length ?z. \<forall>j < 8. bit (res ! k) (7 - j) \<longleftrightarrow>
       bit (?z ! k) (7 - j) \<or> (0 \<le> 8 * k + j \<and> 8 * k + j < 0 + length v \<and> v ! (8 * k + j - 0))" by blast
  then show ?thesis by (intro exI [of _ res]) auto
qed

text \<open>Bits and bytes convert into each other: packing the bits of a byte string gives the byte
  string back, and unpacking a packed list of booleans gives the list, filled up with \<open>false\<close> to
  whole bytes.\<close>

lemma pack_unpack_bits:
  "bind_res (op_unpack_bits [Bytes bs]) (\<lambda>bits. op_pack_bits [bits]) = Inr (Bytes bs)
   \<and> bind_res (op_pack_bits [List (map Bool v)]) (\<lambda>b. op_unpack_bits [b])
      = Inr (List (map Bool (v @ replicate ((8 - length v mod 8) mod 8) False)))"
proof
  let ?v = "concat (map byte_bits bs)"
  obtain res where res: "op_pack_bits [List (map Bool ?v)] = Inr (Bytes res)" "length res = (length ?v + 7) div 8"
    "\<forall>k < length res. \<forall>j < 8. bit (res ! k) (7 - j) \<longleftrightarrow> 8 * k + j < length ?v \<and> ?v ! (8 * k + j)"
    using op_pack_bits_eq by blast
  then have len: "length res = length bs" by simp
  have "res = bs"
    using res(3) len by (intro nth_equalityI byte_eqI) (auto simp: concat_bits_nth)
  then show "bind_res (op_unpack_bits [Bytes bs]) (\<lambda>bits. op_pack_bits [bits]) = Inr (Bytes bs)"
    unfolding op_unpack_bits_eq bind_res.simps res(1) by simp
next
  obtain res where res: "op_pack_bits [List (map Bool v)] = Inr (Bytes res)" "length res = (length v + 7) div 8"
    "\<forall>k < length res. \<forall>j < 8. bit (res ! k) (7 - j) \<longleftrightarrow> 8 * k + j < length v \<and> v ! (8 * k + j)"
    using op_pack_bits_eq by blast
  let ?p = "v @ replicate ((8 - length v mod 8) mod 8) False"
  have "concat (map byte_bits res) = ?p"
  proof (rule nth_equalityI)
    show len: "length (concat (map byte_bits res)) = length ?p" using res(2) whole_bytes by simp
    fix i assume i: "i < length (concat (map byte_bits res))"
    let ?k = "i div 8" and ?j = "i mod 8"
    have k: "?k < length res" using i by simp
    have "concat (map byte_bits res) ! (8 * ?k + ?j) = bit (res ! ?k) (7 - ?j)"
      by (rule concat_bits_nth [OF k]) simp
    also have "\<dots> \<longleftrightarrow> 8 * ?k + ?j < length v \<and> v ! (8 * ?k + ?j)" using res(3) k by simp
    finally have "concat (map byte_bits res) ! i \<longleftrightarrow> i < length v \<and> v ! i" by simp
    moreover have "i - length v < (8 - length v mod 8) mod 8" if "\<not> i < length v"
      using i len that unfolding length_append length_replicate by linarith
    ultimately show "concat (map byte_bits res) ! i = ?p ! i" by (simp add: nth_append)
  qed
  then show "bind_res (op_pack_bits [List (map Bool v)]) (\<lambda>b. op_unpack_bits [b]) = Inr (List (map Bool ?p))"
    unfolding res(1) bind_res.simps op_unpack_bits_eq by simp
qed

section \<open>Properties of slices\<close>

text \<open>The position an index stands for: from the end where it is negative.\<close>

definition list_pos :: "nat \<Rightarrow> i64 \<Rightarrow> int" where
  "list_pos len i = (if sint i < 0 then sint i + int len else sint i)"

lemma sint_add_len:
  fixes i :: i64
  assumes "len < 2 ^ 63" "sint i < 0"
  shows "sint (i + of_nat len) = sint i + int len"
proof -
  have "- (2 ^ 63) \<le> sint i" using sint_ge [of i] by simp
  then have "sint (of_nat len :: i64) = int len"
    and "- (2 ^ 63) \<le> sint i + int len" "sint i + int len < 2 ^ 63"
    using assms by (simp_all add: signed_of_nat signed_take_bit_int_eq_self)
  then show ?thesis by (simp add: sint_word_ariths signed_take_bit_int_eq_self)
qed

lemma get_index_eq:
  assumes "len < 2 ^ 63"
  shows "get_index i len up =
    (if 0 \<le> list_pos len i \<and> (list_pos len i < int len \<or> up \<and> list_pos len i = int len)
     then Inr (nat (list_pos len i)) else Inl OpFailed)"
  using sint_add_len [OF assms, of i] by (auto simp: get_index_def list_pos_def Let_def)

text \<open>C32. \<open>slice\<close> takes the elements from its first to its second index, counted from the end where
  negative; indices outside the list are errors.  It panics exactly when both are valid and the
  second stands before the first.\<close>

theorem slice_exact:
  assumes "length l < 2 ^ 63"
  shows "op_slice [List l, Num (NInt m), Num (NInt n)] =
    (let a = list_pos (length l) m; b = list_pos (length l) n in
     if \<not> (0 \<le> a \<and> a < int (length l)) \<or> \<not> (0 \<le> b \<and> b \<le> int (length l)) then Inl OpFailed
     else if b < a then Inl Panic
     else Inr (List (map (\<lambda>i. l ! nat i) [a..b - 1])))"
proof -
  have "slice_range l (nat a) (nat b) = (if b < a then Inl Panic else Inr (map (\<lambda>i. l ! nat i) [a..b - 1]))"
    if "0 \<le> a" "0 \<le> b" "b \<le> int (length l)" for a b
  proof -
    have "take (nat b - nat a) (drop (nat a) l) = map (\<lambda>i. l ! nat i) [a..b - 1]" if "a \<le> b"
      using that \<open>0 \<le> a\<close> \<open>b \<le> int (length l)\<close> by (intro nth_equalityI) (auto simp: nat_add_distrib)
    then show ?thesis using that by (auto simp: slice_range_def)
  qed
  then show ?thesis by (auto simp: op_slice_def arg_def get_index_eq [OF assms] Let_def)
qed

theorem slice_exact_witness:
  "op_slice [List [Null, Bool True, Bot], Num (NInt 1), Num (NInt (- 1))] = Inr (List [Bool True])
   \<and> op_slice [List [Null, Bool True, Bot], Num (NInt 2), Num (NInt 1)] = Inl Panic"
  using slice_exact [of "[Null, Bool True, Bot]" 1 "- 1"] slice_exact [of "[Null, Bool True, Bot]" 2 1]
  by (simp add: list_pos_def Let_def upto.simps)

section \<open>Properties of intervals\<close>

text \<open>A bound that floats represent: its key orders it against every other one.\<close>

fun exact_num :: "number \<Rightarrow> bool" where
  "exact_num (NInt i) = exact_int i"
| "exact_num (NFloat f) = (\<not> f64_is_nan f)"

definition num_key :: "number \<Rightarrow> int" where
  "num_key n = ieee_key (num_get_float n)"

lemma interval_num_cmp_key:
  "exact_num a \<Longrightarrow> exact_num b \<Longrightarrow> interval_num_cmp a b = Inr (cmp_of (num_key a) (num_key b))"
  by (cases a; cases b) (simp_all add: num_key_def f64_partial_cmp_def exact_int_ieee)

lemma exact_num_not_nan [simp]: "exact_num n \<Longrightarrow> \<not> nan_bound n"
  by (cases n) simp_all

lemma to_interval_key:
  "exact_num s \<Longrightarrow> exact_num e \<Longrightarrow>
   to_interval (List [Num s, Num e]) = (if num_key e < num_key s then Inl OpFailed else Inr (s, e))"
  by (simp add: to_interval_def interval_num_cmp_key cmp_of_def)

definition num_before :: "number \<Rightarrow> number \<Rightarrow> bool" where
  "num_before a b \<longleftrightarrow> interval_num_cmp a b = Inr Less"

lemma num_before_key: "exact_num a \<Longrightarrow> exact_num b \<Longrightarrow> num_before a b \<longleftrightarrow> num_key a < num_key b"
  by (simp add: num_before_def interval_num_cmp_key cmp_of_def)

text \<open>The points of the half-open interval \<open>[s, e)\<close>.\<close>

definition in_interval :: "number \<Rightarrow> number \<times> number \<Rightarrow> bool" where
  "in_interval x = (\<lambda>(s, e). exact_num x \<and> \<not> num_before x s \<and> num_before x e)"

lemma common_point:
  assumes "exact_num s1" "exact_num e1" "exact_num s2" "exact_num e2"
  shows "(\<exists>x. in_interval x (s1, e1) \<and> in_interval x (s2, e2)) \<longleftrightarrow>
    max (num_key s1) (num_key s2) < min (num_key e1) (num_key e2)" (is "?l \<longleftrightarrow> ?r")
proof
  assume ?l then show ?r using assms by (fastforce simp: in_interval_def num_before_key)
next
  assume ?r
  then have "in_interval (if num_key s1 \<le> num_key s2 then s2 else s1) (s1, e1)
    \<and> in_interval (if num_key s1 \<le> num_key s2 then s2 else s1) (s2, e2)"
    using assms by (auto simp: in_interval_def num_before_key)
  then show ?l by blast
qed

text \<open>C31. \<open>interval_overlaps\<close> answers whether two half-open intervals have a point in common, an empty
  one overlapping nothing; an interval whose start is past its end is an error.  Bounds are numbers
  other than NaN, integers among them within the range that floats represent.\<close>

theorem interval_overlaps_exact:
  assumes "exact_num s1" "exact_num e1" "exact_num s2" "exact_num e2"
  shows "op_interval_overlaps [List [Num s1, Num e1], List [Num s2, Num e2]] =
    (if num_before e1 s1 \<or> num_before e2 s2 then Inl OpFailed
     else Inr (Bool (\<exists>x. in_interval x (s1, e1) \<and> in_interval x (s2, e2))))"
  unfolding common_point [OF assms]
  using assms by (auto simp: op_interval_overlaps_def arg_def to_interval_key interval_num_cmp_key num_before_key cmp_of_def)

theorem interval_overlaps_exact_witness:
  "op_interval_overlaps [List [Num (NInt 1), Num (NInt 4)], List [Num (NInt 2), Num (NInt 2)]] = Inr (Bool False)
   \<and> op_interval_overlaps [List [Num (NInt 1), Num (NInt 4)], List [Num (NInt 2), Num (NInt 5)]] = Inr (Bool True)"
proof -
  have e: "exact_num (NInt 1)" "exact_num (NInt 4)" "exact_num (NInt 2)" "exact_num (NInt 5)"
    by (simp_all add: exact_int_def)
  have "\<not> in_interval x (NInt 2, NInt 2)" for x by (simp add: in_interval_def)
  moreover have "in_interval (NInt 2) (NInt 1, NInt 4) \<and> in_interval (NInt 2) (NInt 2, NInt 5)"
    using e by (simp add: in_interval_def num_before_def cmp_of_def)
  moreover have "\<not> num_before (NInt 4) (NInt 1)" "\<not> num_before (NInt 2) (NInt 2)" "\<not> num_before (NInt 5) (NInt 2)"
    by (simp_all add: num_before_def cmp_of_def)
  ultimately show ?thesis
    using interval_overlaps_exact [OF e(1,2) e(3,3)] interval_overlaps_exact [OF e(1,2) e(3,4)] by auto
qed

section \<open>Properties of lists\<close>

lemma concat_chunks: "0 < n \<Longrightarrow> concat (chunks n xs) = xs"
  by (induction n xs rule: chunks.induct) (subst chunks.simps, simp)

lemma chunks_size: "c \<in> set (chunks n xs) \<Longrightarrow> c \<noteq> [] \<and> length c \<le> n"
  by (induction n xs rule: chunks.induct) (subst (asm) (2) chunks.simps, auto split: if_splits)

lemma chunks_exact_prefix:
  assumes "0 < n"
  shows "concat (chunks_exact n xs) = take (length xs div n * n) xs"
  using assms
proof (induction n xs rule: chunks.induct)
  case (1 n xs)
  show ?case
  proof (cases "length xs < n")
    case True
    then have "chunks n xs = (if xs = [] then [] else [xs])"
      using 1(2) by (subst chunks.simps) (simp add: chunks.simps)
    then show ?thesis using True by (simp add: chunks_exact_def)
  next
    case False
    then have "chunks n xs = take n xs # chunks n (drop n xs)" "xs \<noteq> []" using 1(2) by (subst chunks.simps, auto)+
    moreover have "length xs div n = Suc ((length xs - n) div n)" using False 1(2) by (simp add: le_div_geq)
    ultimately show ?thesis using 1 False by (simp add: chunks_exact_def take_add)
  qed
qed

lemma set_sort_insert [simp]: "set (sort_insert E x xs) = insert x (set xs)"
  by (induction xs) auto

lemma mset_slice_sort: "mset (slice_sort E xs) = mset xs"
proof -
  have "mset (sort_insert E x ys) = add_mset x (mset ys)" for x ys by (induction ys) auto
  then show ?thesis unfolding slice_sort_def by (induction xs) simp_all
qed

lemma sorted_slice_sort:
  assumes "ext_ok E"
  shows "sorted_wrt (dv_le E) (slice_sort E xs)"
proof -
  have "sorted_wrt (dv_le E) (sort_insert E x ys)" if "sorted_wrt (dv_le E) ys" for x ys
    using that
  proof (induction ys)
    case (Cons y ys)
    have "dv_le E x z" if "dv_le E x y" "z \<in> set ys" for z
      using that Cons.prems dv_le_trans [OF assms, of x y z] by simp
    then show ?case using Cons dv_le_total [OF assms, of x y] by simp
  qed simp
  then show ?thesis unfolding slice_sort_def by (induction xs) simp_all
qed

end
