(* ===== verification/Aggregates.thy ===== *)
theory Aggregates
  imports Functions
begin

text \<open>
  The aggregates of the query language (\<open>data/aggr.rs\<close>): the meet operators, which recursion may
  use, with the flag that reports a change; the ordinary aggregates as a state with \<open>set\<close> and
  \<open>get\<close>; the candidates of the bounded aggregates and Pareto dominance.  An operator object is a
  value of a datatype with one constructor for each of the structs.  \<open>BTreeSet\<close>s are lists in
  ascending order.  The arithmetic of the machine on floats and the draws of the random number
  generator are the fields of a parameter \<open>F\<close>.
\<close>

section \<open>Sets\<close>

definition bs_contains :: "ext \<Rightarrow> data_value \<Rightarrow> data_value list \<Rightarrow> bool" where
  "bs_contains E x s = list_ex (\<lambda>y. dv_cmp E y x = Equal) s"

text \<open>\<open>intersection\<close> keeps the elements of the first set.\<close>

definition bs_intersection :: "ext \<Rightarrow> data_value list \<Rightarrow> data_value list \<Rightarrow> data_value list" where
  "bs_intersection E a b = filter (\<lambda>x. bs_contains E x b) a"

text \<open>Inserting one by one; the flag tells whether one of them was new.\<close>

fun bs_extend :: "ext \<Rightarrow> data_value list \<Rightarrow> data_value list \<Rightarrow> data_value list \<times> bool" where
  "bs_extend E s [] = (s, False)"
| "bs_extend E s (x # xs) =
     (let (s', inserted) = btree_insert E x s; (s'', rest) = bs_extend E s' xs in (s'', inserted \<or> rest))"

section \<open>Meet operators\<close>

datatype meet_op =
    MeetAggrAnd | MeetAggrOr | MeetAggrUnion | MeetAggrIntersection | MeetAggrMin | MeetAggrMax
  | MeetAggrMinCost | MeetAggrShortest | MeetAggrChoice | MeetAggrBitAnd | MeetAggrBitOr

fun init_val :: "meet_op \<Rightarrow> data_value" where
  "init_val MeetAggrAnd = Bool True"
| "init_val MeetAggrOr = Bool False"
| "init_val MeetAggrUnion = Set []"
| "init_val MeetAggrIntersection = Null"
| "init_val MeetAggrMin = Null"
| "init_val MeetAggrMax = Null"
| "init_val MeetAggrMinCost = List [Null, Num (NFloat f64_infinity)]"
| "init_val MeetAggrShortest = Null"
| "init_val MeetAggrChoice = Null"
| "init_val MeetAggrBitAnd = Bytes []"
| "init_val MeetAggrBitOr = Bytes []"

text \<open>A list on the left is turned into a set first.\<close>

fun list_to_set :: "ext \<Rightarrow> data_value \<Rightarrow> data_value" where
  "list_to_set E (List l) = Set (btree_collect E l)"
| "list_to_set E v = v"

definition union_update :: "ext \<Rightarrow> data_value \<Rightarrow> data_value \<Rightarrow> (data_value \<times> bool) result" where
  "union_update E l r =
     (case (list_to_set E l, r) of
        (Set l, Set s) \<Rightarrow> (let (l', inserted) = bs_extend E l s in Inr (Set l', inserted))
      | (Set l, List s) \<Rightarrow> (let (l', inserted) = bs_extend E l s in Inr (Set l', inserted))
      | _ \<Rightarrow> Inl OpFailed)"

definition intersect_sets :: "ext \<Rightarrow> data_value list \<Rightarrow> data_value list \<Rightarrow> data_value \<times> bool" where
  "intersect_sets E l s =
     (let new_set = bs_intersection E l s in
      if length l = length new_set then (Set l, False) else (Set new_set, True))"

definition intersection_update :: "ext \<Rightarrow> data_value \<Rightarrow> data_value \<Rightarrow> (data_value \<times> bool) result" where
  "intersection_update E l r =
     (if l = Null \<and> r \<noteq> Null then Inr (r, True)
      else if r = Null then Inr (l, False)
      else
        case (list_to_set E l, r) of
          (Set l, Set s) \<Rightarrow> Inr (intersect_sets E l s)
        | (Set l, List s) \<Rightarrow> Inr (intersect_sets E l (btree_collect E s))
        | _ \<Rightarrow> Inl OpFailed)"

text \<open>\<open>min\<close> and \<open>max\<close> differ in the comparison that lets the right operand win.\<close>

definition extremum_update :: "(f64 \<Rightarrow> f64 \<Rightarrow> bool) \<Rightarrow> data_value \<Rightarrow> data_value \<Rightarrow> (data_value \<times> bool) result" where
  "extremum_update wins l r =
     (if r = Null then Inr (l, False)
      else if l = Null then Inr (r, True)
      else
        bind_res (ok_or OpFailed (get_float l)) (\<lambda>f1.
        bind_res (ok_or OpFailed (get_float r)) (\<lambda>f2.
          Inr (if wins f1 f2 then (r, True) else (l, False)))))"

definition min_cost_update :: "data_value \<Rightarrow> data_value \<Rightarrow> (data_value \<times> bool) result" where
  "min_cost_update l r =
     (case (l, r) of
        (List prev, List l) \<Rightarrow>
          if \<not> (length l = 2 \<and> length prev = 2) then Inl OpFailed
          else
            bind_res (ok_or OpFailed (get_float (l ! 1))) (\<lambda>cur_cost.
            bind_res (ok_or OpFailed (get_float (prev ! 1))) (\<lambda>prev_cost.
              Inr (if f64_le prev_cost cur_cost then (List prev, False) else (List l, True))))
      | _ \<Rightarrow> Inl OpFailed)"

definition shortest_update :: "data_value \<Rightarrow> data_value \<Rightarrow> (data_value \<times> bool) result" where
  "shortest_update l r =
     (if l = Null \<and> r \<noteq> Null then Inr (r, True)
      else if r = Null then Inr (l, False)
      else
        case (l, r) of
          (List l, List r) \<Rightarrow> Inr (if length r < length l then (List r, True) else (List l, False))
        | _ \<Rightarrow> Inl OpFailed)"

text \<open>The two bitwise operators differ in the operation on bytes.\<close>

definition bitwise_update :: "(8 word \<Rightarrow> 8 word \<Rightarrow> 8 word) \<Rightarrow> data_value \<Rightarrow> data_value \<Rightarrow> (data_value \<times> bool) result" where
  "bitwise_update f l r =
     (case (l, r) of
        (Bytes left, Bytes right) \<Rightarrow>
          if left = right then Inr (Bytes left, False)
          else if left = [] then Inr (Bytes right, True)
          else if length left \<noteq> length right then Inl OpFailed
          else
            let res = map2 f left right
            in Inr (Bytes res, list_ex (\<lambda>(old, new). old \<noteq> new) (zip left res))
      | _ \<Rightarrow> Inl OpFailed)"

fun meet_update :: "ext \<Rightarrow> meet_op \<Rightarrow> data_value \<Rightarrow> data_value \<Rightarrow> (data_value \<times> bool) result" where
  "meet_update E MeetAggrAnd l r =
     (case (l, r) of (Bool l, Bool r) \<Rightarrow> Inr (Bool (l \<and> r), l \<noteq> (l \<and> r)) | _ \<Rightarrow> Inl OpFailed)"
| "meet_update E MeetAggrOr l r =
     (case (l, r) of (Bool l, Bool r) \<Rightarrow> Inr (Bool (l \<or> r), l \<noteq> (l \<or> r)) | _ \<Rightarrow> Inl OpFailed)"
| "meet_update E MeetAggrUnion l r = union_update E l r"
| "meet_update E MeetAggrIntersection l r = intersection_update E l r"
| "meet_update E MeetAggrMin l r = extremum_update (\<lambda>f1 f2. f64_lt f2 f1) l r"
| "meet_update E MeetAggrMax l r = extremum_update f64_lt l r"
| "meet_update E MeetAggrMinCost l r = min_cost_update l r"
| "meet_update E MeetAggrShortest l r = shortest_update l r"
| "meet_update E MeetAggrChoice l r = Inr (if l = Null \<and> r \<noteq> Null then (r, True) else (l, False))"
| "meet_update E MeetAggrBitAnd l r = bitwise_update (AND) l r"
| "meet_update E MeetAggrBitOr l r = bitwise_update (OR) l r"

section \<open>Ordinary aggregates\<close>

text \<open>Float arithmetic, and the draw for the n-th value of a group.\<close>

record f64_ops =
  f_add :: "f64 \<Rightarrow> f64 \<Rightarrow> f64"
  f_sub :: "f64 \<Rightarrow> f64 \<Rightarrow> f64"
  f_mul :: "f64 \<Rightarrow> f64 \<Rightarrow> f64"
  f_div :: "f64 \<Rightarrow> f64 \<Rightarrow> f64"
  f_sqrt :: "f64 \<Rightarrow> f64"
  f_rand :: "i64 \<Rightarrow> f64"

definition f64_zero :: f64 where "f64_zero = F64 0"
definition f64_one :: f64 where "f64_one = F64 0x3FF0000000000000"

datatype normal_op =
    AggrAnd bool
  | AggrOr bool
  | AggrUnique "data_value list"
  | AggrGroupCount "(data_value \<times> i64) list"
  | AggrCountUnique i64 "data_value list"
  | AggrUnion "data_value list"
  | AggrIntersection "data_value list option"
  | AggrCollect "nat option" "data_value list"
  | AggrIntervalCoalesce "(number \<times> number) list"
  | AggrChoiceRand i64 data_value
  | AggrCount i64
  | AggrVariance i64 f64 f64
  | AggrStdDev i64 f64 f64
  | AggrMean i64 f64
  | AggrSum f64
  | AggrProduct f64
  | AggrIntSumProd i64
  | AggrMin data_value
  | AggrMax data_value
  | AggrLatestBy data_value data_value
  | AggrSmallestBy data_value data_value
  | AggrMinCost data_value f64
  | AggrShortest "data_value list option"
  | AggrChoice data_value
  | AggrBitAnd bytes
  | AggrBitOr bytes
  | AggrBitXor bytes
  | MeetToNormalAdapter "data_value \<Rightarrow> data_value \<Rightarrow> (data_value \<times> bool) result" data_value

text \<open>The entry of a key in a \<open>BTreeMap\<close> of counts, made zero when missing, is incremented.\<close>

fun count_entry :: "ext \<Rightarrow> data_value \<Rightarrow> (data_value \<times> i64) list \<Rightarrow> (data_value \<times> i64) list" where
  "count_entry E x [] = [(x, 1)]"
| "count_entry E x ((y, n) # ys) =
     (case dv_cmp E x y of
        Less \<Rightarrow> (x, 1) # (y, n) # ys
      | Equal \<Rightarrow> (y, n + 1) # ys
      | Greater \<Rightarrow> (y, n) # count_entry E x ys)"

definition extremum_set :: "(f64 \<Rightarrow> f64 \<Rightarrow> bool) \<Rightarrow> data_value \<Rightarrow> data_value \<Rightarrow> data_value result" where
  "extremum_set wins found v =
     (if v = Null then Inr found
      else if found = Null then Inr v
      else
        bind_res (ok_or OpFailed (get_float found)) (\<lambda>f1.
        bind_res (ok_or OpFailed (get_float v)) (\<lambda>f2.
          Inr (if wins f1 f2 then v else found))))"

definition bitwise_set :: "(8 word \<Rightarrow> 8 word \<Rightarrow> 8 word) \<Rightarrow> bytes \<Rightarrow> data_value \<Rightarrow> bytes result" where
  "bitwise_set f res v =
     (case v of
        Bytes bs \<Rightarrow>
          if res = [] then Inr bs
          else if length res \<noteq> length bs then Inl OpFailed
          else Inr (map2 f res bs)
      | _ \<Rightarrow> Inl OpFailed)"

text \<open>Checked arithmetic: \<open>None\<close> when the result is no \<open>i64\<close>.\<close>

definition checked_i64 :: "int \<Rightarrow> i64 option" where
  "checked_i64 n = (if - (2 ^ 63) \<le> n \<and> n < 2 ^ 63 then Some (word_of_int n) else None)"

definition checked_mul :: "i64 \<Rightarrow> i64 \<Rightarrow> i64 option" where
  "checked_mul a b = checked_i64 (sint a * sint b)"

definition checked_add :: "i64 \<Rightarrow> i64 \<Rightarrow> i64 option" where
  "checked_add a b = checked_i64 (sint a + sint b)"

fun checked_product :: "i64 \<Rightarrow> data_value list \<Rightarrow> i64 result" where
  "checked_product p [] = Inr p"
| "checked_product p (it # items) =
     bind_res (ok_or OpFailed (get_int it)) (\<lambda>n.
     bind_res (ok_or OpFailed (checked_mul p n)) (\<lambda>p. checked_product p items))"

definition int_sum_prod_set :: "i64 \<Rightarrow> data_value \<Rightarrow> i64 result" where
  "int_sum_prod_set s v =
     (case v of
        List items \<Rightarrow>
          bind_res (checked_product 1 items) (\<lambda>p. ok_or OpFailed (checked_add s p))
      | _ \<Rightarrow> Inl OpFailed)"

fun list_pair :: "data_value \<Rightarrow> (data_value \<times> data_value) result" where
  "list_pair (List l) = (if length l = 2 then Inr (l ! 0, l ! 1) else Inl OpFailed)"
| "list_pair _ = Inl OpFailed"

fun normal_set :: "ext \<Rightarrow> f64_ops \<Rightarrow> normal_op \<Rightarrow> data_value \<Rightarrow> normal_op result" where
  "normal_set E F (AggrAnd accum) v = (case v of Bool b \<Rightarrow> Inr (AggrAnd (accum \<and> b)) | _ \<Rightarrow> Inl OpFailed)"
| "normal_set E F (AggrOr accum) v = (case v of Bool b \<Rightarrow> Inr (AggrOr (accum \<or> b)) | _ \<Rightarrow> Inl OpFailed)"
| "normal_set E F (AggrUnique accum) v = Inr (AggrUnique (fst (btree_insert E v accum)))"
| "normal_set E F (AggrGroupCount accum) v = Inr (AggrGroupCount (count_entry E v accum))"
| "normal_set E F (AggrCountUnique ct accum) v =
     Inr (if bs_contains E v accum then AggrCountUnique ct accum
          else AggrCountUnique (ct + 1) (fst (btree_insert E v accum)))"
| "normal_set E F (AggrUnion accum) v =
     (case v of List l \<Rightarrow> Inr (AggrUnion (fst (bs_extend E accum l))) | _ \<Rightarrow> Inl OpFailed)"
| "normal_set E F (AggrIntersection accum) v =
     (case v of
        List l \<Rightarrow>
          Inr (AggrIntersection (Some
            (case accum of Some a \<Rightarrow> bs_intersection E a (btree_collect E l) | None \<Rightarrow> btree_collect E l)))
      | _ \<Rightarrow> Inl OpFailed)"
| "normal_set E F (AggrCollect limit accum) v =
     Inr (AggrCollect limit
       (case limit of Some n \<Rightarrow> if n \<le> length accum then accum else accum @ [v] | None \<Rightarrow> accum @ [v]))"
| "normal_set E F (AggrIntervalCoalesce accum) v =
     map_res (\<lambda>(s, e). AggrIntervalCoalesce (accum @ [(s, e)])) (to_interval v)"
| "normal_set E F (AggrChoiceRand ct x) v =
     (let ct = ct + 1; prob = f_div F f64_one (i64_as_f64 ct)
      in Inr (AggrChoiceRand ct (if f64_lt (f_rand F ct) prob then v else x)))"
| "normal_set E F (AggrCount ct) v = Inr (AggrCount (ct + 1))"
| "normal_set E F (AggrVariance ct acc acc_sq) v =
     (case v of
        Num n \<Rightarrow>
          (let f = num_get_float n
           in Inr (AggrVariance (ct + 1) (f_add F acc f) (f_add F acc_sq (f_mul F f f))))
      | _ \<Rightarrow> Inl OpFailed)"
| "normal_set E F (AggrStdDev ct acc acc_sq) v =
     (case v of
        Num n \<Rightarrow>
          (let f = num_get_float n
           in Inr (AggrStdDev (ct + 1) (f_add F acc f) (f_add F acc_sq (f_mul F f f))))
      | _ \<Rightarrow> Inl OpFailed)"
| "normal_set E F (AggrMean ct acc) v =
     (case v of Num n \<Rightarrow> Inr (AggrMean (ct + 1) (f_add F acc (num_get_float n))) | _ \<Rightarrow> Inl OpFailed)"
| "normal_set E F (AggrSum acc) v =
     (case v of Num n \<Rightarrow> Inr (AggrSum (f_add F acc (num_get_float n))) | _ \<Rightarrow> Inl OpFailed)"
| "normal_set E F (AggrProduct acc) v =
     (case v of Num n \<Rightarrow> Inr (AggrProduct (f_mul F acc (num_get_float n))) | _ \<Rightarrow> Inl OpFailed)"
| "normal_set E F (AggrIntSumProd acc) v = map_res AggrIntSumProd (int_sum_prod_set acc v)"
| "normal_set E F (AggrMin found) v = map_res AggrMin (extremum_set (\<lambda>f1 f2. f64_lt f2 f1) found v)"
| "normal_set E F (AggrMax found) v = map_res AggrMax (extremum_set f64_lt found v)"
| "normal_set E F (AggrLatestBy found cost) v =
     map_res (\<lambda>(x, c). if dv_cmp E c cost = Greater then AggrLatestBy x c else AggrLatestBy found cost) (list_pair v)"
| "normal_set E F (AggrSmallestBy found cost) v =
     map_res (\<lambda>(x, c). if cost = Null \<or> dv_cmp E c cost = Less then AggrSmallestBy x c else AggrSmallestBy found cost)
       (list_pair v)"
| "normal_set E F (AggrMinCost found cost) v =
     bind_res (list_pair v) (\<lambda>(x, c). map_res
       (\<lambda>c. if f64_lt c cost then AggrMinCost x c else AggrMinCost found cost) (ok_or OpFailed (get_float c)))"
| "normal_set E F (AggrShortest found) v =
     (case v of
        List l \<Rightarrow>
          Inr (AggrShortest (Some (case found of None \<Rightarrow> l | Some f \<Rightarrow> if length l < length f then l else f)))
      | _ \<Rightarrow> Inl OpFailed)"
| "normal_set E F (AggrChoice found) v = Inr (AggrChoice (if found = Null then v else found))"
| "normal_set E F (AggrBitAnd res) v = map_res AggrBitAnd (bitwise_set (AND) res v)"
| "normal_set E F (AggrBitOr res) v = map_res AggrBitOr (bitwise_set (OR) res v)"
| "normal_set E F (AggrBitXor res) v = map_res AggrBitXor (bitwise_set (XOR) res v)"
| "normal_set E F (MeetToNormalAdapter op state) v = map_res (\<lambda>(state, _). MeetToNormalAdapter op state) (op state v)"

text \<open>\<open>interval_coalesce\<close>: the spans are sorted by start and then end with the numeric comparison, and
  merged in that order.  The sort is stable; both of its comparisons are made.\<close>

fun span_cmp :: "number \<times> number \<Rightarrow> number \<times> number \<Rightarrow> ordering result" where
  "span_cmp (s1, e1) (s2, e2) =
     bind_res (interval_num_cmp s1 s2) (\<lambda>c. map_res (then_with c) (interval_num_cmp e1 e2))"

fun span_insert :: "number \<times> number \<Rightarrow> (number \<times> number) list \<Rightarrow> (number \<times> number) list result" where
  "span_insert x [] = Inr [x]"
| "span_insert x (y # ys) =
     bind_res (span_cmp x y) (\<lambda>c.
       if c = Greater then map_res ((#) y) (span_insert x ys) else Inr (x # y # ys))"

fun sort_spans :: "(number \<times> number) list \<Rightarrow> (number \<times> number) list result" where
  "sort_spans [] = Inr []"
| "sort_spans (x # xs) = bind_res (sort_spans xs) (span_insert x)"

fun merge_spans :: "(number \<times> number) list \<Rightarrow> (number \<times> number) list \<Rightarrow> (number \<times> number) list result" where
  "merge_spans merged [] = Inr merged"
| "merge_spans merged ((s, e) # spans) =
     (if merged = [] then merge_spans [(s, e)] spans
      else
        let (cur_start, cur_end) = last merged in
        bind_res (interval_num_cmp s cur_end) (\<lambda>c.
          if c \<noteq> Greater then
            bind_res (interval_num_cmp e cur_end) (\<lambda>d.
              merge_spans (if d = Greater then butlast merged @ [(cur_start, e)] else merged) spans)
          else merge_spans (merged @ [(s, e)]) spans))"

definition coalesce_get :: "(number \<times> number) list \<Rightarrow> data_value result" where
  "coalesce_get accum =
     bind_res (sort_spans accum) (\<lambda>spans.
     bind_res (merge_spans [] spans) (\<lambda>merged.
       Inr (List (map (\<lambda>(s, e). List [Num s, Num e]) merged))))"

definition variance_of :: "f64_ops \<Rightarrow> i64 \<Rightarrow> f64 \<Rightarrow> f64 \<Rightarrow> f64" where
  "variance_of F n acc acc_sq =
     (let ct = i64_as_f64 n
      in f_div F (f_sub F acc_sq (f_div F (f_mul F acc acc) ct)) (f_sub F ct f64_one))"

fun normal_get :: "f64_ops \<Rightarrow> normal_op \<Rightarrow> data_value result" where
  "normal_get F (AggrAnd accum) = Inr (Bool accum)"
| "normal_get F (AggrOr accum) = Inr (Bool accum)"
| "normal_get F (AggrUnique accum) = Inr (List accum)"
| "normal_get F (AggrGroupCount accum) = Inr (List (map (\<lambda>(k, n). List [k, Num (NInt n)]) accum))"
| "normal_get F (AggrCountUnique ct accum) = Inr (Num (NInt ct))"
| "normal_get F (AggrUnion accum) = Inr (List accum)"
| "normal_get F (AggrIntersection accum) = Inr (List (case accum of None \<Rightarrow> [] | Some l \<Rightarrow> l))"
| "normal_get F (AggrCollect limit accum) = Inr (List accum)"
| "normal_get F (AggrIntervalCoalesce accum) = coalesce_get accum"
| "normal_get F (AggrChoiceRand ct v) = Inr v"
| "normal_get F (AggrCount ct) = Inr (Num (NInt ct))"
| "normal_get F (AggrVariance ct acc acc_sq) = Inr (Num (NFloat (variance_of F ct acc acc_sq)))"
| "normal_get F (AggrStdDev ct acc acc_sq) = Inr (Num (NFloat (f_sqrt F (variance_of F ct acc acc_sq))))"
| "normal_get F (AggrMean ct acc) = Inr (Num (NFloat (f_div F acc (i64_as_f64 ct))))"
| "normal_get F (AggrSum acc) = Inr (Num (NFloat acc))"
| "normal_get F (AggrProduct acc) = Inr (Num (NFloat acc))"
| "normal_get F (AggrIntSumProd acc) = Inr (Num (NInt acc))"
| "normal_get F (AggrMin found) = Inr found"
| "normal_get F (AggrMax found) = Inr found"
| "normal_get F (AggrLatestBy found cost) = Inr found"
| "normal_get F (AggrSmallestBy found cost) = Inr found"
| "normal_get F (AggrMinCost found cost) = Inr (List [found, Num (NFloat cost)])"
| "normal_get F (AggrShortest found) = Inr (case found of None \<Rightarrow> Null | Some l \<Rightarrow> List l)"
| "normal_get F (AggrChoice found) = Inr found"
| "normal_get F (AggrBitAnd res) = Inr (Bytes res)"
| "normal_get F (AggrBitOr res) = Inr (Bytes res)"
| "normal_get F (AggrBitXor res) = Inr (Bytes res)"
| "normal_get F (MeetToNormalAdapter op state) = Inr state"

section \<open>Aggregations by name\<close>

text \<open>A meet object is its initial value and its update; a factory registered by the host makes one.  The factory
  of an aggregation, when it has one, is an argument of its own.\<close>

type_synonym meet_obj = "data_value \<times> (data_value \<Rightarrow> data_value \<Rightarrow> (data_value \<times> bool) result)"

record aggregation =
  aggr_name :: string
  is_meet :: bool
  is_bounded_meet :: bool

definition define_aggr :: "string \<Rightarrow> bool \<Rightarrow> bool \<Rightarrow> aggregation" where
  "define_aggr name meet bounded =
     \<lparr> aggr_name = name, is_meet = meet, is_bounded_meet = bounded \<rparr>"

definition parse_aggr :: "string \<Rightarrow> aggregation option" where
  "parse_aggr name = map_of
     [(''and'', define_aggr ''AGGR_AND'' True False),
      (''or'', define_aggr ''AGGR_OR'' True False),
      (''unique'', define_aggr ''AGGR_UNIQUE'' False False),
      (''group_count'', define_aggr ''AGGR_GROUP_COUNT'' False False),
      (''union'', define_aggr ''AGGR_UNION'' True False),
      (''intersection'', define_aggr ''AGGR_INTERSECTION'' True False),
      (''count'', define_aggr ''AGGR_COUNT'' False False),
      (''count_unique'', define_aggr ''AGGR_COUNT_UNIQUE'' False False),
      (''variance'', define_aggr ''AGGR_VARIANCE'' False False),
      (''std_dev'', define_aggr ''AGGR_STD_DEV'' False False),
      (''sum'', define_aggr ''AGGR_SUM'' False False),
      (''product'', define_aggr ''AGGR_PRODUCT'' False False),
      (''min'', define_aggr ''AGGR_MIN'' True False),
      (''max'', define_aggr ''AGGR_MAX'' True False),
      (''mean'', define_aggr ''AGGR_MEAN'' False False),
      (''choice'', define_aggr ''AGGR_CHOICE'' True False),
      (''collect'', define_aggr ''AGGR_COLLECT'' False False),
      (''interval_coalesce'', define_aggr ''AGGR_INTERVAL_COALESCE'' False False),
      (''shortest'', define_aggr ''AGGR_SHORTEST'' True False),
      (''min_cost'', define_aggr ''AGGR_MIN_COST'' True False),
      (''bit_and'', define_aggr ''AGGR_BIT_AND'' True False),
      (''bit_or'', define_aggr ''AGGR_BIT_OR'' True False),
      (''bit_xor'', define_aggr ''AGGR_BIT_XOR'' False False),
      (''latest_by'', define_aggr ''AGGR_LATEST_BY'' False False),
      (''smallest_by'', define_aggr ''AGGR_SMALLEST_BY'' False False),
      (''choice_rand'', define_aggr ''AGGR_CHOICE_RAND'' False False),
      (''min_cost_k'', define_aggr ''AGGR_MIN_COST_K'' False True),
      (''pareto_min'', define_aggr ''pareto_min'' False True),
      (''pareto_max'', define_aggr ''pareto_max'' False True)] name"

definition meet_init :: "ext \<Rightarrow> meet_obj option \<Rightarrow> aggregation \<Rightarrow> data_value list \<Rightarrow> meet_obj result" where
  "meet_init E meet_factory a args =
     (case meet_factory of
        Some f \<Rightarrow> if args \<noteq> [] then Inl OpFailed else Inr f
      | None \<Rightarrow>
          map_res (\<lambda>op. (init_val op, meet_update E op)) (ok_or Panic (map_of
            [(''AGGR_AND'', MeetAggrAnd), (''AGGR_OR'', MeetAggrOr), (''AGGR_MIN'', MeetAggrMin),
             (''AGGR_MAX'', MeetAggrMax), (''AGGR_CHOICE'', MeetAggrChoice), (''AGGR_BIT_AND'', MeetAggrBitAnd),
             (''AGGR_BIT_OR'', MeetAggrBitOr), (''AGGR_UNION'', MeetAggrUnion),
             (''AGGR_INTERSECTION'', MeetAggrIntersection), (''AGGR_SHORTEST'', MeetAggrShortest),
             (''AGGR_MIN_COST'', MeetAggrMinCost)] (aggr_name a))))"

definition collect_init :: "data_value list \<Rightarrow> normal_op result" where
  "collect_init args =
     (case args of
        [] \<Rightarrow> Inr (AggrCollect None [])
      | arg0 # _ \<Rightarrow>
          bind_res (ok_or OpFailed (get_int arg0)) (\<lambda>n.
            if 0 < sint n then Inr (AggrCollect (Some (unat n)) []) else Inl OpFailed))"

definition normal_init :: "meet_obj option \<Rightarrow> aggregation \<Rightarrow> data_value list \<Rightarrow> normal_op result" where
  "normal_init meet_factory a args =
     (case meet_factory of
        Some (v, op) \<Rightarrow> if args \<noteq> [] then Inl OpFailed else Inr (MeetToNormalAdapter op v)
      | None \<Rightarrow>
          if aggr_name a = ''AGGR_COLLECT'' then collect_init args
          else ok_or Panic (map_of
            [(''AGGR_AND'', AggrAnd True), (''AGGR_OR'', AggrOr False), (''AGGR_COUNT'', AggrCount 0),
             (''AGGR_GROUP_COUNT'', AggrGroupCount []), (''AGGR_COUNT_UNIQUE'', AggrCountUnique 0 []),
             (''AGGR_SUM'', AggrSum f64_zero), (''AGGR_INT_SUM_PROD'', AggrIntSumProd 0),
             (''AGGR_PRODUCT'', AggrProduct f64_one), (''AGGR_MIN'', AggrMin Null), (''AGGR_MAX'', AggrMax Null),
             (''AGGR_MEAN'', AggrMean 0 f64_zero), (''AGGR_VARIANCE'', AggrVariance 0 f64_zero f64_zero),
             (''AGGR_STD_DEV'', AggrStdDev 0 f64_zero f64_zero), (''AGGR_CHOICE'', AggrChoice Null),
             (''AGGR_BIT_AND'', AggrBitAnd []), (''AGGR_BIT_OR'', AggrBitOr []), (''AGGR_BIT_XOR'', AggrBitXor []),
             (''AGGR_UNIQUE'', AggrUnique []), (''AGGR_UNION'', AggrUnion []),
             (''AGGR_INTERSECTION'', AggrIntersection None), (''AGGR_SHORTEST'', AggrShortest None),
             (''AGGR_MIN_COST'', AggrMinCost Null f64_infinity), (''AGGR_LATEST_BY'', AggrLatestBy Null Null),
             (''AGGR_SMALLEST_BY'', AggrSmallestBy Null Null), (''AGGR_CHOICE_RAND'', AggrChoiceRand 0 Null),
             (''AGGR_INTERVAL_COALESCE'', AggrIntervalCoalesce [])] (aggr_name a)))"

section \<open>Bounded aggregates\<close>

definition min_cost_k_validate :: "data_value \<Rightarrow> unit result" where
  "min_cost_k_validate v =
     (case v of
        List l \<Rightarrow>
          if length l \<noteq> 2 then Inl OpFailed
          else if get_float (l ! 1) = None then Inl OpFailed
          else Inr ()
      | _ \<Rightarrow> Inl OpFailed)"

definition candidate_cost :: "data_value \<Rightarrow> f64" where
  "candidate_cost v =
     (case v of
        List l \<Rightarrow> (case get_float (l ! 1) of Some c \<Rightarrow> c | None \<Rightarrow> f64_infinity)
      | _ \<Rightarrow> f64_infinity)"

definition cmp_candidates :: "ext \<Rightarrow> data_value \<Rightarrow> data_value \<Rightarrow> ordering" where
  "cmp_candidates E a b = then_with (total_cmp (candidate_cost a) (candidate_cost b)) (dv_cmp E a b)"

definition bounded_meet_init :: "string \<Rightarrow> data_value list \<Rightarrow> nat result" where
  "bounded_meet_init name args =
     (case args of
        [k_arg] \<Rightarrow>
          (case get_int k_arg of
             Some k \<Rightarrow>
               if 1 \<le> sint k then if name = ''AGGR_MIN_COST_K'' then Inr (unat k) else Inl Panic
               else Inl OpFailed
           | None \<Rightarrow> Inl OpFailed)
      | _ \<Rightarrow> Inl OpFailed)"

text \<open>Pareto dominance; the loop over the components returns early when one is worse.\<close>

fun pareto_loop :: "bool \<Rightarrow> bool \<Rightarrow> (data_value \<times> data_value) list \<Rightarrow> bool" where
  "pareto_loop minimize strict [] = strict"
| "pareto_loop minimize strict ((x, y) # xys) =
     (case (get_float x, get_float y) of
        (Some xf, Some yf) \<Rightarrow>
          let (weakly_better, strictly_better) =
            (if minimize then (f64_le xf yf, f64_lt xf yf) else (f64_le yf xf, f64_lt yf xf))
          in if \<not> weakly_better then False else pareto_loop minimize (strict \<or> strictly_better) xys
      | _ \<Rightarrow> False)"

definition pareto_dominates :: "data_value \<Rightarrow> data_value \<Rightarrow> bool \<Rightarrow> bool" where
  "pareto_dominates a b minimize =
     (case (a, b) of
        (List la, List lb) \<Rightarrow>
          if la = [] \<or> length la \<noteq> length lb then False else pareto_loop minimize False (zip la lb)
      | _ \<Rightarrow> False)"

definition pareto_validate :: "data_value \<Rightarrow> unit result" where
  "pareto_validate v =
     (case v of
        List l \<Rightarrow>
          if l = [] then Inl OpFailed
          else if list_all (\<lambda>x. case get_float x of Some f \<Rightarrow> \<not> f64_is_nan f | None \<Rightarrow> False) l then Inr ()
          else Inl OpFailed
      | _ \<Rightarrow> Inl OpFailed)"

record bounded_dominance =
  dominates :: "data_value \<Rightarrow> data_value \<Rightarrow> bool"
  max_survivors :: nat

definition builtin_skyline_dominance :: "string \<Rightarrow> bounded_dominance option" where
  "builtin_skyline_dominance name =
     map_option (\<lambda>minimize. \<lparr> dominates = \<lambda>a b. pareto_dominates a b minimize, max_survivors = 2 ^ 64 - 1 \<rparr>)
       (map_of [(''pareto_min'', True), (''pareto_max'', False)] name)"

definition builtin_skyline_validator :: "string \<Rightarrow> (data_value \<Rightarrow> unit result) option" where
  "builtin_skyline_validator name =
     (if name = ''pareto_min'' \<or> name = ''pareto_max'' then Some pareto_validate else None)"

section \<open>Ordered lists without duplicates\<close>

text \<open>Insertion under any comparison: what \<open>BTreeSet::insert\<close> does, and \<open>binary_search_by\<close> followed by an
  insertion at the returned position.\<close>

fun ord_insert :: "('a \<Rightarrow> 'a \<Rightarrow> ordering) \<Rightarrow> 'a \<Rightarrow> 'a list \<Rightarrow> 'a list \<times> bool" where
  "ord_insert cmp x [] = ([x], True)"
| "ord_insert cmp x (y # ys) =
     (case cmp x y of
        Less \<Rightarrow> (x # y # ys, True)
      | Equal \<Rightarrow> (y # ys, False)
      | Greater \<Rightarrow> (let (zs, b) = ord_insert cmp x ys in (y # zs, b)))"

lemma btree_insert_ord: "btree_insert E x s = ord_insert (dv_cmp E) x s"
  by (induction s) (simp_all split: ordering.splits)

definition ord_sorted :: "('a \<Rightarrow> 'a \<Rightarrow> ordering) \<Rightarrow> 'a list \<Rightarrow> bool" where
  "ord_sorted cmp s = sorted_wrt (\<lambda>x y. cmp x y = Less) s"

definition ord_mem :: "('a \<Rightarrow> 'a \<Rightarrow> ordering) \<Rightarrow> 'a \<Rightarrow> 'a list \<Rightarrow> bool" where
  "ord_mem cmp x s \<longleftrightarrow> (\<exists>y \<in> set s. cmp y x = Equal)"

lemma ord_sorted_simps [simp]:
  "ord_sorted cmp []"
  "ord_sorted cmp (y # ys) \<longleftrightarrow> (\<forall>z \<in> set ys. cmp y z = Less) \<and> ord_sorted cmp ys"
  by (simp_all add: ord_sorted_def)

lemma ord_mem_simps [simp]:
  "\<not> ord_mem cmp x []" "ord_mem cmp x (y # ys) \<longleftrightarrow> cmp y x = Equal \<or> ord_mem cmp x ys"
  by (simp_all add: ord_mem_def)

lemma set_ord_insert: "set (fst (ord_insert cmp x s)) = (if snd (ord_insert cmp x s) then insert x (set s) else set s)"
  by (induction s) (auto split: ordering.splits prod.splits)

lemma length_ord_insert: "length (fst (ord_insert cmp x s)) = (if snd (ord_insert cmp x s) then Suc (length s) else length s)"
  by (induction s) (auto split: ordering.splits prod.splits)

lemma ord_insert_unchanged: "snd (ord_insert cmp x s) \<longleftrightarrow> fst (ord_insert cmp x s) \<noteq> s"
  by (induction s) (auto split: ordering.splits prod.splits)

context comparison
begin

lemma cmp_Equal_sym: "cmp x y = Equal \<longleftrightarrow> cmp y x = Equal"
  using cmp_dual [of x y] by (cases "cmp y x") simp_all

lemma cmp_Greater_Less: "cmp x y = Greater \<longleftrightarrow> cmp y x = Less"
  using cmp_Less_iff_Greater by blast

lemma cmp_Less_Equal: "cmp x y = Less \<Longrightarrow> cmp y z = Equal \<Longrightarrow> cmp x z = Less"
  using cmp_Less_trans [of x y z] by simp

lemma ord_insert_present:
  "ord_sorted cmp s \<Longrightarrow> ord_insert cmp x s = (if ord_mem cmp x s then (s, False) else (fst (ord_insert cmp x s), True))"
proof (induction s)
  case (Cons y ys)
  show ?case
  proof (cases "cmp x y")
    case Less
    then have "cmp y x \<noteq> Equal" "cmp y x \<noteq> Less" using cmp_dual [of y x] by simp_all
    moreover have "\<not> ord_mem cmp x ys"
      using Cons.prems calculation cmp_Less_Equal unfolding ord_mem_def by fastforce
    ultimately show ?thesis using Less by simp
  next
    case Equal
    then show ?thesis using cmp_Equal_sym by simp
  next
    case Greater
    then have "cmp y x \<noteq> Equal" using cmp_Equal_sym [of y x] by simp
    then show ?thesis using Greater Cons by (auto split: prod.splits)
  qed
qed simp

lemma ord_mem_insert: "ord_mem cmp x (fst (ord_insert cmp x s))"
  by (induction s) (auto simp: cmp_refl cmp_Equal_sym split: ordering.splits prod.splits)

lemma ord_sorted_insert: "ord_sorted cmp s \<Longrightarrow> ord_sorted cmp (fst (ord_insert cmp x s))"
proof (induction s)
  case (Cons y ys)
  show ?case
  proof (cases "cmp x y")
    case Less
    then show ?thesis using Cons.prems cmp_Less_trans [of x y] by fastforce
  next
    case Greater
    then have "\<forall>z \<in> set (fst (ord_insert cmp x ys)). cmp y z = Less"
      using Cons.prems by (auto simp: set_ord_insert cmp_Greater_Less split: if_splits)
    then show ?thesis using Greater Cons by (auto split: prod.splits)
  qed (use Cons.prems in simp)
qed simp

lemma ord_mem_mono: "ord_mem cmp y s \<Longrightarrow> ord_mem cmp y (fst (ord_insert cmp x s))"
  by (auto simp: ord_mem_def set_ord_insert)

lemma ord_mem_iff_insert: "ord_mem cmp y (fst (ord_insert cmp x s)) \<longleftrightarrow> cmp x y = Equal \<or> ord_mem cmp y s"
proof
  assume "ord_mem cmp y (fst (ord_insert cmp x s))"
  then show "cmp x y = Equal \<or> ord_mem cmp y s" by (auto simp: ord_mem_def set_ord_insert split: if_splits)
next
  assume "cmp x y = Equal \<or> ord_mem cmp y s"
  then show "ord_mem cmp y (fst (ord_insert cmp x s))"
    using ord_mem_insert [of x s] ord_mem_mono cmp_Equal_cong [of _ x y] cmp_Equal_sym
    unfolding ord_mem_def by (metis)
qed

end

section \<open>Properties of the meet operators\<close>

lemma bs_contains_mem: "bs_contains E x s = ord_mem (dv_cmp E) x s"
  by (simp add: bs_contains_def ord_mem_def list_ex_iff)

lemma bs_extend_ord:
  "ext_ok E \<Longrightarrow> ord_sorted (dv_cmp E) s \<Longrightarrow> bs_extend E s xs = (t, b) \<Longrightarrow>
   ord_sorted (dv_cmp E) t \<and> (\<forall>y. ord_mem (dv_cmp E) y t \<longleftrightarrow> ord_mem (dv_cmp E) y s \<or> (\<exists>x \<in> set xs. dv_cmp E x y = Equal))
     \<and> length s \<le> length t \<and> (b \<longleftrightarrow> length s < length t) \<and> (\<not> b \<longrightarrow> t = s)"
proof (induction xs arbitrary: s t b)
  case (Cons x xs)
  let ?r = "ord_insert (dv_cmp E) x s"
  obtain c where c: "bs_extend E (fst ?r) xs = (t, c)" "b = (snd ?r \<or> c)"
    using Cons.prems(3) by (auto simp: btree_insert_ord split: prod.splits)
  note dv = dv_cmp_comparison [OF Cons.prems(1)]
  have "ord_sorted (dv_cmp E) (fst ?r)" using comparison.ord_sorted_insert [OF dv Cons.prems(2)] .
  note IH = Cons.IH [OF Cons.prems(1) this c(1)]
  moreover have "length (fst ?r) = (if snd ?r then Suc (length s) else length s)" by (rule length_ord_insert)
  moreover have "\<not> snd ?r \<Longrightarrow> fst ?r = s" using ord_insert_unchanged by metis
  ultimately show ?case using c(2) by (auto simp: comparison.ord_mem_iff_insert [OF dv])
qed simp

lemma bs_extend_again:
  assumes "ext_ok E" "ord_sorted (dv_cmp E) t" "\<forall>x \<in> set xs. ord_mem (dv_cmp E) x t"
  shows "bs_extend E t xs = (t, False)"
proof -
  have "ord_insert (dv_cmp E) x t = (t, False)" if "ord_mem (dv_cmp E) x t" for x
    using comparison.ord_insert_present [OF dv_cmp_comparison [OF assms(1)] assms(2)] that by metis
  then show ?thesis using assms(3) by (induction xs) (simp_all add: btree_insert_ord)
qed

lemma btree_collect_extend: "btree_collect E xs = fst (bs_extend E [] xs)"
proof -
  have "fold (\<lambda>x s. fst (btree_insert E x s)) xs s = fst (bs_extend E s xs)" for s
    by (induction xs arbitrary: s) (simp_all split: prod.splits)
  then show ?thesis by (simp add: btree_collect_def)
qed

lemma bs_intersection_idem:
  "bs_intersection E (bs_intersection E a b) b = bs_intersection E a b"
  by (simp add: bs_intersection_def)

lemma bs_intersection_self: "ext_ok E \<Longrightarrow> bs_intersection E a a = a"
  using comparison.cmp_refl [OF dv_cmp_comparison, of E]
  by (auto simp: bs_intersection_def bs_contains_def list_ex_iff intro!: filter_True)

lemma intersect_sets_changed:
  "intersect_sets E l s = (Set (bs_intersection E l s), bs_intersection E l s \<noteq> l)"
proof (cases "length l = length (bs_intersection E l s)")
  case True
  then have "bs_intersection E l s = l"
    unfolding bs_intersection_def by (metis filter_True length_filter_less less_irrefl)
  then show ?thesis by (simp add: intersect_sets_def Let_def)
qed (auto simp: intersect_sets_def Let_def)

lemma f64_lt_irrefl [simp]: "\<not> f64_lt a a"
  by (simp add: f64_lt_def)

lemma f64_le_refl: "\<not> f64_is_nan a \<Longrightarrow> f64_le a a"
  by (simp add: f64_le_def)

text \<open>The values an operator is meant for; a \<open>Null\<close> counts as no value at all for some.\<close>

fun meet_operand :: "ext \<Rightarrow> meet_op \<Rightarrow> data_value \<Rightarrow> bool" where
  "meet_operand E MeetAggrAnd v = (\<exists>b. v = Bool b)"
| "meet_operand E MeetAggrOr v = (\<exists>b. v = Bool b)"
| "meet_operand E MeetAggrUnion v = ((\<exists>l. v = List l) \<or> (\<exists>s. v = Set s \<and> ord_sorted (dv_cmp E) s))"
| "meet_operand E MeetAggrIntersection v = (v = Null \<or> (\<exists>l. v = List l) \<or> (\<exists>s. v = Set s))"
| "meet_operand E MeetAggrMin v = (v = Null \<or> (\<exists>n. v = Num n))"
| "meet_operand E MeetAggrMax v = (v = Null \<or> (\<exists>n. v = Num n))"
| "meet_operand E MeetAggrMinCost v = (\<exists>x n. v = List [x, Num n] \<and> \<not> f64_is_nan (num_get_float n))"
| "meet_operand E MeetAggrShortest v = (v = Null \<or> (\<exists>l. v = List l))"
| "meet_operand E MeetAggrChoice v = True"
| "meet_operand E MeetAggrBitAnd v = (\<exists>b. v = Bytes b)"
| "meet_operand E MeetAggrBitOr v = (\<exists>b. v = Bytes b)"

text \<open>\<open>union\<close> and \<open>intersection\<close> hold a list and the set of its elements to be the same value.\<close>

definition same_value :: "ext \<Rightarrow> meet_op \<Rightarrow> data_value \<Rightarrow> data_value \<Rightarrow> bool" where
  "same_value E op a b \<longleftrightarrow>
     (if op = MeetAggrUnion \<or> op = MeetAggrIntersection then list_to_set E a = list_to_set E b else a = b)"

definition settles :: "ext \<Rightarrow> meet_op \<Rightarrow> data_value \<Rightarrow> data_value \<Rightarrow> bool" where
  "settles E op l r \<longleftrightarrow>
     (\<forall>l' changed. meet_update E op l r = Inr (l', changed) \<longrightarrow>
        changed = (\<not> same_value E op l l') \<and>
        meet_operand E op l' \<and> (\<exists>l''. meet_update E op l' r = Inr (l'', False) \<and> same_value E op l' l''))"

lemma map2_absorb:
  assumes "\<And>x y. f (f x y) y = f x y"
  shows "length xs = length ys \<Longrightarrow> map2 f (map2 f xs ys) ys = map2 f xs ys"
  by (induction xs ys rule: list_induct2) (simp_all add: assms)

lemma bitwise_settles:
  assumes "\<And>x y. f (f x y) y = f x y" "bitwise_update f (Bytes a) (Bytes b) = Inr (l', changed)"
  shows "changed = (Bytes a \<noteq> l')" "bitwise_update f l' (Bytes b) = Inr (l', False)" "\<exists>c. l' = Bytes c"
proof -
  have list_ex_zip: "list_ex (\<lambda>(x, y). x \<noteq> y) (zip xs ys) \<longleftrightarrow> xs \<noteq> ys" if "length xs = length ys" for xs ys :: bytes
    using that by (induction xs ys rule: list_induct2) auto
  show "changed = (Bytes a \<noteq> l')" "bitwise_update f l' (Bytes b) = Inr (l', False)" "\<exists>c. l' = Bytes c"
    using assms by (auto simp: bitwise_update_def Let_def list_ex_zip map2_absorb split: if_splits)
qed

lemma extremum_settles:
  assumes "\<And>f. \<not> wins f f" "r = Null \<or> (\<exists>n. r = Num n)" "extremum_update wins l r = Inr (l', changed)"
  shows "changed = (l \<noteq> l')" "extremum_update wins l' r = Inr (l', False)"
  using assms by (auto simp: extremum_update_def bind_res_eq_Inr split: if_splits option.splits) blast+


lemma extremum_operand:
  "extremum_update wins l r = Inr (l', changed) \<Longrightarrow> l' = l \<or> l' = r"
  by (auto simp: extremum_update_def bind_res_eq_Inr split: if_splits)

lemma union_settles:
  assumes "ext_ok E" "meet_operand E MeetAggrUnion l" "meet_operand E MeetAggrUnion r"
  shows "settles E MeetAggrUnion l r"
proof -
  obtain s where s: "list_to_set E l = Set s" "ord_sorted (dv_cmp E) s"
  proof (cases "\<exists>xs. l = List xs")
    case True
    then obtain xs where "l = List xs" by blast
    then show thesis
      using that [of "btree_collect E xs"] bs_extend_ord [OF assms(1), of "[]" xs "fst (bs_extend E [] xs)" "snd (bs_extend E [] xs)"]
      by (simp add: btree_collect_extend)
  next
    case False
    then show thesis using that assms(2) by auto
  qed
  obtain xs where xs: "r = List xs \<or> r = Set xs" using assms(3) by auto
  obtain t b where t: "bs_extend E s xs = (t, b)" by (cases "bs_extend E s xs")
  note e = bs_extend_ord [OF assms(1) s(2) t]
  have "bs_extend E t xs = (t, False)"
    using e comparison.cmp_refl [OF dv_cmp_comparison [OF assms(1)]] by (intro bs_extend_again assms(1)) auto
  moreover have "union_update E l r = Inr (Set t, b)" "union_update E (Set t) r = Inr (Set (fst (bs_extend E t xs)), snd (bs_extend E t xs))"
    using xs t s(1) by (auto simp: union_update_def split: prod.splits)
  moreover have "b = (t \<noteq> s)" using e by auto
  ultimately show ?thesis using s(1) e by (auto simp: settles_def same_value_def)
qed

lemma intersection_settles:
  assumes "ext_ok E" "meet_operand E MeetAggrIntersection l" "meet_operand E MeetAggrIntersection r"
  shows "settles E MeetAggrIntersection l r"
proof (cases "l = Null \<or> r = Null")
  case True
  have "intersection_update E r r = Inr (list_to_set E r, False)" if "r \<noteq> Null"
    using assms(3) that by (auto simp: intersection_update_def intersect_sets_changed bs_intersection_self [OF assms(1)])
  moreover have "list_to_set E (list_to_set E r) = list_to_set E r" "list_to_set E r \<noteq> Null \<longleftrightarrow> r \<noteq> Null"
    by (cases r; simp)+
  ultimately show ?thesis using True assms(2,3)
    by (cases "r = Null") (auto simp: settles_def same_value_def intersection_update_def)
next
  case False
  obtain s where s: "list_to_set E l = Set s" using assms(2) False by auto
  obtain t where t: "\<And>l s. l \<noteq> Null \<Longrightarrow> list_to_set E l = Set s \<Longrightarrow>
      intersection_update E l r = Inr (Set (bs_intersection E s t), bs_intersection E s t \<noteq> s)"
  proof (cases "\<exists>xs. r = List xs")
    case True
    then obtain xs where "r = List xs" by blast
    then show thesis using that [of "btree_collect E xs"] by (simp add: intersection_update_def intersect_sets_changed)
  next
    case f: False
    then obtain xs where "r = Set xs" using assms(3) False by auto
    then show thesis using that [of xs] by (simp add: intersection_update_def intersect_sets_changed)
  qed
  show ?thesis
    using t [OF _ s] t [of "Set (bs_intersection E s t)"] False s
    by (auto simp: settles_def same_value_def bs_intersection_idem)
qed

lemma min_cost_settles:
  assumes "meet_operand E MeetAggrMinCost l" "meet_operand E MeetAggrMinCost r"
  shows "settles E MeetAggrMinCost l r"
proof -
  obtain x n y m where v: "l = List [x, Num n]" "r = List [y, Num m]" and n: "\<not> f64_is_nan (num_get_float m)"
    using assms by auto
  have "min_cost_update (List [y, Num m]) r = Inr (List [y, Num m], False)"
    using f64_le_refl [OF n] by (simp add: min_cost_update_def v(2))
  then show ?thesis using v n f64_le_refl [OF n] assms
    by (cases "f64_le (num_get_float n) (num_get_float m)") (auto simp: settles_def same_value_def min_cost_update_def)
qed

lemma shortest_settles:
  assumes "meet_operand E MeetAggrShortest l" "meet_operand E MeetAggrShortest r"
  shows "settles E MeetAggrShortest l r"
  using assms by (auto simp: settles_def same_value_def shortest_update_def split: if_splits)

lemma settlesI:
  assumes "op \<noteq> MeetAggrUnion" "op \<noteq> MeetAggrIntersection"
    "\<And>l' c. meet_update E op l r = Inr (l', c) \<Longrightarrow>
       c = (l \<noteq> l') \<and> meet_operand E op l' \<and> meet_update E op l' r = Inr (l', False)"
  shows "settles E op l r"
  using assms unfolding settles_def same_value_def by metis

lemma extremum_op_settles:
  assumes "meet_operand E op l" "meet_operand E op r" "op = MeetAggrMin \<or> op = MeetAggrMax"
  shows "settles E op l r"
proof (rule settlesI)
  fix l' c assume "meet_update E op l r = Inr (l', c)"
  moreover obtain wins where wins: "\<And>a b. meet_update E op a b = extremum_update wins a b" "\<And>f. \<not> wins f f"
    using assms(3) by (elim disjE) auto
  moreover have r: "r = Null \<or> (\<exists>n. r = Num n)" using assms(2,3) by (elim disjE) simp_all
  ultimately have u: "extremum_update wins l r = Inr (l', c)" by simp
  show "c = (l \<noteq> l') \<and> meet_operand E op l' \<and> meet_update E op l' r = Inr (l', False)"
    using extremum_settles [OF wins(2) r u] extremum_operand [OF u] assms(1,2) wins(1) by auto
qed (use assms(3) in auto)

lemma bitwise_op_settles:
  assumes "meet_operand E op l" "meet_operand E op r" "op = MeetAggrBitAnd \<or> op = MeetAggrBitOr"
  shows "settles E op l r"
proof (rule settlesI)
  fix l' c assume u: "meet_update E op l r = Inr (l', c)"
  obtain f where f: "\<And>a b. meet_update E op a b = bitwise_update f a b" "\<And>x y. f (f x y) y = f x y"
    using assms(3) by (elim disjE) (auto simp: and.assoc or.assoc)
  obtain a b where "l = Bytes a" "r = Bytes b" using assms by (elim disjE) auto
  then show "c = (l \<noteq> l') \<and> meet_operand E op l' \<and> meet_update E op l' r = Inr (l', False)"
    using bitwise_settles [of f a b l' c] u f assms(3) by auto
qed (use assms(3) in auto)

lemma choice_settles: "settles E MeetAggrChoice l r"
  by (rule settlesI) (auto split: if_splits)

lemma connective_settles:
  assumes "op = MeetAggrAnd \<or> op = MeetAggrOr"
  shows "settles E op l r"
  using assms by (elim disjE) (auto intro!: settlesI split: data_value.splits)

lemma meet_settles:
  assumes "ext_ok E" "meet_operand E op l" "meet_operand E op r"
  shows "settles E op l r"
  using assms
  by (cases op) (simp_all del: meet_operand.simps add: union_settles intersection_settles min_cost_settles
      shortest_settles extremum_op_settles bitwise_op_settles choice_settles connective_settles)

text \<open>C17. On the values it is meant for, a meet operator tells exactly whether it changed the value it
  updates, keeps that value one of them, and absorbs an operand it has seen: the same operand again
  changes nothing and says so.  A min-cost operand has a cost other than NaN.\<close>

theorem meet_update_settles:
  assumes "ext_ok E" "meet_operand E op l" "meet_operand E op r" "meet_update E op l r = Inr (l', changed)"
  shows "changed = (\<not> same_value E op l l') \<and> meet_operand E op l'
    \<and> (\<exists>l''. meet_update E op l' r = Inr (l'', False) \<and> same_value E op l' l'')"
  using meet_settles [OF assms(1-3)] assms(4) by (simp add: settles_def)

theorem meet_update_settles_witness:
  "\<exists>l'. meet_update sample_ext MeetAggrUnion (List [Null, Null]) (Set [Bool True]) = Inr (l', True)
    \<and> \<not> same_value sample_ext MeetAggrUnion (List [Null, Null]) l'
    \<and> (\<exists>l''. meet_update sample_ext MeetAggrUnion l' (Set [Bool True]) = Inr (l'', False))"
proof -
  have u: "meet_update sample_ext MeetAggrUnion (List [Null, Null]) (Set [Bool True]) = Inr (Set [Null, Bool True], True)"
    by (simp add: union_update_def btree_collect_def cmp_of_def)
  show ?thesis using meet_update_settles [OF sample_ext_ok _ _ u] u by auto
qed

text \<open>C34. A NaN cost is never absorbed: \<open>min_cost\<close> reports a change when an operand is met with itself, so a
  recursive rule that derives it finds a change in every epoch.\<close>

theorem min_cost_nan_never_settles:
  assumes "f64_is_nan (num_get_float n)"
  shows "meet_update E MeetAggrMinCost (List [x, Num n]) (List [x, Num n]) = Inr (List [x, Num n], True)"
  using assms by (simp add: min_cost_update_def f64_le_def)

theorem min_cost_nan_never_settles_witness:
  "meet_update sample_ext MeetAggrMinCost (List [Null, Num (NFloat (F64 0x7FF8000000000000))])
     (List [Null, Num (NFloat (F64 0x7FF8000000000000))])
   = Inr (List [Null, Num (NFloat (F64 0x7FF8000000000000))], True)"
  by (rule min_cost_nan_never_settles) (simp add: f64_is_nan_def f64_mag_def)

section \<open>Coalescing intervals\<close>

type_synonym span = "number \<times> number"

definition span_ok :: "span \<Rightarrow> bool" where
  "span_ok = (\<lambda>(s, e). exact_num s \<and> exact_num e \<and> num_key s \<le> num_key e)"

lemma span_cmp_key:
  "span_ok x \<Longrightarrow> span_ok y \<Longrightarrow> span_cmp x y =
     Inr (then_with (cmp_of (num_key (fst x)) (num_key (fst y))) (cmp_of (num_key (snd x)) (num_key (snd y))))"
  by (auto simp: span_ok_def interval_num_cmp_key split: prod.splits)

definition starts_ordered :: "span list \<Rightarrow> bool" where
  "starts_ordered = sorted_wrt (\<lambda>x y. num_key (fst x) \<le> num_key (fst y))"

lemma span_insert_sorts:
  "span_ok x \<Longrightarrow> list_all span_ok ys \<Longrightarrow> starts_ordered ys \<Longrightarrow>
   \<exists>zs. span_insert x ys = Inr zs \<and> set zs = insert x (set ys) \<and> starts_ordered zs"
proof (induction ys)
  case (Cons y ys)
  show ?case
  proof (cases "span_cmp x y = Inr Greater")
    case True
    then have le: "num_key (fst y) \<le> num_key (fst x)"
      using span_cmp_key [of x y] Cons.prems by (auto simp: cmp_of_def split: if_splits)
    obtain zs where "span_insert x ys = Inr zs" "set zs = insert x (set ys)" "starts_ordered zs"
      using Cons by (auto simp: starts_ordered_def)
    then show ?thesis using True le Cons.prems by (auto simp: starts_ordered_def)
  next
    case False
    then have le: "num_key (fst x) \<le> num_key (fst y)"
      using span_cmp_key [of x y] Cons.prems by (auto simp: cmp_of_def split: if_splits)
    have "span_insert x (y # ys) = Inr (x # y # ys)"
      using False span_cmp_key [of x y] Cons.prems by auto
    then show ?thesis using le Cons.prems by (auto simp: starts_ordered_def)
  qed
qed (simp add: starts_ordered_def)

lemma sort_spans_sorts:
  "list_all span_ok xs \<Longrightarrow> \<exists>ys. sort_spans xs = Inr ys \<and> set ys = set xs \<and> starts_ordered ys"
proof (induction xs)
  case (Cons x xs)
  then obtain ys where "sort_spans xs = Inr ys" "set ys = set xs" "starts_ordered ys" by auto
  then show ?case using Cons.prems span_insert_sorts [of x ys] by (auto simp: list_all_iff)
qed (simp add: starts_ordered_def)

definition separated :: "span list \<Rightarrow> bool" where
  "separated = sorted_wrt (\<lambda>x y. num_key (snd x) < num_key (fst y))"

definition covers :: "span list \<Rightarrow> int \<Rightarrow> bool" where
  "covers xs k \<longleftrightarrow> (\<exists>(s, e) \<in> set xs. num_key s \<le> k \<and> k < num_key e)"

lemma covers_simps [simp]:
  "covers [] k = False" "covers (x # xs) k \<longleftrightarrow> num_key (fst x) \<le> k \<and> k < num_key (snd x) \<or> covers xs k"
  "covers (xs @ ys) k \<longleftrightarrow> covers xs k \<or> covers ys k"
  by (auto simp: covers_def split: prod.splits)

lemma merge_spans_last:
  "\<lbrakk>list_all span_ok (m @ (cs, ce) # spans); starts_ordered ((cs, ce) # spans); separated (m @ [(cs, ce)])\<rbrakk> \<Longrightarrow>
   \<exists>out. merge_spans (m @ [(cs, ce)]) spans = Inr out \<and> separated out \<and> list_all span_ok out
     \<and> covers out = covers (m @ (cs, ce) # spans)
     \<and> fst ` set out \<subseteq> fst ` set (m @ (cs, ce) # spans) \<and> snd ` set out \<subseteq> snd ` set (m @ (cs, ce) # spans)"
proof (induction spans arbitrary: m cs ce)
  case (Cons x spans)
  obtain s e where x: "x = (s, e)" by (cases x)
  have ok: "exact_num s" "exact_num e" "exact_num ce" "num_key cs \<le> num_key ce" "num_key s \<le> num_key e" "num_key cs \<le> num_key s"
    using Cons.prems x by (auto simp: span_ok_def starts_ordered_def)
  note cmp = interval_num_cmp_key [OF ok(1,3)] interval_num_cmp_key [OF ok(2,3)]
  have rest: "starts_ordered ((cs, c) # spans)" for c using Cons.prems(2) by (auto simp: starts_ordered_def)
  have sep: "separated (m @ [(cs, c)])" for c using Cons.prems(3) by (auto simp: separated_def sorted_wrt_append)
  show ?case
  proof (cases "num_key ce < num_key s")
    case True
    have "separated ((m @ [(cs, ce)]) @ [(s, e)])"
      using Cons.prems(1,3) True ok by (fastforce simp: separated_def sorted_wrt_append span_ok_def list_all_iff)
    then show ?thesis
      using Cons.IH [of "m @ [(cs, ce)]" s e] Cons.prems True cmp x by (auto simp: starts_ordered_def)
  next
    case False
    let ?c = "if num_key ce < num_key e then e else ce"
    have "merge_spans (m @ [(cs, ce)]) (x # spans) = merge_spans (m @ [(cs, ?c)]) spans"
      using False cmp x by (simp add: cmp_of_def)
    moreover have "list_all span_ok (m @ (cs, ?c) # spans)" using Cons.prems(1) ok x by (auto simp: span_ok_def)
    moreover have "covers (m @ (cs, ?c) # spans) = covers (m @ (cs, ce) # x # spans)"
      using False ok x by (auto simp: fun_eq_iff)
    ultimately show ?thesis using Cons.IH [of m cs ?c, OF _ rest sep] x by (auto split: if_splits)
  qed
qed (simp add: starts_ordered_def)

text \<open>The loop over the values of a group, and its result.\<close>

fun normal_sets :: "ext \<Rightarrow> f64_ops \<Rightarrow> normal_op \<Rightarrow> data_value list \<Rightarrow> normal_op result" where
  "normal_sets E F op [] = Inr op"
| "normal_sets E F op (v # vs) = bind_res (normal_set E F op v) (\<lambda>op. normal_sets E F op vs)"

definition normal_aggr :: "ext \<Rightarrow> f64_ops \<Rightarrow> normal_op \<Rightarrow> data_value list \<Rightarrow> data_value result" where
  "normal_aggr E F op vs = bind_res (normal_sets E F op vs) (normal_get F)"

definition span_value :: "span \<Rightarrow> data_value" where
  "span_value = (\<lambda>(s, e). List [Num s, Num e])"

lemma coalesce_sets:
  "list_all span_ok spans \<Longrightarrow>
   normal_sets E F (AggrIntervalCoalesce accum) (map span_value spans) = Inr (AggrIntervalCoalesce (accum @ spans))"
proof (induction spans arbitrary: accum)
  case (Cons x spans)
  then show ?case by (cases x) (simp add: span_value_def span_ok_def to_interval_key)
qed simp

lemma span_ok_iff: "span_ok (s, e) \<longleftrightarrow> exact_num s \<and> exact_num e \<and> \<not> num_before e s"
  by (auto simp: span_ok_def num_before_key)

lemma covers_in_interval:
  "list_all span_ok xs \<Longrightarrow> exact_num x \<Longrightarrow> covers xs (num_key x) \<longleftrightarrow> (\<exists>i \<in> set xs. in_interval x i)"
  unfolding covers_def list_all_iff by (rule bex_cong) (auto simp: in_interval_def span_ok_def num_before_key)

lemma merge_spans_exact:
  assumes "list_all span_ok spans" "starts_ordered spans"
  shows "\<exists>out. merge_spans [] spans = Inr out \<and> separated out \<and> list_all span_ok out \<and> covers out = covers spans
     \<and> fst ` set out \<subseteq> fst ` set spans \<and> snd ` set out \<subseteq> snd ` set spans"
proof (cases spans)
  case (Cons x xs)
  moreover have "merge_spans [] (x # xs) = merge_spans [x] xs" by (cases x) simp
  ultimately show ?thesis using merge_spans_last [of "[]" "fst x" "snd x" xs] assms by (auto simp: separated_def)
qed (simp add: separated_def)

text \<open>C18. \<open>interval_coalesce\<close> returns the spans of a group as their maximal intervals: in ascending
  order, none touching the next, with the same points, and with starts and ends taken from the spans.  Bounds are
  numbers other than NaN, integers among them within the range that floats represent.\<close>

theorem interval_coalesce_exact:
  assumes "\<forall>(s, e) \<in> set spans. exact_num s \<and> exact_num e \<and> \<not> num_before e s"
  shows "\<exists>out. normal_aggr E F (AggrIntervalCoalesce []) (map span_value spans) = Inr (List (map span_value out))
    \<and> (\<forall>x. (\<exists>i \<in> set out. in_interval x i) \<longleftrightarrow> (\<exists>i \<in> set spans. in_interval x i))
    \<and> sorted_wrt (\<lambda>i j. num_before (snd i) (fst j)) out
    \<and> fst ` set out \<subseteq> fst ` set spans \<and> snd ` set out \<subseteq> snd ` set spans"
proof -
  have ok: "list_all span_ok spans" using assms by (auto simp: list_all_iff span_ok_iff)
  obtain ys where ys: "sort_spans spans = Inr ys" "set ys = set spans" "starts_ordered ys"
    using sort_spans_sorts [OF ok] by blast
  have oky: "list_all span_ok ys" using ok ys(2) by (simp add: list_all_iff)
  obtain out where out: "merge_spans [] ys = Inr out" "separated out" "list_all span_ok out" "covers out = covers ys"
    "fst ` set out \<subseteq> fst ` set ys" "snd ` set out \<subseteq> snd ` set ys"
    using merge_spans_exact [OF oky ys(3)] by blast
  have result: "normal_aggr E F (AggrIntervalCoalesce []) (map span_value spans) = Inr (List (map span_value out))"
    unfolding normal_aggr_def coalesce_sets [OF ok] using ys(1) out(1) by (simp add: coalesce_get_def span_value_def)
  have points: "(\<exists>i \<in> set out. in_interval x i) \<longleftrightarrow> (\<exists>i \<in> set spans. in_interval x i)" for x
    using covers_in_interval [OF out(3), of x] covers_in_interval [OF oky, of x] out(4) ys(2)
    by (cases "exact_num x") (auto simp: in_interval_def)
  have ex: "exact_num (fst i) \<and> exact_num (snd i)" if "i \<in> set out" for i
    using out(3) that by (cases i) (auto simp: list_all_iff span_ok_def)
  have "sorted_wrt (\<lambda>i j. num_before (snd i) (fst j)) out"
    using out(2) unfolding separated_def
    by (rule sorted_wrt_mono_rel [rotated]) (use ex in \<open>simp add: num_before_key\<close>)
  then show ?thesis using result points out(5,6) ys(2) by auto
qed

text \<open>An instance of the float operations, which neither aggregate below uses.\<close>

definition sample_f64_ops :: f64_ops where
  "sample_f64_ops = \<lparr> f_add = \<lambda>a b. a, f_sub = \<lambda>a b. a, f_mul = \<lambda>a b. a, f_div = \<lambda>a b. a, f_sqrt = \<lambda>a. a, f_rand = \<lambda>n. f64_zero \<rparr>"

theorem interval_coalesce_exact_witness:
  "\<exists>out. normal_aggr sample_ext sample_f64_ops (AggrIntervalCoalesce [])
      (map span_value [(NInt 5, NInt 9), (NInt 1, NInt 3), (NInt 3, NInt 4)]) = Inr (List (map span_value out))
    \<and> (\<forall>x. (\<exists>i \<in> set out. in_interval x i) \<longleftrightarrow>
         (\<exists>i \<in> {(NInt 5, NInt 9), (NInt 1, NInt 3), (NInt 3, NInt 4)}. in_interval x i))
    \<and> sorted_wrt (\<lambda>i j. num_before (snd i) (fst j)) out"
proof -
  have "\<forall>(s, e) \<in> set [(NInt 5, NInt 9), (NInt 1, NInt 3), (NInt 3, NInt 4)]. exact_num s \<and> exact_num e \<and> \<not> num_before e s"
    by (simp add: exact_int_def num_before_def cmp_of_def)
  from interval_coalesce_exact [OF this, of sample_ext sample_f64_ops] show ?thesis by auto
qed

section \<open>Exact sums of products\<close>

lemma checked_i64_Some: "checked_i64 n = Some w \<Longrightarrow> sint w = n"
  by (auto simp: checked_i64_def sint_sbintrunc' signed_take_bit_int_eq_self split: if_splits)

definition int_row :: "i64 list \<Rightarrow> data_value" where
  "int_row ns = List (map (\<lambda>n. Num (NInt n)) ns)"

definition row_product :: "i64 list \<Rightarrow> int" where
  "row_product ns = prod_list (map sint ns)"

lemma int_mult_ge1: "1 \<le> a \<Longrightarrow> 1 \<le> b \<Longrightarrow> 1 \<le> a * (b :: int)"
  using mult_mono [of 1 a 1 b] by simp

lemma row_product_pos: "\<forall>n \<in> set ns. 1 \<le> sint n \<Longrightarrow> 1 \<le> row_product ns"
  by (induction ns) (auto simp: row_product_def intro: int_mult_ge1)

lemma checked_product_exact:
  "case checked_product p (map (\<lambda>n. Num (NInt n)) ns) of
     Inr q \<Rightarrow> sint q = sint p * row_product ns
   | Inl err \<Rightarrow> err = OpFailed \<and> (1 \<le> sint p \<longrightarrow> (\<forall>n \<in> set ns. 1 \<le> sint n) \<longrightarrow> 2 ^ 63 \<le> sint p * row_product ns)"
proof (induction ns arbitrary: p)
  case (Cons n ns)
  show ?case
  proof (cases "checked_mul p n")
    case None
    have "2 ^ 63 \<le> sint p * (sint n * row_product ns)" if "1 \<le> sint p" "1 \<le> sint n" "\<forall>n \<in> set ns. 1 \<le> sint n"
    proof -
      have "1 \<le> row_product ns" using that(3) by (rule row_product_pos)
      moreover have "0 \<le> sint p * sint n" using that by simp
      moreover have "2 ^ 63 \<le> sint p * sint n"
        using None calculation(2) by (auto simp: checked_mul_def checked_i64_def split: if_splits)
      ultimately show ?thesis using mult_left_mono [of 1 "row_product ns" "sint p * sint n"] by (simp add: mult.assoc)
    qed
    then show ?thesis using None by (simp add: row_product_def)
  next
    case (Some q)
    then have q: "sint q = sint p * sint n"
      by (simp add: checked_mul_def checked_i64_Some)
    show ?thesis using Cons.IH [of q] Some q
      by (auto simp: row_product_def mult.assoc intro: int_mult_ge1 split: sum.splits)
  qed
qed (simp add: row_product_def)

lemma int_sum_prod_set_exact:
  "case int_sum_prod_set s (int_row ns) of
     Inr t \<Rightarrow> sint t = sint s + row_product ns
   | Inl err \<Rightarrow> err = OpFailed \<and> (0 \<le> sint s \<longrightarrow> (\<forall>n \<in> set ns. 1 \<le> sint n) \<longrightarrow> 2 ^ 63 \<le> sint s + row_product ns)"
proof (cases "checked_product 1 (map (\<lambda>n. Num (NInt n)) ns)")
  case (Inl err)
  then show ?thesis using checked_product_exact [of 1 ns] by (auto simp: int_sum_prod_set_def int_row_def)
next
  case (Inr p)
  then have p: "sint p = row_product ns" using checked_product_exact [of 1 ns] by simp
  have "2 ^ 63 \<le> sint s + sint p" if "checked_add s p = None" "0 \<le> sint s" "1 \<le> sint p"
    using that by (auto simp: checked_add_def checked_i64_def split: if_splits)
  moreover have "sint t = sint s + sint p" if "checked_add s p = Some t" for t
    using that by (simp add: checked_add_def checked_i64_Some)
  ultimately show ?thesis using Inr p row_product_pos [of ns]
    by (cases "checked_add s p") (auto simp: int_sum_prod_set_def int_row_def)
qed

lemma int_sum_prod_sets:
  "case normal_sets E F (AggrIntSumProd s) (map int_row rows) of
     Inr op \<Rightarrow> \<exists>t. op = AggrIntSumProd t \<and> sint t = sint s + sum_list (map row_product rows)
   | Inl err \<Rightarrow> err = OpFailed \<and> (0 \<le> sint s \<longrightarrow> (\<forall>ns \<in> set rows. \<forall>n \<in> set ns. 1 \<le> sint n) \<longrightarrow>
       2 ^ 63 \<le> sint s + sum_list (map row_product rows))"
proof (induction rows arbitrary: s)
  case (Cons ns rows)
  have nonneg: "0 \<le> sum_list (map row_product rows)" if "\<forall>ns \<in> set rows. \<forall>n \<in> set ns. 1 \<le> sint n"
    using that row_product_pos by (intro sum_list_nonneg) fastforce
  show ?case
  proof (cases "int_sum_prod_set s (int_row ns)")
    case (Inl err)
    then show ?thesis using int_sum_prod_set_exact [of s ns] nonneg by auto
  next
    case (Inr t)
    then have t: "sint t = sint s + row_product ns" using int_sum_prod_set_exact [of s ns] by simp
    show ?thesis using Cons.IH [of t] Inr t row_product_pos [of ns] by (auto split: sum.splits)
  qed
qed simp

text \<open>C19. The aggregate behind factorized counts never wraps: over positive factors it returns the sum of the
  products of the rows, as an exact integer, whenever that sum is an \<open>i64\<close>, and an error otherwise, so
  an overflow on the way means that the count itself is out of range.\<close>

theorem int_sum_prod_exact:
  assumes "\<forall>ns \<in> set rows. \<forall>n \<in> set ns. 1 \<le> sint n"
  shows "if sum_list (map row_product rows) < 2 ^ 63
    then \<exists>i. normal_aggr E F (AggrIntSumProd 0) (map int_row rows) = Inr (Num (NInt i))
       \<and> sint i = sum_list (map row_product rows)
    else normal_aggr E F (AggrIntSumProd 0) (map int_row rows) = Inl OpFailed"
proof -
  note r = int_sum_prod_sets [where E = E and F = F and s = 0 and rows = rows]
  show ?thesis
  proof (cases "normal_sets E F (AggrIntSumProd 0) (map int_row rows)")
    case (Inl err)
    then show ?thesis using r assms by (simp add: normal_aggr_def)
  next
    case (Inr op)
    then obtain t where "op = AggrIntSumProd t" "sint t = sum_list (map row_product rows)" using r by auto
    then show ?thesis using Inr sint_lt [of t] by (simp add: normal_aggr_def)
  qed
qed

theorem int_sum_prod_exact_witness:
  "(\<exists>i. normal_aggr sample_ext sample_f64_ops (AggrIntSumProd 0) [int_row [3, 4], int_row [7]] = Inr (Num (NInt i)) \<and> sint i = 19)
   \<and> normal_aggr sample_ext sample_f64_ops (AggrIntSumProd 0) [int_row [2 ^ 62, 4]] = Inl OpFailed"
  using int_sum_prod_exact [of "[[3, 4], [7]]" sample_ext sample_f64_ops] int_sum_prod_exact [of "[[2 ^ 62, 4]]" sample_ext sample_f64_ops]
  by (simp add: row_product_def)

section \<open>Candidates and dominance\<close>

lemma cmp_candidates_comparison: "ext_ok E \<Longrightarrow> comparison (cmp_candidates E)"
  unfolding cmp_candidates_def
  by (intro comparison_then total_float.comparison_axioms [THEN comparison_key] dv_cmp_comparison)

text \<open>The key of a component: dominance asks for the smaller one.\<close>

definition pareto_key :: "bool \<Rightarrow> data_value \<Rightarrow> int" where
  "pareto_key minimize x = (let k = ieee_key (the (get_float x)) in if minimize then k else - k)"

definition component_ok :: "data_value \<Rightarrow> bool" where
  "component_ok x = (case get_float x of Some f \<Rightarrow> \<not> f64_is_nan f | None \<Rightarrow> False)"

lemma pareto_loop_keys:
  "list_all (\<lambda>(x, y). component_ok x \<and> component_ok y) xys \<Longrightarrow>
   pareto_loop minimize strict xys \<longleftrightarrow>
     list_all (\<lambda>(x, y). pareto_key minimize x \<le> pareto_key minimize y) xys
     \<and> (strict \<or> list_ex (\<lambda>(x, y). pareto_key minimize x < pareto_key minimize y) xys)"
  by (induction minimize strict xys rule: pareto_loop.induct)
    (auto simp: component_ok_def pareto_key_def f64_le_def f64_lt_def Let_def split: option.splits)

lemma pareto_validate_iff:
  "pareto_validate v = Inr () \<longleftrightarrow> (\<exists>l. v = List l \<and> l \<noteq> [] \<and> list_all component_ok l)"
  by (cases v) (auto simp: pareto_validate_def component_ok_def [abs_def])

lemma pareto_dominates_iff:
  assumes "list_all component_ok la" "list_all component_ok lb" "la \<noteq> []"
  shows "pareto_dominates (List la) (List lb) minimize \<longleftrightarrow>
    list_all2 (\<lambda>x y. pareto_key minimize x \<le> pareto_key minimize y) la lb
    \<and> map (pareto_key minimize) la \<noteq> map (pareto_key minimize) lb"
proof (cases "length la = length lb")
  case True
  have "list_all (\<lambda>(x, y). component_ok x \<and> component_ok y) (zip la lb)"
    using assms(1,2) by (auto simp: list_all_iff dest: set_zip_leftD set_zip_rightD)
  moreover have "list_all (\<lambda>(x, y). pareto_key minimize x \<le> pareto_key minimize y) (zip la lb) \<Longrightarrow>
     list_ex (\<lambda>(x, y). pareto_key minimize x < pareto_key minimize y) (zip la lb)
     \<longleftrightarrow> map (pareto_key minimize) la \<noteq> map (pareto_key minimize) lb"
    using True by (induction la lb rule: list_induct2) auto
  ultimately show ?thesis using True assms(3)
    by (auto simp: pareto_dominates_def pareto_loop_keys list_all2_iff list_all_iff)
next
  case False
  then show ?thesis by (auto simp: pareto_dominates_def dest: list_all2_lengthD)
qed

lemma pareto_irreflexive: "pareto_validate a = Inr () \<Longrightarrow> \<not> pareto_dominates a a minimize"
  by (auto simp: pareto_validate_iff pareto_dominates_iff)

lemma pareto_transitive:
  assumes "pareto_validate a = Inr ()" "pareto_validate b = Inr ()" "pareto_validate c = Inr ()"
    "pareto_dominates a b minimize" "pareto_dominates b c minimize"
  shows "pareto_dominates a c minimize"
proof -
  obtain la lb lc where v: "a = List la" "b = List lb" "c = List lc"
    "la \<noteq> []" "lb \<noteq> []" "list_all component_ok la" "list_all component_ok lb" "list_all component_ok lc"
    using assms(1-3) by (auto simp: pareto_validate_iff)
  let ?k = "map (pareto_key minimize)"
  have ab: "list_all2 (\<le>) (?k la) (?k lb)" "?k la \<noteq> ?k lb" and bc: "list_all2 (\<le>) (?k lb) (?k lc)"
    using assms(4,5) v by (simp_all add: pareto_dominates_iff list_all2_map1 list_all2_map2)
  have ac: "list_all2 (\<le>) (?k la) (?k lc)" using list_all2_trans [OF _ ab(1) bc, of "(\<le>)"] by (meson order_trans)
  have "?k la \<noteq> ?k lc"
  proof
    assume "?k la = ?k lc"
    then have "?k la = ?k lb" using ab(1) bc list_all2_antisym [of "(\<le>)" "(\<le>)" "?k la" "?k lb"] by simp
    then show False using ab(2) by simp
  qed
  then show ?thesis using ac v by (simp add: pareto_dominates_iff list_all2_map1 list_all2_map2)
qed

text \<open>A \<open>Null\<close> cost stands for no cost yet in \<open>smallest_by\<close>, so that the answer depends on the order of
  the rows.\<close>

lemma smallest_by_order:
  "normal_aggr E F (AggrSmallestBy Null Null) [List [Str [97], Null], List [Str [98], Num (NInt 3)]] = Inr (Str [98])"
  "normal_aggr E F (AggrSmallestBy Null Null) [List [Str [98], Num (NInt 3)], List [Str [97], Null]] = Inr (Str [97])"
  by (simp_all add: normal_aggr_def cmp_of_def)

text \<open>Every name the parser knows has the operators its flags promise.\<close>

lemma parse_aggr_init:
  assumes "parse_aggr name = Some a"
  shows "is_meet a \<Longrightarrow> \<exists>obj. meet_init E None a [] = Inr obj" "\<not> is_bounded_meet a \<Longrightarrow> \<exists>op. normal_init None a [] = Inr op"
proof -
  note m = map_of_SomeD [OF assms [unfolded parse_aggr_def]]
  show "is_meet a \<Longrightarrow> \<exists>obj. meet_init E None a [] = Inr obj"
    using m by (auto simp: define_aggr_def meet_init_def)
  show "\<not> is_bounded_meet a \<Longrightarrow> \<exists>op. normal_init None a [] = Inr op"
    using m by (auto simp: define_aggr_def normal_init_def collect_init_def)
qed

end
