(* ===== verification/Stratify.thy ===== *)
theory Stratify
  imports Graphs Aggregates "HOL-Library.List_Lexorder"
begin

text \<open>Stratification of programs in normal form (\<open>query/stratify.rs\<close>): the dependency graph with its
  forbidden edges, the check for cycles through them, the components as a reduced graph, the strata and
  the lifetimes of intermediate relations.  What the stratification does not look at (the heads, arguments and
  bindings of rules) is the type parameter \<open>'p\<close>.\<close>

section \<open>Programs\<close>

definition PROG_ENTRY :: symbol where
  "PROG_ENTRY = [63]"

datatype 'p normal_form_atom =
    Rule symbol 'p
  | Relation 'p
  | NegatedRule symbol 'p
  | NegatedRelation 'p
  | Predicate 'p
  | Unification 'p
  | HnswSearch 'p
  | FtsSearch 'p
  | LshSearch 'p

record 'p normal_form_inline_rule =
  rule_head :: 'p
  rule_aggr :: "(aggregation \<times> 'p) option list"
  rule_body :: "'p normal_form_atom list"

datatype 'p fixed_rule_arg =
    InMem symbol 'p
  | Stored symbol 'p
  | NamedStored symbol 'p

datatype 'p normal_form_rules_or_fixed =
    Rules "'p normal_form_inline_rule list"
  | Fixed "'p fixed_rule_arg list" 'p

type_synonym 'p nf_prog = "(symbol \<times> 'p normal_form_rules_or_fixed) list"

record 'p normal_form_program =
  prog :: "'p nf_prog"
  disable_magic_rewrite :: bool

section \<open>The dependency graph\<close>

fun contained_rules :: "'p normal_form_atom \<Rightarrow> (symbol \<times> bool) list" where
  "contained_rules (Rule name _) = [(name, False)]"
| "contained_rules (NegatedRule name _) = [(name, True)]"
| "contained_rules _ = []"

definition has_aggr :: "'p normal_form_inline_rule list \<Rightarrow> bool" where
  "has_aggr ruleset = list_ex (\<lambda>rule. list_ex (\<lambda>a. a \<noteq> None) (rule_aggr rule)) ruleset"

definition is_meet_set :: "'p normal_form_inline_rule list \<Rightarrow> bool" where
  "is_meet_set ruleset \<longleftrightarrow> has_aggr ruleset
     \<and> list_all (\<lambda>rule. list_all (\<lambda>v. case v of None \<Rightarrow> True | Some (a, _) \<Rightarrow> is_meet a \<or> is_bounded_meet a) (rule_aggr rule)) ruleset"

definition meet_rules :: "'p nf_prog \<Rightarrow> symbol list" where
  "meet_rules p = List.map_filter (\<lambda>(k, r). case r of Rules rs \<Rightarrow> if is_meet_set rs then Some k else None | Fixed _ _ \<Rightarrow> None) p"

definition fixed_rules :: "'p nf_prog \<Rightarrow> symbol list" where
  "fixed_rules p = List.map_filter (\<lambda>(k, r). case r of Rules rs \<Rightarrow> None | Fixed _ _ \<Rightarrow> Some k) p"

definition add_dep ::
  "symbol list \<Rightarrow> symbol list \<Rightarrow> symbol \<Rightarrow> 'p normal_form_inline_rule list \<Rightarrow> symbol \<times> bool
   \<Rightarrow> (symbol \<times> bool) list \<Rightarrow> (symbol \<times> bool) list" where
  "add_dep meets fixeds k ruleset = (\<lambda>(found_key, is_negated) ret.
     let found_key_is_meet = (found_key \<in> set meets \<and> found_key \<noteq> k);
         found_key_is_fixed_rule = (found_key \<in> set fixeds)
     in case map_of ret found_key of
          None \<Rightarrow>
            lm_insert found_key
              (if has_aggr ruleset then
                 (if is_meet_set ruleset \<and> k = found_key then found_key_is_fixed_rule \<or> is_negated else True)
               else found_key_is_fixed_rule \<or> found_key_is_meet \<or> is_negated) ret
        | Some old \<Rightarrow>
            lm_insert found_key
              (old \<or> (if has_aggr ruleset then
                 (if is_meet_set ruleset \<and> k = found_key then found_key_is_fixed_rule \<or> found_key_is_meet \<or> is_negated else True)
               else found_key_is_fixed_rule \<or> found_key_is_meet \<or> is_negated)) ret)"

definition rule_deps ::
  "symbol list \<Rightarrow> symbol list \<Rightarrow> symbol \<Rightarrow> 'p normal_form_inline_rule list \<Rightarrow> (symbol \<times> bool) list" where
  "rule_deps meets fixeds k ruleset =
     fold (\<lambda>rule. fold (\<lambda>atom. fold (add_dep meets fixeds k ruleset) (contained_rules atom)) (rule_body rule)) ruleset []"

definition fixed_deps :: "'p fixed_rule_arg list \<Rightarrow> (symbol \<times> bool) list" where
  "fixed_deps args =
     fold (\<lambda>rel ret. case rel of InMem name _ \<Rightarrow> lm_insert name True ret | Stored _ _ \<Rightarrow> ret | NamedStored _ _ \<Rightarrow> ret) args []"

definition convert_normal_form_program_to_graph :: "'p nf_prog \<Rightarrow> symbol stratified_graph" where
  "convert_normal_form_program_to_graph p =
     map (\<lambda>(k, r). case r of
            Rules ruleset \<Rightarrow> (k, rule_deps (meet_rules p) (fixed_rules p) k ruleset)
          | Fixed args _ \<Rightarrow> (k, fixed_deps args)) p"

definition reduce_to_graph :: "symbol stratified_graph \<Rightarrow> symbol graph" where
  "reduce_to_graph g = map (\<lambda>(k, s). (k, map fst s)) g"

definition verify_no_cycle :: "symbol stratified_graph \<Rightarrow> symbol list list \<Rightarrow> unit result" where
  "verify_no_cycle g sccs =
     (if list_all (\<lambda>(k, vs). list_all (\<lambda>scc. k \<in> set scc \<longrightarrow> list_all (\<lambda>(v, negated). \<not> negated \<or> v \<notin> set scc) vs) sccs) g
      then Inr () else Inl UnStratifiableProgram)"

section \<open>The reduced graph\<close>

definition scc_indices :: "symbol list list \<Rightarrow> (symbol \<times> nat) list" where
  "scc_indices sccs =
     fold (\<lambda>(k, i). lm_insert k i) (concat (map (\<lambda>(i, scc). map (\<lambda>k. (k, i)) scc) (enumerate 0 sccs))) []"

definition add_reduced :: "(symbol \<times> nat) list \<Rightarrow> nat \<Rightarrow> symbol \<times> bool \<Rightarrow> (nat \<times> bool) list \<Rightarrow> (nat \<times> bool) list" where
  "add_reduced indices from_idx = (\<lambda>(to, poisoned) cur_entry.
     case map_of indices to of
       None \<Rightarrow> cur_entry
     | Some to_idx \<Rightarrow>
         if from_idx = to_idx then cur_entry
         else case map_of cur_entry to_idx of
                None \<Rightarrow> lm_insert to_idx poisoned cur_entry
              | Some old_p \<Rightarrow> lm_insert to_idx (old_p \<or> poisoned) cur_entry)"

fun reduced_edges :: "(symbol \<times> nat) list \<Rightarrow> symbol stratified_graph \<Rightarrow> nat stratified_graph \<Rightarrow> nat stratified_graph option" where
  "reduced_edges indices [] ret = Some ret"
| "reduced_edges indices ((from, tos) # g) ret =
     (case map_of indices from of
        None \<Rightarrow> None
      | Some from_idx \<Rightarrow>
          let cur_entry = (case map_of ret from_idx of None \<Rightarrow> [] | Some e \<Rightarrow> e)
          in reduced_edges indices g (lm_insert from_idx (fold (add_reduced indices from_idx) tos cur_entry) ret))"

definition make_scc_reduced_graph ::
  "symbol list list \<Rightarrow> symbol stratified_graph \<Rightarrow> ((symbol \<times> nat) list \<times> nat stratified_graph) option" where
  "make_scc_reduced_graph sccs g =
     (let indices = scc_indices sccs in map_option (\<lambda>ret. (indices, ret)) (reduced_edges indices g []))"

section \<open>The strata\<close>

definition invert_strata :: "nat list list \<Rightarrow> (nat \<times> nat) list" where
  "invert_strata sort_result =
     fold (\<lambda>(idx, stratum). lm_insert idx stratum)
       (concat (map (\<lambda>(stratum, indices). map (\<lambda>idx. (idx, stratum)) indices) (enumerate 0 sort_result))) []"

definition stratum_of :: "(symbol \<times> nat) list \<Rightarrow> (nat \<times> nat) list \<Rightarrow> symbol \<Rightarrow> nat option" where
  "stratum_of invert_indices invert_sort_result k =
     (case map_of invert_indices k of None \<Rightarrow> None | Some idx \<Rightarrow> map_of invert_sort_result idx)"

text \<open>Every key of the lifetimes is a plain (\<open>Muggle\<close>) symbol.\<close>

definition add_lifetime :: "nat \<Rightarrow> symbol \<times> bool \<Rightarrow> (symbol \<times> nat) list \<Rightarrow> (symbol \<times> nat) list" where
  "add_lifetime used_in = (\<lambda>(to, _) m.
     case map_of m to of
       None \<Rightarrow> lm_insert to used_in m
     | Some existing \<Rightarrow> if used_in > existing then lm_insert to used_in m else m)"

definition store_lifetimes :: "(symbol \<Rightarrow> nat option) \<Rightarrow> nat \<Rightarrow> symbol stratified_graph \<Rightarrow> (symbol \<times> nat) list" where
  "store_lifetimes stratum n_strata g =
     fold (\<lambda>(fr, tos) m. case stratum fr of
             None \<Rightarrow> m
           | Some fr_stratum \<Rightarrow> fold (add_lifetime (n_strata - 1 - fr_stratum)) tos m) g []"

fun place_rules ::
  "(symbol \<Rightarrow> nat option) \<Rightarrow> 'p nf_prog \<Rightarrow> 'p normal_form_program list \<Rightarrow> 'p normal_form_program list option" where
  "place_rules stratum [] ret = Some ret"
| "place_rules stratum ((name, ruleset) # p) ret =
     (case stratum name of
        None \<Rightarrow> place_rules stratum p ret
      | Some i \<Rightarrow>
          if i < length ret
          then place_rules stratum p (ret[i := (ret ! i)\<lparr>prog := lm_insert name ruleset (prog (ret ! i))\<rparr>])
          else None)"

text \<open>The outer option is the fuel of the graph algorithms; a failed \<open>unwrap\<close> is \<open>Panic\<close>.\<close>

definition into_stratified_program ::
  "'p normal_form_program \<Rightarrow> ('p normal_form_program list \<times> (symbol \<times> nat) list) result option" where
  "into_stratified_program self =
     (let stratified_graph = convert_normal_form_program_to_graph (prog self);
          graph = reduce_to_graph stratified_graph
      in case reachable_components graph PROG_ENTRY of
           None \<Rightarrow> None
         | Some reachable \<Rightarrow>
      let stratified_graph = filter (\<lambda>(k, _). k \<in> set reachable) stratified_graph;
          graph = filter (\<lambda>(k, _). k \<in> set reachable) graph
      in case strongly_connected_components graph of
           None \<Rightarrow> None
         | Some sccs \<Rightarrow>
      (case verify_no_cycle stratified_graph sccs of
         Inl e \<Rightarrow> Some (Inl e)
       | Inr _ \<Rightarrow>
      (case make_scc_reduced_graph sccs stratified_graph of
         None \<Rightarrow> Some (Inl Panic)
       | Some (invert_indices, reduced_graph) \<Rightarrow>
      (case generalized_kahn reduced_graph (length stratified_graph) of
         None \<Rightarrow> None
       | Some sort_result \<Rightarrow>
      let n_strata = length sort_result;
          stratum = stratum_of invert_indices (invert_strata sort_result);
          ret = replicate n_strata \<lparr>prog = [], disable_magic_rewrite = disable_magic_rewrite self\<rparr>
      in (case place_rules stratum (prog self) ret of
            None \<Rightarrow> Some (Inl Panic)
          | Some ret \<Rightarrow> Some (Inr (ret, store_lifetimes stratum n_strata stratified_graph)))))))"

section \<open>Ordered maps\<close>

lemma map_of_lm_insert [simp]: "map_of (lm_insert k v m) = (map_of m)(k \<mapsto> v)"
  by (induction k v m rule: lm_insert.induct) (auto simp: fun_eq_iff)

lemma lm_insert_keys [simp]: "fst ` set (lm_insert k v m) = insert k (fst ` set m)"
  by (induction k v m rule: lm_insert.induct) auto

lemma lm_inv_insert: "lm_inv m \<Longrightarrow> lm_inv (lm_insert k v m)"
proof (induction k v m rule: lm_insert.induct)
  case (2 k v k' v' m)
  show ?case
  proof (cases "k' < k")
    case True
    then have "\<forall>y \<in> fst ` set (lm_insert k v m). k' < y" using 2 by (auto simp: lm_inv_def)
    then show ?thesis using True 2 by (auto simp: lm_inv_def)
  qed (use 2 in \<open>auto simp: lm_inv_def not_less_iff_gr_or_eq dest: less_trans\<close>)
qed (simp add: lm_inv_def)

lemma lm_inv_Nil [simp]: "lm_inv []"
  by (simp add: lm_inv_def)

lemma lm_inv_distinct: "lm_inv m \<Longrightarrow> distinct (map fst m)"
  by (simp add: lm_inv_def strict_sorted_iff)

lemma lm_inv_mem: "lm_inv m \<Longrightarrow> (k, v) \<in> set m \<longleftrightarrow> map_of m k = Some v"
  using lm_inv_distinct by (metis map_of_eq_Some_iff)

lemma map_of_inserts: "map_of (fold (\<lambda>(k, v). lm_insert k v) xs m) = map_of m ++ map_of (rev xs)"
  by (induction xs arbitrary: m) (auto simp: map_add_def fun_eq_iff split: option.splits)

text \<open>Inserting a flag, or adding it to the one that is there.\<close>

definition or_insert :: "'k::linorder \<Rightarrow> bool \<Rightarrow> ('k \<times> bool) list \<Rightarrow> ('k \<times> bool) list" where
  "or_insert k b m = lm_insert k (case map_of m k of None \<Rightarrow> b | Some old \<Rightarrow> old \<or> b) m"

lemma or_inserts:
  "map_of (fold (\<lambda>(k, b). or_insert k b) xs m) j \<noteq> None \<longleftrightarrow> map_of m j \<noteq> None \<or> j \<in> fst ` set xs"
  "map_of (fold (\<lambda>(k, b). or_insert k b) xs m) j = Some True \<longleftrightarrow> map_of m j = Some True \<or> (j, True) \<in> set xs"
  "lm_inv m \<Longrightarrow> lm_inv (fold (\<lambda>(k, b). or_insert k b) xs m)"
  by (induction xs arbitrary: m) (auto simp: or_insert_def lm_inv_insert split: option.splits if_splits)

text \<open>The table of the positions of a list of lists.\<close>

lemma index_table:
  fixes xss :: "'k::linorder list list"
  assumes "distinct (concat xss)"
  shows "map_of (fold (\<lambda>(k, i). lm_insert k i) (concat (map (\<lambda>(i, xs). map (\<lambda>k. (k, i)) xs) (enumerate 0 xss))) []) k = Some i
    \<longleftrightarrow> i < length xss \<and> k \<in> set (xss ! i)"
proof -
  let ?l = "\<lambda>n xss. concat (map (\<lambda>(i, xs). map (\<lambda>k. (k, i)) xs) (enumerate n xss)) :: ('k \<times> nat) list"
  have fst: "map fst (?l n yss) = concat yss" for n yss
    by (induction yss arbitrary: n) (auto simp: o_def)
  have mem: "(k, i) \<in> set (?l n yss) \<longleftrightarrow> n \<le> i \<and> i < n + length yss \<and> k \<in> set (yss ! (i - n))" for n yss
    by (auto simp: in_set_enumerate_eq case_prod_unfold) (auto simp: image_iff Bex_def in_set_enumerate_eq)
  have "distinct (map fst (rev (?l 0 xss)))" using assms fst[of 0 xss] by (simp add: rev_map[symmetric])
  then have "map_of (rev (?l 0 xss)) k = Some i \<longleftrightarrow> (k, i) \<in> set (rev (?l 0 xss))" by (rule map_of_eq_Some_iff)
  then show ?thesis unfolding map_of_inserts using mem[of 0 xss] by simp
qed

section \<open>The dependency graph\<close>

definition occurrences :: "'p normal_form_inline_rule list \<Rightarrow> (symbol \<times> bool) list" where
  "occurrences rs = concat (map (\<lambda>r. concat (map contained_rules (rule_body r))) rs)"

text \<open>What a program says: rule \<open>k\<close> uses rule \<open>j\<close>; the use is forbidden inside a recursion if it is negated,
  if either is a fixed rule, if \<open>k\<close> aggregates (unless all its aggregations are meets and \<open>j\<close> is \<open>k\<close> itself), or if \<open>j\<close>
  is another rule with meet aggregations.\<close>

definition uses :: "'p nf_prog \<Rightarrow> (symbol \<times> symbol) set" where
  "uses p = {(k, j). (\<exists>rs. (k, Rules rs) \<in> set p \<and> j \<in> fst ` set (occurrences rs))
      \<or> (\<exists>args x b. (k, Fixed args x) \<in> set p \<and> InMem j b \<in> set args)}"

definition fixed_rule :: "'p nf_prog \<Rightarrow> symbol \<Rightarrow> bool" where
  "fixed_rule p j \<longleftrightarrow> (\<exists>args x. (j, Fixed args x) \<in> set p)"

definition meet_rule :: "'p nf_prog \<Rightarrow> symbol \<Rightarrow> bool" where
  "meet_rule p j \<longleftrightarrow> (\<exists>rs. (j, Rules rs) \<in> set p \<and> is_meet_set rs)"

definition forbidden :: "'p nf_prog \<Rightarrow> symbol \<Rightarrow> symbol \<Rightarrow> bool" where
  "forbidden p k j \<longleftrightarrow> (k, j) \<in> uses p \<and> (fixed_rule p k \<or> fixed_rule p j
     \<or> (\<exists>rs. (k, Rules rs) \<in> set p \<and> ((j, True) \<in> set (occurrences rs)
          \<or> (has_aggr rs \<and> \<not> (is_meet_set rs \<and> k = j)) \<or> (\<not> has_aggr rs \<and> meet_rule p j \<and> k \<noteq> j))))"

definition label :: "'k stratified_graph \<Rightarrow> 'k \<Rightarrow> 'k \<Rightarrow> bool option" where
  "label g k j = (case map_of g k of None \<Rightarrow> None | Some tos \<Rightarrow> map_of tos j)"

lemma set_fixed_rules: "j \<in> set (fixed_rules p) \<longleftrightarrow> fixed_rule p j"
  by (force simp: fixed_rules_def set_map_filter fixed_rule_def split: normal_form_rules_or_fixed.splits)

lemma set_meet_rules: "j \<in> set (meet_rules p) \<longleftrightarrow> meet_rule p j"
  by (force simp: meet_rules_def set_map_filter meet_rule_def split: normal_form_rules_or_fixed.splits if_splits)

definition dep_flag :: "'p nf_prog \<Rightarrow> symbol \<Rightarrow> 'p normal_form_inline_rule list \<Rightarrow> symbol \<Rightarrow> bool \<Rightarrow> bool" where
  "dep_flag p k rs j n \<longleftrightarrow> (if has_aggr rs then (if is_meet_set rs \<and> k = j then fixed_rule p j \<or> n else True)
     else fixed_rule p j \<or> (meet_rule p j \<and> j \<noteq> k) \<or> n)"

lemma add_dep_or_insert:
  "add_dep (meet_rules p) (fixed_rules p) k rs (j, n) = or_insert j (dep_flag p k rs j n)"
  by (auto simp: fun_eq_iff add_dep_def or_insert_def dep_flag_def set_fixed_rules set_meet_rules Let_def split: option.splits)

lemma fold_concat_map: "fold f (concat (map g xs)) = fold (\<lambda>x. fold f (g x)) xs"
  by (induction xs) auto

lemma rule_deps_fold:
  "rule_deps (meet_rules p) (fixed_rules p) k rs =
     fold (\<lambda>(j, b). or_insert j b) (map (\<lambda>(j, n). (j, dep_flag p k rs j n)) (occurrences rs)) []"
proof -
  let ?f = "add_dep (meet_rules p) (fixed_rules p) k rs"
  have "fold ?f xs = fold (\<lambda>(j, b). or_insert j b) (map (\<lambda>(j, n). (j, dep_flag p k rs j n)) xs)" for xs
    by (induction xs) (auto simp: add_dep_or_insert)
  moreover have "rule_deps (meet_rules p) (fixed_rules p) k rs = fold ?f (occurrences rs) []"
    unfolding rule_deps_def occurrences_def fold_concat_map ..
  ultimately show ?thesis by simp
qed

lemma fixed_deps_fold:
  "fixed_deps args = fold (\<lambda>(j, b). or_insert j b) (List.map_filter (\<lambda>a. case a of InMem j _ \<Rightarrow> Some (j, True) | _ \<Rightarrow> None) args) []"
proof -
  have "fold (\<lambda>rel ret. case rel of InMem name _ \<Rightarrow> lm_insert name True ret | Stored _ _ \<Rightarrow> ret | NamedStored _ _ \<Rightarrow> ret) args m
    = fold (\<lambda>(j, b). or_insert j b) (List.map_filter (\<lambda>a. case a of InMem j _ \<Rightarrow> Some (j, True) | _ \<Rightarrow> None) args) m" for m
    by (induction args arbitrary: m) (auto simp: map_filter_simps or_insert_def split: fixed_rule_arg.splits option.splits)
  then show ?thesis by (simp add: fixed_deps_def)
qed

lemma in_mem_args:
  "set (List.map_filter (\<lambda>a. case a of InMem j _ \<Rightarrow> Some (j, True) | _ \<Rightarrow> None) args) = {(j, True) | j. \<exists>b. InMem j b \<in> set args}"
  by (induction args) (auto simp: map_filter_simps split: fixed_rule_arg.splits option.splits)

lemma convert_deps:
  "convert_normal_form_program_to_graph p = map (\<lambda>(k, r). (k, case r of
     Rules rs \<Rightarrow> rule_deps (meet_rules p) (fixed_rules p) k rs | Fixed args _ \<Rightarrow> fixed_deps args)) p"
  by (auto simp: convert_normal_form_program_to_graph_def split: normal_form_rules_or_fixed.splits)

lemma map_of_map_key: "map_of (map (\<lambda>(k, r). (k, f k r)) p) k = map_option (f k) (map_of p k)"
  by (induction p) auto

lemma forbidden_flag:
  assumes r: "\<And>r. (k, r) \<in> set p \<longleftrightarrow> r = Rules rs"
  shows "forbidden p k j \<longleftrightarrow> (\<exists>n. (j, n) \<in> set (occurrences rs) \<and> dep_flag p k rs j n)"
proof -
  have "\<not> fixed_rule p k" "(k, j) \<in> uses p \<longleftrightarrow> (\<exists>n. (j, n) \<in> set (occurrences rs))"
    by (auto simp: fixed_rule_def uses_def r image_iff Bex_def)
  then have "forbidden p k j \<longleftrightarrow> (\<exists>n. (j, n) \<in> set (occurrences rs)) \<and> (fixed_rule p j \<or> (j, True) \<in> set (occurrences rs)
      \<or> (has_aggr rs \<and> \<not> (is_meet_set rs \<and> k = j)) \<or> (\<not> has_aggr rs \<and> meet_rule p j \<and> k \<noteq> j))"
    by (simp add: forbidden_def r)
  then show ?thesis
    by (cases "has_aggr rs"; cases "is_meet_set rs \<and> k = j") (auto simp: dep_flag_def)
qed

lemma graph_deps:
  assumes "distinct (map fst p)"
  shows "label (convert_normal_form_program_to_graph p) k j = (if (k, j) \<in> uses p then Some (forbidden p k j) else None)"
proof (cases "map_of p k")
  case None
  then have "(k, r) \<notin> set p" for r by (metis assms map_of_eq_Some_iff option.distinct(1))
  moreover have "map_of (convert_normal_form_program_to_graph p) k = None"
    unfolding convert_deps map_of_map_key None by simp
  ultimately show ?thesis by (auto simp: label_def uses_def)
next
  case (Some r)
  have r: "(k, r') \<in> set p \<longleftrightarrow> r' = r" for r' using Some assms by (metis map_of_eq_Some_iff option.inject)
  have g: "map_of (convert_normal_form_program_to_graph p) k =
      Some (case r of Rules rs \<Rightarrow> rule_deps (meet_rules p) (fixed_rules p) k rs | Fixed args _ \<Rightarrow> fixed_deps args)"
    unfolding convert_deps map_of_map_key Some by simp
  show ?thesis
  proof (cases r)
    case (Rules rs)
    let ?d = "rule_deps (meet_rules p) (fixed_rules p) k rs"
    have "map_of ?d j \<noteq> None \<longleftrightarrow> j \<in> fst ` set (occurrences rs)"
      unfolding rule_deps_fold or_inserts(1) by (force simp: image_iff)
    moreover have "map_of ?d j = Some True \<longleftrightarrow> (\<exists>n. (j, n) \<in> set (occurrences rs) \<and> dep_flag p k rs j n)"
      unfolding rule_deps_fold or_inserts(2) by (auto simp: image_iff Bex_def)
    moreover have "(k, j) \<in> uses p \<longleftrightarrow> j \<in> fst ` set (occurrences rs)" using r Rules by (auto simp: uses_def)
    moreover have "forbidden p k j \<longleftrightarrow> (\<exists>n. (j, n) \<in> set (occurrences rs) \<and> dep_flag p k rs j n)"
      by (rule forbidden_flag) (use r Rules in auto)
    ultimately show ?thesis using g Rules by (cases "map_of ?d j") (auto simp: label_def)
  next
    case (Fixed args x)
    have "map_of (fixed_deps args) j \<noteq> None \<longleftrightarrow> (\<exists>b. InMem j b \<in> set args)"
      unfolding fixed_deps_fold or_inserts(1) in_mem_args by (auto simp: image_iff)
    moreover have "map_of (fixed_deps args) j = Some True \<longleftrightarrow> (\<exists>b. InMem j b \<in> set args)"
      unfolding fixed_deps_fold or_inserts(2) in_mem_args by auto
    moreover have "(k, j) \<in> uses p \<longleftrightarrow> (\<exists>b. InMem j b \<in> set args)" using r Fixed by (auto simp: uses_def)
    moreover have "forbidden p k j \<longleftrightarrow> (k, j) \<in> uses p" using r Fixed by (auto simp: forbidden_def fixed_rule_def)
    ultimately show ?thesis using g Fixed by (cases "map_of (fixed_deps args) j") (auto simp: label_def)
  qed
qed

lemma graph_deps_inv: "(k, tos) \<in> set (convert_normal_form_program_to_graph p) \<Longrightarrow> lm_inv tos"
  by (auto simp: convert_normal_form_program_to_graph_def rule_deps_fold fixed_deps_fold or_inserts(3) split: normal_form_rules_or_fixed.splits)

lemma graph_deps_keys: "map fst (convert_normal_form_program_to_graph p) = map fst p"
  by (auto simp: convert_normal_form_program_to_graph_def split: normal_form_rules_or_fixed.splits)

section \<open>Components and the reduced graph\<close>

definition gwf :: "'k::linorder stratified_graph \<Rightarrow> bool" where
  "gwf g \<longleftrightarrow> lm_inv g \<and> (\<forall>(k, tos) \<in> set g. lm_inv tos)"

definition deps :: "'k stratified_graph \<Rightarrow> ('k \<times> 'k) set" where
  "deps g = {(k, j). label g k j \<noteq> None}"

lemma gwf_edge:
  "gwf g \<Longrightarrow> label g k j = Some b \<longleftrightarrow> (\<exists>tos. (k, tos) \<in> set g \<and> (j, b) \<in> set tos)"
proof -
  assume g: "gwf g"
  then have "label g k j = Some b \<longleftrightarrow> (\<exists>tos. (k, tos) \<in> set g \<and> map_of tos j = Some b)"
    by (auto simp: label_def gwf_def lm_inv_mem split: option.splits)
  then show ?thesis using g lm_inv_mem by (fastforce simp: gwf_def)
qed

lemma gwf_filter: "gwf g \<Longrightarrow> gwf (filter P g)"
  by (auto simp: gwf_def lm_inv_def sorted_wrt_map sorted_wrt_filter)

lemma label_filter: "label (filter (\<lambda>(k, _). P k) g) k j = (if P k then label g k j else None)"
proof -
  have "map_of (filter (\<lambda>(k, _). P k) g) k = (if P k then map_of g k else None)" by (induction g) auto
  then show ?thesis by (simp add: label_def)
qed

lemma succs_reduce: "succs (reduce_to_graph g) = deps g"
proof -
  have "map_of (reduce_to_graph g) k = map_option (map fst) (map_of g k)" for k
    unfolding reduce_to_graph_def by (rule map_of_map_key)
  moreover have "j \<in> set (map fst tos) \<longleftrightarrow> map_of tos j \<noteq> None" for j and tos :: "(symbol \<times> bool) list"
    by (metis map_of_eq_None_iff set_map)
  ultimately show ?thesis unfolding succs_def deps_def label_def by (auto split: option.splits)
qed

lemma reduce_filter: "filter (\<lambda>(k, _). P k) (reduce_to_graph g) = reduce_to_graph (filter (\<lambda>(k, _). P k) g)"
  by (induction g) (auto simp: reduce_to_graph_def)

lemma reduce_keys: "map fst (reduce_to_graph g) = map fst g"
  by (auto simp: reduce_to_graph_def)

lemma verify_no_cycle_iff:
  assumes "gwf g"
  shows "verify_no_cycle g sccs =
    (if \<exists>k j. label g k j = Some True \<and> (\<exists>c \<in> set sccs. k \<in> set c \<and> j \<in> set c) then Inl UnStratifiableProgram else Inr ())"
proof -
  have "list_all (\<lambda>(k, vs). list_all (\<lambda>scc. k \<in> set scc \<longrightarrow> list_all (\<lambda>(v, negated). \<not> negated \<or> v \<notin> set scc) vs) sccs) g
    \<longleftrightarrow> (\<forall>k vs c v. (k, vs) \<in> set g \<longrightarrow> c \<in> set sccs \<longrightarrow> k \<in> set c \<longrightarrow> (v, True) \<in> set vs \<longrightarrow> v \<notin> set c)"
    by (simp add: list_all_iff Ball_def all_bool_eq)
  then show ?thesis unfolding verify_no_cycle_def gwf_edge[OF assms] by auto
qed

lemma scc_index:
  assumes "distinct (concat sccs)"
  shows "map_of (scc_indices sccs) k = Some i \<longleftrightarrow> i < length sccs \<and> k \<in> set (sccs ! i)"
  unfolding scc_indices_def by (rule index_table[OF assms])

definition reduced_targets :: "(symbol \<times> nat) list \<Rightarrow> nat \<Rightarrow> (symbol \<times> bool) list \<Rightarrow> (nat \<times> bool) list" where
  "reduced_targets indices a = List.map_filter (\<lambda>(j, p). case map_of indices j of None \<Rightarrow> None | Some b \<Rightarrow> if a = b then None else Some (b, p))"

lemma set_reduced_targets:
  "(b, p) \<in> set (reduced_targets indices a tos) \<longleftrightarrow> a \<noteq> b \<and> (\<exists>j. (j, p) \<in> set tos \<and> map_of indices j = Some b)"
  by (induction tos) (auto simp: reduced_targets_def map_filter_simps split: option.splits if_splits)

lemma add_reduced_fold:
  "fold (add_reduced indices a) tos m = fold (\<lambda>(b, p). or_insert b p) (reduced_targets indices a tos) m"
  unfolding reduced_targets_def
  by (induction tos arbitrary: m) (auto simp: map_filter_simps add_reduced_def or_insert_def split: option.splits)

lemma label_insert: "label (lm_insert a tos g) a' b = (if a' = a then map_of tos b else label g a' b)"
  by (simp add: label_def)

text \<open>One edge of the reduced graph for all the edges between two components.\<close>

definition joined :: "(symbol \<times> nat) list \<Rightarrow> symbol stratified_graph \<Rightarrow> bool set \<Rightarrow> nat \<Rightarrow> nat \<Rightarrow> bool" where
  "joined indices g B a b \<longleftrightarrow> a \<noteq> b \<and> (\<exists>k tos j p. (k, tos) \<in> set g \<and> (j, p) \<in> set tos \<and> p \<in> B
     \<and> map_of indices k = Some a \<and> map_of indices j = Some b)"

lemma joined_Cons: "joined indices (e # g) B a b \<longleftrightarrow> joined indices [e] B a b \<or> joined indices g B a b"
  unfolding joined_def by (auto; blast)

lemma joined_targets:
  "map_of indices k = Some a \<Longrightarrow> joined indices [(k, tos)] B a' b \<longleftrightarrow> a' = a \<and> (\<exists>p \<in> B. (b, p) \<in> set (reduced_targets indices a tos))"
  unfolding joined_def set_reduced_targets by auto

lemma reduced_edges_spec:
  assumes "\<forall>(k, tos) \<in> set g. map_of indices k \<noteq> None" "gwf ret"
  shows "\<exists>ret'. reduced_edges indices g ret = Some ret' \<and> gwf ret'
    \<and> (\<forall>a b. label ret' a b \<noteq> None \<longleftrightarrow> label ret a b \<noteq> None \<or> joined indices g UNIV a b)
    \<and> (\<forall>a b. label ret' a b = Some True \<longleftrightarrow> label ret a b = Some True \<or> joined indices g {True} a b)
    \<and> fst ` set ret' \<subseteq> fst ` set ret \<union> {a. \<exists>k. map_of indices k = Some a}"
  using assms
proof (induction g arbitrary: ret)
  case (Cons e g)
  obtain k tos where e: "e = (k, tos)" by force
  obtain a where a: "map_of indices k = Some a" using Cons.prems(1) e by auto
  define cur where "cur = (case map_of ret a of None \<Rightarrow> [] | Some m \<Rightarrow> m)"
  define new where "new = fold (\<lambda>(b, p). or_insert b p) (reduced_targets indices a tos) cur"
  have cur: "lm_inv cur" "\<And>b. map_of cur b = label ret a b"
    using Cons.prems(2) by (auto simp: cur_def gwf_def label_def lm_inv_mem split: option.splits)
  have new: "lm_inv new"
      "\<And>b. map_of new b \<noteq> None \<longleftrightarrow> label ret a b \<noteq> None \<or> (\<exists>p. (b, p) \<in> set (reduced_targets indices a tos))"
      "\<And>b. map_of new b = Some True \<longleftrightarrow> label ret a b = Some True \<or> (b, True) \<in> set (reduced_targets indices a tos)"
    unfolding new_def or_inserts(1,2) cur(2) using or_inserts(3)[OF cur(1)] by (auto simp: image_iff Bex_def)
  let ?r = "lm_insert a new ret"
  have wf: "gwf ?r"
    using Cons.prems(2) new(1) lm_inv_insert[of ret a new] by (auto simp: gwf_def lm_inv_mem split: if_splits)
  have step: "reduced_edges indices (e # g) ret = reduced_edges indices g ?r"
    by (simp add: e a new_def cur_def add_reduced_fold)
  have l1: "label ?r a' b \<noteq> None \<longleftrightarrow> label ret a' b \<noteq> None \<or> joined indices [e] UNIV a' b" for a' b
    unfolding label_insert e joined_targets[OF a] using new(2)[of b] by auto
  have l2: "label ?r a' b = Some True \<longleftrightarrow> label ret a' b = Some True \<or> joined indices [e] {True} a' b" for a' b
    unfolding label_insert e joined_targets[OF a] using new(3)[of b] by auto
  have "\<forall>(k, tos) \<in> set g. map_of indices k \<noteq> None" using Cons.prems(1) by simp
  from Cons.IH[OF this wf] obtain r' where r': "reduced_edges indices g ?r = Some r'" "gwf r'"
      "\<forall>a b. label r' a b \<noteq> None \<longleftrightarrow> label ?r a b \<noteq> None \<or> joined indices g UNIV a b"
      "\<forall>a b. label r' a b = Some True \<longleftrightarrow> label ?r a b = Some True \<or> joined indices g {True} a b"
      "fst ` set r' \<subseteq> fst ` set ?r \<union> {a. \<exists>k. map_of indices k = Some a}"
    by blast
  have "fst ` set r' \<subseteq> fst ` set ret \<union> {a. \<exists>k. map_of indices k = Some a}" using r'(5) a by auto
  then show ?case
    unfolding step joined_Cons[of _ e g] using r'(1,2) r'(3,4)[unfolded l1 l2] by (intro exI[of _ r']) simp
qed (simp add: joined_def)

section \<open>Reachable rules and their components\<close>

definition reachable_rules :: "'p nf_prog \<Rightarrow> symbol set" where
  "reachable_rules p = (uses p)\<^sup>* `` {PROG_ENTRY}"

abbreviation live_rules :: "'p nf_prog \<Rightarrow> symbol set" where
  "live_rules p \<equiv> fst ` set p \<inter> reachable_rules p"

definition pruned :: "'p nf_prog \<Rightarrow> symbol stratified_graph" where
  "pruned p = filter (\<lambda>(k, _). k \<in> reachable_rules p) (convert_normal_form_program_to_graph p)"

lemma uses_key: "(k, j) \<in> uses p \<Longrightarrow> k \<in> fst ` set p"
  by (force simp: uses_def)

lemma reachable_closed: "k \<in> reachable_rules p \<Longrightarrow> (k, j) \<in> (uses p)\<^sup>* \<Longrightarrow> j \<in> reachable_rules p"
  by (auto simp: reachable_rules_def intro: rtrancl_trans)

lemma filter_keys: "fst ` set (filter (\<lambda>(k, _). P k) g) = fst ` set g \<inter> {k. P k}"
  by (induction g) auto

lemma pruned_facts:
  assumes "lm_inv p"
  shows "gwf (pruned p)" "fst ` set (pruned p) = live_rules p" "length (pruned p) = card (live_rules p)"
    and "label (pruned p) k j = (if k \<in> reachable_rules p \<and> (k, j) \<in> uses p then Some (forbidden p k j) else None)"
proof -
  have g: "gwf (convert_normal_form_program_to_graph p)"
    using assms graph_deps_inv[of _ _ p] by (auto simp: gwf_def lm_inv_def graph_deps_keys)
  then show wf: "gwf (pruned p)" unfolding pruned_def by (rule gwf_filter)
  have "fst ` set (convert_normal_form_program_to_graph p) = fst ` set p" by (metis graph_deps_keys set_map)
  then show keys: "fst ` set (pruned p) = live_rules p" unfolding pruned_def filter_keys by simp
  have "distinct (map fst (pruned p))" using wf by (simp add: gwf_def lm_inv_distinct)
  then show "length (pruned p) = card (live_rules p)" using keys by (metis distinct_card length_map set_map)
  show "label (pruned p) k j = (if k \<in> reachable_rules p \<and> (k, j) \<in> uses p then Some (forbidden p k j) else None)"
    unfolding pruned_def label_filter graph_deps[OF lm_inv_distinct[OF assms]] by simp
qed

lemma pruned_reach:
  assumes "lm_inv p" "u \<in> reachable_rules p"
  shows "(u, v) \<in> (deps (pruned p))\<^sup>* \<longleftrightarrow> (u, v) \<in> (uses p)\<^sup>*"
proof
  have sub: "deps (pruned p) \<subseteq> uses p" by (auto simp: deps_def pruned_facts(4)[OF assms(1)] split: if_splits)
  assume "(u, v) \<in> (deps (pruned p))\<^sup>*"
  then show "(u, v) \<in> (uses p)\<^sup>*" using rtrancl_mono[OF sub] by blast
next
  assume "(u, v) \<in> (uses p)\<^sup>*"
  then show "(u, v) \<in> (deps (pruned p))\<^sup>*"
  proof induction
    case (step y z)
    have "y \<in> reachable_rules p" using reachable_closed[OF assms(2) step(1)] .
    then have "(y, z) \<in> deps (pruned p)" using step(2) by (simp add: deps_def pruned_facts(4)[OF assms(1)])
    then show ?case using step(3) by simp
  qed simp
qed

text \<open>The components, as the reduced graph and the check for cycles see them.\<close>

definition components :: "'p nf_prog \<Rightarrow> symbol list list \<Rightarrow> bool" where
  "components p sccs \<longleftrightarrow> distinct (concat sccs) \<and> set (concat sccs) = live_rules p \<and> length sccs \<le> card (live_rules p)
     \<and> (\<forall>u \<in> live_rules p. \<forall>v \<in> live_rules p. (\<exists>c \<in> set sccs. u \<in> set c \<and> v \<in> set c) \<longleftrightarrow> (u, v) \<in> (uses p)\<^sup>* \<and> (v, u) \<in> (uses p)\<^sup>*)"

lemma length_concat_nonempty: "[] \<notin> set xss \<Longrightarrow> length xss \<le> length (concat xss)"
proof (induction xss)
  case (Cons xs xss)
  then show ?case by (cases xs) auto
qed simp

lemma in_concat_nth: "x \<in> set (concat xss) \<longleftrightarrow> (\<exists>i < length xss. x \<in> set (xss ! i))"
  unfolding set_concat by (auto simp: set_conv_nth[of xss])

lemma components_found:
  assumes "lm_inv p"
  shows "\<exists>sccs. strongly_connected_components (reduce_to_graph (pruned p)) = Some sccs \<and> components p sccs"
proof -
  let ?g = "reduce_to_graph (pruned p)"
  have keys: "fst ` set ?g = live_rules p" "distinct (map fst ?g)"
    using pruned_facts(1,2)[OF assms] lm_inv_distinct unfolding gwf_def set_map[symmetric] reduce_keys by blast+
  obtain sccs where s: "strongly_connected_components ?g = Some sccs" "distinct (concat sccs)" "set (concat sccs) = live_rules p" "[] \<notin> set sccs"
      "\<forall>u \<in> live_rules p. \<forall>v \<in> live_rules p. (\<exists>c \<in> set sccs. u \<in> set c \<and> v \<in> set c)
         \<longleftrightarrow> (u, v) \<in> (deps (pruned p))\<^sup>* \<and> (v, u) \<in> (deps (pruned p))\<^sup>*"
    using scc_partition[OF keys(2)] unfolding keys(1) succs_reduce by blast
  have "length sccs \<le> card (live_rules p)"
    using length_concat_nonempty[OF s(4)] s(2,3) by (metis distinct_card)
  then show ?thesis
    using s pruned_reach[OF assms] unfolding components_def by (intro exI[of _ sccs]) simp
qed

lemma component_index:
  assumes "components p sccs"
  shows "map_of (scc_indices sccs) k = Some a \<longleftrightarrow> a < length sccs \<and> k \<in> set (sccs ! a)"
    and "k \<in> live_rules p \<longleftrightarrow> (\<exists>a. map_of (scc_indices sccs) k = Some a)"
    and "map_of (scc_indices sccs) k = Some a \<Longrightarrow> map_of (scc_indices sccs) j = Some b \<Longrightarrow>
      a = b \<longleftrightarrow> (k, j) \<in> (uses p)\<^sup>* \<and> (j, k) \<in> (uses p)\<^sup>*"
proof -
  have d: "distinct (concat sccs)" "set (concat sccs) = live_rules p"
    and m: "\<And>u v. u \<in> live_rules p \<Longrightarrow> v \<in> live_rules p \<Longrightarrow> (\<exists>c \<in> set sccs. u \<in> set c \<and> v \<in> set c) \<longleftrightarrow> (u, v) \<in> (uses p)\<^sup>* \<and> (v, u) \<in> (uses p)\<^sup>*"
    using assms unfolding components_def by blast+
  show i: "map_of (scc_indices sccs) k = Some a \<longleftrightarrow> a < length sccs \<and> k \<in> set (sccs ! a)" for k a
    by (rule scc_index[OF d(1)])
  show l: "k \<in> live_rules p \<longleftrightarrow> (\<exists>a. map_of (scc_indices sccs) k = Some a)" for k
    unfolding i d(2)[symmetric] in_concat_nth by blast
  assume k: "map_of (scc_indices sccs) k = Some a" and j: "map_of (scc_indices sccs) j = Some b"
  have "a = b \<longleftrightarrow> (\<exists>c \<in> set sccs. k \<in> set c \<and> j \<in> set c)"
  proof
    assume "a = b"
    then show "\<exists>c \<in> set sccs. k \<in> set c \<and> j \<in> set c" using k j unfolding i by auto
  next
    assume "\<exists>c \<in> set sccs. k \<in> set c \<and> j \<in> set c"
    then obtain c where "c < length sccs" "k \<in> set (sccs ! c)" "j \<in> set (sccs ! c)" by (auto simp: set_conv_nth[of sccs])
    then have "map_of (scc_indices sccs) k = Some c" "map_of (scc_indices sccs) j = Some c" unfolding i by simp_all
    then show "a = b" using k j by simp
  qed
  then show "a = b \<longleftrightarrow> (k, j) \<in> (uses p)\<^sup>* \<and> (j, k) \<in> (uses p)\<^sup>*" using m l k j by metis
qed

section \<open>The reduced graph is acyclic\<close>

definition reduced :: "'p nf_prog \<Rightarrow> symbol list list \<Rightarrow> nat stratified_graph \<Rightarrow> bool" where
  "reduced p sccs r \<longleftrightarrow> gwf r \<and> fst ` set r \<subseteq> {..<length sccs}
     \<and> (\<forall>a b. label r a b \<noteq> None \<longleftrightarrow> a \<noteq> b \<and> (\<exists>k j. k \<in> reachable_rules p \<and> (k, j) \<in> uses p
          \<and> map_of (scc_indices sccs) k = Some a \<and> map_of (scc_indices sccs) j = Some b))
     \<and> (\<forall>a b. label r a b = Some True \<longleftrightarrow> a \<noteq> b \<and> (\<exists>k j. k \<in> reachable_rules p \<and> forbidden p k j
          \<and> map_of (scc_indices sccs) k = Some a \<and> map_of (scc_indices sccs) j = Some b))"

lemma reducedD:
  assumes "reduced p sccs r"
  shows "gwf r" "fst ` set r \<subseteq> {..<length sccs}"
    and "label r a b \<noteq> None \<longleftrightarrow> a \<noteq> b \<and> (\<exists>k j. k \<in> reachable_rules p \<and> (k, j) \<in> uses p
          \<and> map_of (scc_indices sccs) k = Some a \<and> map_of (scc_indices sccs) j = Some b)"
    and "label r a b = Some True \<longleftrightarrow> a \<noteq> b \<and> (\<exists>k j. k \<in> reachable_rules p \<and> forbidden p k j
          \<and> map_of (scc_indices sccs) k = Some a \<and> map_of (scc_indices sccs) j = Some b)"
proof -
  note R = assms[unfolded reduced_def]
  show "gwf r" "fst ` set r \<subseteq> {..<length sccs}" using R by argo+
  show "label r a b \<noteq> None \<longleftrightarrow> a \<noteq> b \<and> (\<exists>k j. k \<in> reachable_rules p \<and> (k, j) \<in> uses p
          \<and> map_of (scc_indices sccs) k = Some a \<and> map_of (scc_indices sccs) j = Some b)"
    by (rule R[THEN conjunct2, THEN conjunct2, THEN conjunct1, THEN spec, THEN spec])
  show "label r a b = Some True \<longleftrightarrow> a \<noteq> b \<and> (\<exists>k j. k \<in> reachable_rules p \<and> forbidden p k j
          \<and> map_of (scc_indices sccs) k = Some a \<and> map_of (scc_indices sccs) j = Some b)"
    by (rule R[THEN conjunct2, THEN conjunct2, THEN conjunct2, THEN spec, THEN spec])
qed

lemma forbidden_uses: "forbidden p k j \<Longrightarrow> (k, j) \<in> uses p"
  by (simp add: forbidden_def)

lemma reduced_found:
  assumes p: "lm_inv p" and s: "components p sccs"
  shows "\<exists>r. make_scc_reduced_graph sccs (pruned p) = Some (scc_indices sccs, r) \<and> reduced p sccs r"
proof -
  let ?ix = "scc_indices sccs"
  have "map_of ?ix k \<noteq> None" if "(k, tos) \<in> set (pruned p)" for k tos
  proof -
    have "k \<in> fst ` set (pruned p)" using that by force
    then show ?thesis using component_index(2)[OF s] unfolding pruned_facts(2)[OF p] by blast
  qed
  then have "\<forall>(k, tos) \<in> set (pruned p). map_of ?ix k \<noteq> None" by blast
  from reduced_edges_spec[OF this, of "[]"] obtain r where r: "reduced_edges ?ix (pruned p) [] = Some r" "gwf r"
      "\<forall>a b. label r a b \<noteq> None \<longleftrightarrow> joined ?ix (pruned p) UNIV a b"
      "\<forall>a b. label r a b = Some True \<longleftrightarrow> joined ?ix (pruned p) {True} a b"
      "fst ` set r \<subseteq> {a. \<exists>k. map_of ?ix k = Some a}"
    by (auto simp: gwf_def label_def)
  have edge: "(\<exists>tos. (k, tos) \<in> set (pruned p) \<and> (j, b) \<in> set tos) \<longleftrightarrow> k \<in> reachable_rules p \<and> (k, j) \<in> uses p \<and> b = forbidden p k j" for k j b
    unfolding gwf_edge[OF pruned_facts(1)[OF p], symmetric] pruned_facts(4)[OF p] by auto
  have j1: "joined ?ix (pruned p) UNIV a b \<longleftrightarrow> a \<noteq> b \<and> (\<exists>k j. k \<in> reachable_rules p \<and> (k, j) \<in> uses p \<and> map_of ?ix k = Some a \<and> map_of ?ix j = Some b)" for a b
    unfolding joined_def using edge by (metis UNIV_I)
  have j2: "joined ?ix (pruned p) {True} a b \<longleftrightarrow> a \<noteq> b \<and> (\<exists>k j. k \<in> reachable_rules p \<and> forbidden p k j \<and> map_of ?ix k = Some a \<and> map_of ?ix j = Some b)" for a b
    unfolding joined_def using edge[where b = True] forbidden_uses by (metis insert_iff singletonD)
  have "fst ` set r \<subseteq> {..<length sccs}" using r(5) component_index(1)[OF s] by blast
  then have "reduced p sccs r" unfolding reduced_def using r(2-4)[unfolded j1 j2] by blast
  then show ?thesis using r(1) unfolding make_scc_reduced_graph_def Let_def by (intro exI[of _ r]) simp
qed

lemma reduced_edges_label:
  assumes "gwf r" "graph_ok N r"
  shows "(a, b, q) \<in> set (edge_list r) \<longleftrightarrow> label r a b = Some q"
  unfolding gwf_edge[OF assms(1)] edges_iff ..

lemma reduced_graph_ok:
  assumes s: "components p sccs" and r: "reduced p sccs r" and "length sccs \<le> N"
  shows "graph_ok N r"
proof -
  note R = reducedD[OF r]
  have "b < N" if e: "(a, tos) \<in> set r" "(b, q) \<in> set tos" for a tos b q
  proof -
    have "label r a b \<noteq> None" using gwf_edge[OF R(1), of a b q] e by auto
    then obtain j where "map_of (scc_indices sccs) j = Some b" unfolding R(3) by blast
    then show ?thesis using component_index(1)[OF s] assms(3) by (meson less_le_trans)
  qed
  moreover have "a < N" if "(a, tos) \<in> set r" for a tos using that R(2) assms(3) by force
  moreover have "distinct (map fst tos)" if "(a, tos) \<in> set r" for a tos using that R(1) lm_inv_distinct by (auto simp: gwf_def)
  ultimately show ?thesis unfolding graph_ok_def using R(1) lm_inv_distinct by (fastforce simp: gwf_def)
qed

lemma reduced_path:
  assumes p: "lm_inv p" and s: "components p sccs" and r: "reduced p sccs r" and ok: "graph_ok N r"
    and "(a, b) \<in> (arcs r)\<^sup>+" "map_of (scc_indices sccs) k = Some a" "map_of (scc_indices sccs) j = Some b"
  shows "(k, j) \<in> (uses p)\<^sup>*"
  using assms(5,7)
proof (induction arbitrary: j rule: trancl_induct)
  case (base b)
  then have "label r a b \<noteq> None" using reduced_edges_label[OF reducedD(1)[OF r] ok] by (auto simp: arcs_def)
  then obtain k' j' where e: "(k', j') \<in> uses p" "map_of (scc_indices sccs) k' = Some a" "map_of (scc_indices sccs) j' = Some b"
    unfolding reducedD(3)[OF r] by blast
  have "(k, k') \<in> (uses p)\<^sup>*" "(j', j) \<in> (uses p)\<^sup>*"
    using component_index(3)[OF s] e(2,3) assms(6) base(2) by metis+
  then show ?case using e(1) by (meson rtrancl_into_rtrancl rtrancl_trans)
next
  case (step b c)
  then have "label r b c \<noteq> None" using reduced_edges_label[OF reducedD(1)[OF r] ok] by (auto simp: arcs_def)
  then obtain k' j' where e: "(k', j') \<in> uses p" "map_of (scc_indices sccs) k' = Some b" "map_of (scc_indices sccs) j' = Some c"
    unfolding reducedD(3)[OF r] by blast
  have "(k, k') \<in> (uses p)\<^sup>*" using step.IH e(2) by blast
  moreover have "(j', j) \<in> (uses p)\<^sup>*" using component_index(3)[OF s] e(3) step.prems by metis
  ultimately show ?case using e(1) by (meson rtrancl_into_rtrancl rtrancl_trans)
qed

lemma reduced_acyclic:
  assumes p: "lm_inv p" and s: "components p sccs" and r: "reduced p sccs r" and ok: "graph_ok N r"
  shows "acyclic (arcs r)"
  unfolding acyclic_def
proof (intro allI notI)
  fix a assume "(a, a) \<in> (arcs r)\<^sup>+"
  then obtain b where b: "(a, b) \<in> arcs r" "(b, a) \<in> (arcs r)\<^sup>*" by (metis tranclD)
  then have "label r a b \<noteq> None" using reduced_edges_label[OF reducedD(1)[OF r] ok] by (auto simp: arcs_def)
  then obtain k j where e: "a \<noteq> b" "(k, j) \<in> uses p" "map_of (scc_indices sccs) k = Some a" "map_of (scc_indices sccs) j = Some b"
    unfolding reducedD(3)[OF r] by blast
  have "(b, a) \<in> (arcs r)\<^sup>+" using b(2) e(1) by (metis rtranclD)
  then have "(j, k) \<in> (uses p)\<^sup>*" using reduced_path[OF p s r ok] e(3,4) by blast
  then show False using component_index(3)[OF s e(3,4)] e(1,2) by blast
qed

section \<open>The strata of the rules\<close>

text \<open>An assignment of strata: every live rule has one, a rule is never in a later stratum than a live rule it uses, and in an
  earlier one if the use is forbidden.  Strata are evaluated from the last to the first.\<close>

definition strata_ok :: "'p nf_prog \<Rightarrow> nat \<Rightarrow> (symbol \<Rightarrow> nat option) \<Rightarrow> bool" where
  "strata_ok p n stratum \<longleftrightarrow> (\<forall>k. k \<in> live_rules p \<longleftrightarrow> (\<exists>i. stratum k = Some i)) \<and> (\<forall>k i. stratum k = Some i \<longrightarrow> i < n)
     \<and> (\<forall>k j i i'. stratum k = Some i \<longrightarrow> stratum j = Some i' \<longrightarrow> (k, j) \<in> uses p \<longrightarrow> i \<le> i' \<and> (forbidden p k j \<longrightarrow> i < i'))"

lemma invert_strata_index:
  assumes "distinct (concat ss)"
  shows "map_of (invert_strata ss) a = Some i \<longleftrightarrow> i < length ss \<and> a \<in> set (ss ! i)"
  unfolding invert_strata_def by (rule index_table[OF assms])

lemma strata_assigned:
  assumes p: "lm_inv p" and s: "components p sccs" and r: "reduced p sccs r"
    and no_cycle: "\<And>k j. k \<in> reachable_rules p \<Longrightarrow> forbidden p k j \<Longrightarrow> (j, k) \<notin> (uses p)\<^sup>*"
    and ss: "stratification r N ss" and N: "length sccs \<le> N"
  shows "strata_ok p (length ss) (stratum_of (scc_indices sccs) (invert_strata ss))"
proof -
  let ?ix = "scc_indices sccs" and ?st = "stratum_of (scc_indices sccs) (invert_strata ss)"
  have ok: "graph_ok N r" by (rule reduced_graph_ok[OF s r N])
  have d: "distinct (concat ss)" and keeps: "keeps_edges r ss" using ss unfolding stratification_def by argo+
  have all: "set (concat ss) = {..<N}" by (rule stratification_complete[OF ok ss reduced_acyclic[OF p s r ok]])
  have st: "?st k = Some i \<longleftrightarrow> (\<exists>a. map_of ?ix k = Some a \<and> i < length ss \<and> a \<in> set (ss ! i))" for k i
    unfolding stratum_of_def invert_strata_index[OF d, symmetric] by (simp split: option.split)
  have placed: "\<exists>i < length ss. a \<in> set (ss ! i)" if "map_of ?ix k = Some a" for a k
    using that component_index(1)[OF s] N all in_concat_nth[of a ss] by (metis lessThan_iff less_le_trans)
  have order: "i \<le> i' \<and> (forbidden p k j \<longrightarrow> i < i')"
    if k: "?st k = Some i" and j: "?st j = Some i'" and e: "(k, j) \<in> uses p" for k j i i'
  proof -
    obtain a b where a: "map_of ?ix k = Some a" "i < length ss" "a \<in> set (ss ! i)"
      and b: "map_of ?ix j = Some b" "i' < length ss" "b \<in> set (ss ! i')" using k j unfolding st by blast
    have live: "k \<in> reachable_rules p" using a(1) component_index(2)[OF s] by blast
    show ?thesis
    proof (cases "a = b")
      case True
      then have "i = i'" using a b invert_strata_index[OF d] by (metis option.inject)
      moreover have "(j, k) \<in> (uses p)\<^sup>*" using component_index(3)[OF s a(1) b(1)] True by blast
      ultimately show ?thesis using no_cycle[OF live] by blast
    next
      case False
      then have "label r a b \<noteq> None" using reducedD(3)[OF r] live e a(1) b(1) by blast
      then obtain q where q: "label r a b = Some q" by blast
      have "forbidden p k j \<longrightarrow> q" using reducedD(4)[OF r, of a b] False live a(1) b(1) q by auto
      moreover obtain i0 where "i0 \<le> i'" "a \<in> set (ss ! i0)" "q \<longrightarrow> i0 < i'"
        using keeps b(2,3) q reduced_edges_label[OF reducedD(1)[OF r] ok, of a b q] unfolding keeps_edges_def by meson
      moreover from this have "i0 = i" using a b(2) invert_strata_index[OF d] by (metis le_less_trans option.inject)
      ultimately show ?thesis by simp
    qed
  qed
  have "k \<in> live_rules p \<longleftrightarrow> (\<exists>i. ?st k = Some i)" for k
    unfolding component_index(2)[OF s] st using placed by blast
  then show ?thesis unfolding strata_ok_def using order st by blast
qed

lemma place_rules_spec:
  assumes "distinct (map fst p)" "\<forall>k i. stratum k = Some i \<longrightarrow> i < length ret"
  shows "\<exists>ret'. place_rules stratum p ret = Some ret' \<and> length ret' = length ret
    \<and> (\<forall>i < length ret. disable_magic_rewrite (ret' ! i) = disable_magic_rewrite (ret ! i)
         \<and> (\<forall>k. map_of (prog (ret' ! i)) k = (if stratum k = Some i \<and> map_of p k \<noteq> None then map_of p k else map_of (prog (ret ! i)) k)))"
  using assms
proof (induction p arbitrary: ret)
  case (Cons e p)
  obtain name r where e: "e = (name, r)" by force
  show ?case
  proof (cases "stratum name")
    case None
    then show ?thesis using Cons.IH[of ret] Cons.prems e by auto
  next
    case (Some i)
    let ?ret = "ret[i := (ret ! i)\<lparr>prog := lm_insert name r (prog (ret ! i))\<rparr>]"
    have i: "i < length ret" using Some Cons.prems(2) by simp
    have fresh: "map_of p name = None" using Cons.prems(1) e by (auto simp: map_of_eq_None_iff)
    obtain ret' where "place_rules stratum p ?ret = Some ret'" "length ret' = length ret"
        "\<forall>i' < length ret. disable_magic_rewrite (ret' ! i') = disable_magic_rewrite (?ret ! i')
         \<and> (\<forall>k. map_of (prog (ret' ! i')) k = (if stratum k = Some i' \<and> map_of p k \<noteq> None then map_of p k else map_of (prog (?ret ! i')) k))"
      using Cons.IH[of ?ret] Cons.prems e by auto
    then show ?thesis using e Some i fresh by (intro exI[of _ ret']) (auto simp: nth_list_update)
  qed
qed simp

lemma add_lifetimes:
  "map_of (fold (add_lifetime u) tos m) j =
     (if j \<in> fst ` set tos then Some (case map_of m j of None \<Rightarrow> u | Some x \<Rightarrow> max x u) else map_of m j)"
proof (induction tos arbitrary: m)
  case (Cons t tos)
  obtain k b where t: "t = (k, b)" by force
  show ?case unfolding fold.simps comp_def Cons t
    by (auto simp: add_lifetime_def max_def split: option.splits)
qed simp

definition lifetime_of :: "(symbol \<Rightarrow> nat option) \<Rightarrow> nat \<Rightarrow> symbol stratified_graph \<Rightarrow> symbol \<Rightarrow> nat set" where
  "lifetime_of stratum n g j = {n - 1 - i | fr tos i. (fr, tos) \<in> set g \<and> j \<in> fst ` set tos \<and> stratum fr = Some i}"

lemma store_lifetimes_spec:
  shows "u \<in> lifetime_of stratum n g j \<Longrightarrow> \<exists>m. map_of (store_lifetimes stratum n g) j = Some m \<and> u \<le> m"
    and "map_of (store_lifetimes stratum n g) j = Some m \<Longrightarrow> m \<in> lifetime_of stratum n g j"
proof -
  let ?f = "\<lambda>(fr, tos) m. case stratum fr of None \<Rightarrow> m | Some i \<Rightarrow> fold (add_lifetime (n - 1 - i)) tos m"
  have step: "lifetime_of stratum n (e # g) j = lifetime_of stratum n [e] j \<union> lifetime_of stratum n g j" for e g
    unfolding lifetime_of_def list.set insert_iff by blast
  have one: "lifetime_of stratum n [(fr, tos)] j = (if j \<in> fst ` set tos then {n - 1 - i | i. stratum fr = Some i} else {})" for fr tos
    by (auto simp: lifetime_of_def)
  have "(\<forall>u \<in> lifetime_of stratum n g j \<union> {x. map_of m j = Some x}. \<exists>y. map_of (fold ?f g m) j = Some y \<and> u \<le> y)
      \<and> (\<forall>y. map_of (fold ?f g m) j = Some y \<longrightarrow> map_of m j = Some y \<or> y \<in> lifetime_of stratum n g j)" for m
  proof (induction g arbitrary: m)
    case (Cons e g)
    obtain fr tos where e: "e = (fr, tos)" by force
    let ?m = "?f e m"
    have m: "map_of ?m j = (case stratum fr of None \<Rightarrow> map_of m j | Some i \<Rightarrow> if j \<in> fst ` set tos
        then Some (case map_of m j of None \<Rightarrow> n - 1 - i | Some x \<Rightarrow> max x (n - 1 - i)) else map_of m j)"
      by (simp add: e add_lifetimes split: option.split)
    have up: "\<exists>y. map_of ?m j = Some y \<and> u \<le> y" if "u \<in> lifetime_of stratum n [e] j \<union> {x. map_of m j = Some x}" for u
      using that unfolding m unfolding e one by (auto split: option.splits if_splits)
    have down: "map_of m j = Some y \<or> y \<in> lifetime_of stratum n [e] j" if "map_of ?m j = Some y" for y
      using that unfolding m unfolding e one by (auto simp: max_def split: option.splits if_splits)
    have fold: "fold ?f (e # g) m = fold ?f g ?m" by simp
    note IH = Cons[of ?m]
    show ?case
      unfolding fold
    proof (intro conjI ballI allI impI)
      fix u assume "u \<in> lifetime_of stratum n (e # g) j \<union> {x. map_of m j = Some x}"
      then consider "u \<in> lifetime_of stratum n g j" | "u \<in> lifetime_of stratum n [e] j \<union> {x. map_of m j = Some x}"
        unfolding step[of e g] by blast
      then show "\<exists>y. map_of (fold ?f g ?m) j = Some y \<and> u \<le> y"
      proof cases
        case 2
        then obtain y where "map_of ?m j = Some y" "u \<le> y" using up by blast
        moreover from this obtain z where "map_of (fold ?f g ?m) j = Some z" "y \<le> z" using IH by blast
        ultimately show ?thesis using order_trans by blast
      qed (use IH in blast)
    next
      fix y assume "map_of (fold ?f g ?m) j = Some y"
      then show "map_of m j = Some y \<or> y \<in> lifetime_of stratum n (e # g) j"
        using IH down unfolding step[of e g] by blast
    qed
  qed (simp add: lifetime_of_def)
  from this[of "[]"] show "u \<in> lifetime_of stratum n g j \<Longrightarrow> \<exists>m. map_of (store_lifetimes stratum n g) j = Some m \<and> u \<le> m"
    and "map_of (store_lifetimes stratum n g) j = Some m \<Longrightarrow> m \<in> lifetime_of stratum n g j"
    by (auto simp: store_lifetimes_def)
qed

section \<open>The stratified program\<close>

definition forbidden_cycle :: "'p nf_prog \<Rightarrow> bool" where
  "forbidden_cycle p \<longleftrightarrow> (\<exists>k \<in> reachable_rules p. \<exists>j. forbidden p k j \<and> (j, k) \<in> (uses p)\<^sup>*)"

lemma cycle_check:
  assumes p: "lm_inv p" and s: "components p sccs"
  shows "verify_no_cycle (pruned p) sccs = (if forbidden_cycle p then Inl UnStratifiableProgram else Inr ())"
proof -
  have same: "(\<exists>c \<in> set sccs. k \<in> set c \<and> j \<in> set c) \<longleftrightarrow> (k, j) \<in> (uses p)\<^sup>* \<and> (j, k) \<in> (uses p)\<^sup>*"
    if "k \<in> live_rules p" "j \<in> live_rules p" for k j
    using s that unfolding components_def by blast
  have comp: "k \<in> live_rules p" if "c \<in> set sccs" "k \<in> set c" for c k
    using s that unfolding components_def by (metis UN_I set_concat)
  have "(\<exists>k j. label (pruned p) k j = Some True \<and> (\<exists>c \<in> set sccs. k \<in> set c \<and> j \<in> set c)) \<longleftrightarrow> forbidden_cycle p"
  proof
    assume "\<exists>k j. label (pruned p) k j = Some True \<and> (\<exists>c \<in> set sccs. k \<in> set c \<and> j \<in> set c)"
    then obtain k j c where e: "label (pruned p) k j = Some True" "c \<in> set sccs" "k \<in> set c" "j \<in> set c" by blast
    then have "k \<in> reachable_rules p" "forbidden p k j" unfolding pruned_facts(4)[OF p] by (auto split: if_splits)
    moreover have "(j, k) \<in> (uses p)\<^sup>*" using same[of k j] comp e(2-4) by blast
    ultimately show "forbidden_cycle p" unfolding forbidden_cycle_def by blast
  next
    assume "forbidden_cycle p"
    then obtain k j where e: "k \<in> reachable_rules p" "forbidden p k j" "(j, k) \<in> (uses p)\<^sup>*" unfolding forbidden_cycle_def by blast
    have u: "(k, j) \<in> uses p" by (rule forbidden_uses[OF e(2)])
    have "k \<in> live_rules p" using e(1) uses_key[OF u] by blast
    moreover have "j \<in> live_rules p"
      using e(3) u uses_key[OF u] reachable_closed[OF e(1)] by (metis IntI converse_rtranclE r_into_rtrancl uses_key)
    ultimately have "\<exists>c \<in> set sccs. k \<in> set c \<and> j \<in> set c" using same u e(3) by blast
    then show "\<exists>k j. label (pruned p) k j = Some True \<and> (\<exists>c \<in> set sccs. k \<in> set c \<and> j \<in> set c)"
      using e u unfolding pruned_facts(4)[OF p] by (intro exI[of _ k] exI[of _ j]) simp
  qed
  then show ?thesis unfolding verify_no_cycle_iff[OF pruned_facts(1)[OF p]] by simp
qed

lemma pruned_graph:
  assumes p: "lm_inv p"
  shows "\<exists>xs. reachable_components (reduce_to_graph (convert_normal_form_program_to_graph p)) PROG_ENTRY = Some xs
    \<and> filter (\<lambda>(k, _). k \<in> set xs) (convert_normal_form_program_to_graph p) = pruned p
    \<and> filter (\<lambda>(k, _). k \<in> set xs) (reduce_to_graph (convert_normal_form_program_to_graph p)) = reduce_to_graph (pruned p)"
proof -
  let ?g = "convert_normal_form_program_to_graph p"
  have deps: "deps ?g = uses p" by (auto simp: deps_def graph_deps[OF lm_inv_distinct[OF p]] split: if_splits)
  obtain xs where xs: "reachable_components (reduce_to_graph ?g) PROG_ENTRY = Some xs" "set xs = reachable_rules p"
    using reachable_components_image[of "reduce_to_graph ?g" PROG_ENTRY] unfolding succs_reduce deps reachable_rules_def by blast
  show ?thesis unfolding xs(1) reduce_filter by (intro exI[of _ xs]) (simp add: xs(2) pruned_def)
qed

lemma place_rules_fresh:
  assumes "distinct (map fst p)" "\<forall>k i. stratum k = Some i \<longrightarrow> i < n" "prog e = []"
  shows "\<exists>ret. place_rules stratum p (replicate n e) = Some ret \<and> length ret = n
    \<and> (\<forall>i < n. \<forall>k. map_of (prog (ret ! i)) k = (if stratum k = Some i then map_of p k else None))"
proof -
  have "\<forall>k i. stratum k = Some i \<longrightarrow> i < length (replicate n e)" using assms(2) by simp
  from place_rules_spec[OF assms(1) this] show ?thesis using assms(3) by (elim exE) (auto intro!: exI)
qed

lemma into_stratified_result:
  assumes p: "lm_inv (prog self)"
  shows "forbidden_cycle (prog self) \<Longrightarrow> into_stratified_program self = Some (Inl UnStratifiableProgram)"
    and "\<not> forbidden_cycle (prog self) \<Longrightarrow> \<exists>ss stratum.
      into_stratified_program self = Some (Inr (ss, store_lifetimes stratum (length ss) (pruned (prog self))))
      \<and> strata_ok (prog self) (length ss) stratum
      \<and> (\<forall>i < length ss. \<forall>k. map_of (prog (ss ! i)) k = (if stratum k = Some i then map_of (prog self) k else None))"
proof -
  let ?p = "prog self"
  obtain xs where xs: "reachable_components (reduce_to_graph (convert_normal_form_program_to_graph ?p)) PROG_ENTRY = Some xs"
      "filter (\<lambda>(k, _). k \<in> set xs) (convert_normal_form_program_to_graph ?p) = pruned ?p"
      "filter (\<lambda>(k, _). k \<in> set xs) (reduce_to_graph (convert_normal_form_program_to_graph ?p)) = reduce_to_graph (pruned ?p)"
    using pruned_graph[OF p] by blast
  obtain sccs where s: "strongly_connected_components (reduce_to_graph (pruned ?p)) = Some sccs" "components ?p sccs"
    using components_found[OF p] by blast
  note unfold = into_stratified_program_def Let_def xs s(1) option.case cycle_check[OF p s(2)]
  show "forbidden_cycle ?p \<Longrightarrow> into_stratified_program self = Some (Inl UnStratifiableProgram)"
    unfolding unfold by simp
  assume nc: "\<not> forbidden_cycle ?p"
  obtain r where r: "make_scc_reduced_graph sccs (pruned ?p) = Some (scc_indices sccs, r)" "reduced ?p sccs r"
    using reduced_found[OF p s(2)] by blast
  have N: "length sccs \<le> length (pruned ?p)" using s(2) pruned_facts(3)[OF p] by (simp add: components_def)
  obtain ss where ss: "generalized_kahn r (length (pruned ?p)) = Some ss" "stratification r (length (pruned ?p)) ss"
    using generalized_kahn_result[OF reduced_graph_ok[OF s(2) r(2) N]] by blast
  let ?st = "stratum_of (scc_indices sccs) (invert_strata ss)"
  have st: "strata_ok ?p (length ss) ?st"
    by (rule strata_assigned[OF p s(2) r(2) _ ss(2) N]) (use nc in \<open>auto simp: forbidden_cycle_def\<close>)
  let ?ret = "replicate (length ss) \<lparr>prog = [], disable_magic_rewrite = disable_magic_rewrite self\<rparr>"
  have "\<forall>k i. ?st k = Some i \<longrightarrow> i < length ss" using st by (simp add: strata_ok_def)
  from place_rules_fresh[OF lm_inv_distinct[OF p] this, of "\<lparr>prog = [], disable_magic_rewrite = disable_magic_rewrite self\<rparr>"]
  obtain ret where ret: "place_rules ?st ?p ?ret = Some ret" "length ret = length ss"
      "\<forall>i < length ss. \<forall>k. map_of (prog (ret ! i)) k = (if ?st k = Some i then map_of ?p k else None)"
    by auto
  have "into_stratified_program self = Some (Inr (ret, store_lifetimes ?st (length ss) (pruned ?p)))"
    unfolding unfold using nc r(1) ss(1) ret(1) by simp
  then show "\<exists>ss stratum.
      into_stratified_program self = Some (Inr (ss, store_lifetimes stratum (length ss) (pruned (prog self))))
      \<and> strata_ok (prog self) (length ss) stratum
      \<and> (\<forall>i < length ss. \<forall>k. map_of (prog (ss ! i)) k = (if stratum k = Some i then map_of (prog self) k else None))"
    using st ret(2,3) by (intro exI[of _ ret] exI[of _ ?st]) simp
qed

lemma stratified_facts:
  assumes p: "lm_inv (prog self)" and res: "into_stratified_program self = Some (Inr (ss, lt))"
  shows "\<exists>stratum. lt = store_lifetimes stratum (length ss) (pruned (prog self)) \<and> strata_ok (prog self) (length ss) stratum
    \<and> (\<forall>i < length ss. \<forall>k. map_of (prog (ss ! i)) k = (if stratum k = Some i then map_of (prog self) k else None))"
proof -
  have "\<not> forbidden_cycle (prog self)" using into_stratified_result(1)[OF p] res by auto
  from into_stratified_result(2)[OF p this] show ?thesis using res by auto
qed

lemma live_mem: "strata_ok p n stratum \<Longrightarrow> stratum k = Some i \<Longrightarrow> map_of p k \<noteq> None \<and> k \<in> reachable_rules p \<and> i < n"
  unfolding strata_ok_def by (metis IntD1 IntD2 map_of_eq_None_iff)

lemma placed_iff:
  assumes "strata_ok p n stratum" "\<forall>i < n. \<forall>k. map_of (prog (ss ! i)) k = (if stratum k = Some i then map_of p k else None)"
  shows "i < n \<and> map_of (prog (ss ! i)) k \<noteq> None \<longleftrightarrow> stratum k = Some i"
proof (cases "stratum k = Some i")
  case True
  then show ?thesis using live_mem[OF assms(1) True] assms(2) by simp
next
  case False
  then show ?thesis using assms(2) by simp
qed

text \<open>C3. In a stratified program a rule is placed with its own clauses, and every rule it uses is placed
  in exactly one stratum, no earlier than its own in the order of the list; strictly later if the use is negated, aggregated or goes
  through a fixed rule.  As strata are evaluated from the last to the first, everything such a use reads is complete.\<close>

theorem stratification_sound:
  assumes "lm_inv (prog self)" "into_stratified_program self = Some (Inr (ss, lt))"
    and "i < length ss" "map_of (prog (ss ! i)) k = Some r" "(k, j) \<in> uses (prog self)" "j \<in> fst ` set (prog self)"
  shows "map_of (prog self) k = Some r \<and> (\<exists>i'. i \<le> i' \<and> i' < length ss \<and> (forbidden (prog self) k j \<longrightarrow> i < i')
    \<and> (\<forall>m < length ss. map_of (prog (ss ! m)) j = (if m = i' then map_of (prog self) j else None)))"
proof -
  obtain stratum where st: "strata_ok (prog self) (length ss) stratum"
      "\<forall>i < length ss. \<forall>k. map_of (prog (ss ! i)) k = (if stratum k = Some i then map_of (prog self) k else None)"
    using stratified_facts[OF assms(1,2)] by blast
  have k: "stratum k = Some i" "map_of (prog self) k = Some r" using st(2) assms(3,4) by (auto split: if_splits)
  have "j \<in> reachable_rules (prog self)"
    using live_mem[OF st(1) k(1)] assms(5) reachable_closed by blast
  then obtain i' where j: "stratum j = Some i'" using st(1) assms(6) unfolding strata_ok_def by blast
  have "i \<le> i' \<and> (forbidden (prog self) k j \<longrightarrow> i < i')" using st(1) k(1) j assms(5) unfolding strata_ok_def by blast
  moreover have "i' < length ss" using live_mem[OF st(1) j] by blast
  ultimately show ?thesis using k(2) st(2) j by (auto intro!: exI[of _ i'])
qed

text \<open>C7. Stratification fails exactly on the programs in which a rule reachable from the query has a forbidden use of a rule that depends on it
  in turn; on every other program it returns, and what it returns has every rule reachable from the query in exactly one stratum, and no other rule.\<close>

theorem stratification_decides:
  assumes "lm_inv (prog self)"
  shows "if \<exists>k \<in> reachable_rules (prog self). \<exists>j. forbidden (prog self) k j \<and> (j, k) \<in> (uses (prog self))\<^sup>*
    then into_stratified_program self = Some (Inl UnStratifiableProgram)
    else \<exists>ss lt. into_stratified_program self = Some (Inr (ss, lt))
      \<and> (\<forall>k. k \<in> fst ` set (prog self) \<and> k \<in> reachable_rules (prog self) \<longleftrightarrow> (\<exists>!i. i < length ss \<and> map_of (prog (ss ! i)) k \<noteq> None))
      \<and> (\<forall>i < length ss. \<forall>k. map_of (prog (ss ! i)) k \<noteq> None \<longrightarrow> k \<in> reachable_rules (prog self))"
proof (cases "forbidden_cycle (prog self)")
  case True
  then show ?thesis using into_stratified_result(1)[OF assms True] by (simp add: forbidden_cycle_def)
next
  case False
  obtain ss stratum where st: "into_stratified_program self = Some (Inr (ss, store_lifetimes stratum (length ss) (pruned (prog self))))"
      "strata_ok (prog self) (length ss) stratum"
      "\<forall>i < length ss. \<forall>k. map_of (prog (ss ! i)) k = (if stratum k = Some i then map_of (prog self) k else None)"
    using into_stratified_result(2)[OF assms False] by blast
  note mem = placed_iff[OF st(2,3)]
  have "k \<in> live_rules (prog self) \<longleftrightarrow> (\<exists>!i. i < length ss \<and> map_of (prog (ss ! i)) k \<noteq> None)" for k
    unfolding mem using st(2) unfolding strata_ok_def by auto
  moreover have "k \<in> reachable_rules (prog self)" if "i < length ss" "map_of (prog (ss ! i)) k \<noteq> None" for i k
    using mem[of i k] that live_mem[OF st(2)] by blast
  ultimately show ?thesis using st(1) False unfolding forbidden_cycle_def by auto
qed

text \<open>C14. The lifetimes of intermediate relations: one is recorded for exactly the symbols that a placed rule
  uses, it is below the number of strata, and it is the largest distance from the last stratum of any rule that uses the symbol, so
  that a relation is kept until its last reader has run.\<close>

theorem store_lifetimes_exact:
  assumes "lm_inv (prog self)" "into_stratified_program self = Some (Inr (ss, lt))"
  shows "(\<forall>i < length ss. \<forall>k. map_of (prog (ss ! i)) k \<noteq> None \<and> (k, j) \<in> uses (prog self)
         \<longrightarrow> (\<exists>m. map_of lt j = Some m \<and> length ss - 1 - i \<le> m))
    \<and> (\<forall>m. map_of lt j = Some m \<longrightarrow> m < length ss
         \<and> (\<exists>i < length ss. \<exists>k. map_of (prog (ss ! i)) k \<noteq> None \<and> (k, j) \<in> uses (prog self) \<and> m = length ss - 1 - i))"
proof -
  let ?p = "prog self"
  obtain stratum where st: "lt = store_lifetimes stratum (length ss) (pruned ?p)" "strata_ok ?p (length ss) stratum"
      "\<forall>i < length ss. \<forall>k. map_of (prog (ss ! i)) k = (if stratum k = Some i then map_of ?p k else None)"
    using stratified_facts[OF assms] by blast
  have edge: "(\<exists>tos. (k, tos) \<in> set (pruned ?p) \<and> j \<in> fst ` set tos) \<longleftrightarrow> k \<in> reachable_rules ?p \<and> (k, j) \<in> uses ?p" for k
  proof -
    have "(\<exists>tos. (k, tos) \<in> set (pruned ?p) \<and> j \<in> fst ` set tos) \<longleftrightarrow> (\<exists>b. label (pruned ?p) k j = Some b)"
      unfolding gwf_edge[OF pruned_facts(1)[OF assms(1)]] by force
    then show ?thesis unfolding pruned_facts(4)[OF assms(1)] by simp
  qed
  note mem = placed_iff[OF st(2,3)]
  have users: "lifetime_of stratum (length ss) (pruned ?p) j = {length ss - 1 - i | i k. stratum k = Some i \<and> (k, j) \<in> uses ?p}"
    unfolding lifetime_of_def using edge live_mem[OF st(2)] by blast
  have "\<exists>m. map_of lt j = Some m \<and> length ss - 1 - i \<le> m" if "stratum k = Some i" "(k, j) \<in> uses ?p" for i k
    using store_lifetimes_spec(1)[of "length ss - 1 - i" stratum "length ss" "pruned ?p" j] that unfolding users st(1) by blast
  moreover have "m < length ss \<and> (\<exists>i k. stratum k = Some i \<and> (k, j) \<in> uses ?p \<and> m = length ss - 1 - i)" if m: "map_of lt j = Some m" for m
  proof -
    obtain i k where "stratum k = Some i" "(k, j) \<in> uses ?p" "m = length ss - 1 - i"
      using store_lifetimes_spec(2)[of stratum "length ss" "pruned ?p" j m] m unfolding users st(1) by blast
    moreover from this have "m < length ss" using live_mem[OF st(2)] by (metis diff_less gr_implies_not0 gr_zeroI less_imp_diff_less zero_less_one)
    ultimately show ?thesis by blast
  qed
  ultimately show ?thesis using mem by metis
qed

text \<open>A query over a recursive rule, its count, and the negation of the rule.\<close>

definition sample_rule :: "unit normal_form_atom list \<Rightarrow> unit normal_form_inline_rule" where
  "sample_rule body = \<lparr>rule_head = (), rule_aggr = [None], rule_body = body\<rparr>"

definition sample_program :: "unit normal_form_program" where
  "sample_program = \<lparr>prog =
     [(PROG_ENTRY, Rules [sample_rule [Rule [99] (), NegatedRule [114] ()]]),
      ([99], Rules [\<lparr>rule_head = (), rule_aggr = [Some (define_aggr ''AGGR_COUNT'' False False, ())], rule_body = [Rule [114] ()]\<rparr>]),
      ([114], Rules [sample_rule [Rule [114] (), Relation ()]])], disable_magic_rewrite = False\<rparr>"

definition sample_strata :: "unit normal_form_program list" where
  "sample_strata = [\<lparr>prog = take 2 (prog sample_program), disable_magic_rewrite = False\<rparr>,
      \<lparr>prog = drop 2 (prog sample_program), disable_magic_rewrite = False\<rparr>]"

lemma sample_program_stratified:
  "into_stratified_program sample_program = Some (Inr (sample_strata, [([99], 1), ([114], 1)]))"
  by code_simp

lemma sample_program_inv: "lm_inv (prog sample_program)"
  by (simp add: sample_program_def lm_inv_def PROG_ENTRY_def)

lemma sample_program_uses: "(PROG_ENTRY, [114]) \<in> uses (prog sample_program)"
  by (simp add: uses_def sample_program_def occurrences_def sample_rule_def PROG_ENTRY_def)

theorem stratification_sound_witness:
  "\<exists>i'. i' < 2 \<and> (forbidden (prog sample_program) PROG_ENTRY [114] \<longrightarrow> 0 < i')
     \<and> (\<forall>m < 2. map_of (prog (sample_strata ! m)) [114] = (if m = i' then map_of (prog sample_program) [114] else None))"
proof -
  have len: "length sample_strata = 2" by (simp add: sample_strata_def)
  have "map_of (prog (sample_strata ! 0)) PROG_ENTRY = Some (Rules [sample_rule [Rule [99] (), NegatedRule [114] ()]])"
    by (simp add: sample_strata_def sample_program_def)
  moreover have "[114] \<in> fst ` set (prog sample_program)" by (simp add: sample_program_def)
  ultimately show ?thesis
    using stratification_sound[OF sample_program_inv sample_program_stratified _ _ sample_program_uses, of 0] len by auto
qed

theorem stratification_decides_witness:
  "if \<exists>k \<in> reachable_rules (prog sample_program). \<exists>j. forbidden (prog sample_program) k j \<and> (j, k) \<in> (uses (prog sample_program))\<^sup>*
    then into_stratified_program sample_program = Some (Inl UnStratifiableProgram)
    else \<exists>ss lt. into_stratified_program sample_program = Some (Inr (ss, lt))
      \<and> (\<forall>k. k \<in> fst ` set (prog sample_program) \<and> k \<in> reachable_rules (prog sample_program) \<longleftrightarrow> (\<exists>!i. i < length ss \<and> map_of (prog (ss ! i)) k \<noteq> None))
      \<and> (\<forall>i < length ss. \<forall>k. map_of (prog (ss ! i)) k \<noteq> None \<longrightarrow> k \<in> reachable_rules (prog sample_program))"
  by (rule stratification_decides[OF sample_program_inv])

theorem store_lifetimes_exact_witness:
  "\<exists>i < 2. \<exists>k. map_of (prog (sample_strata ! i)) k \<noteq> None \<and> (k, [114]) \<in> uses (prog sample_program) \<and> 1 = 2 - 1 - i"
proof -
  have "length sample_strata = 2" "map_of [([99], 1), ([114], 1)] [114 :: 8 word] = Some (1 :: nat)" by (simp_all add: sample_strata_def)
  then show ?thesis using store_lifetimes_exact[OF sample_program_inv sample_program_stratified, of "[114]"] by auto
qed

end
