(* ===== verification/Exprs.thy ===== *)
theory Exprs
  imports Functions
begin

text \<open>
  Expressions (\<open>data/expr.rs\<close>, with the compiler and the conditionals of \<open>parse/expr.rs\<close>): the
  tree-walking evaluator, the compiler to bytecode and the machine that runs it, partial
  evaluation, the resolution of variables to tuple positions, and the bounds that filters give for
  a range scan.  Source spans are left out.  The functions are a table \<open>F\<close> from names to
  implementations; the bounds read the built-in comparisons, there the table is \<open>call_op\<close>.
\<close>

section \<open>Expressions\<close>

datatype expr =
    Binding symbol "nat option"
  | Const data_value
  | Apply string "expr list"
  | UnboundApply bytes "expr list"
  | Cond "(expr \<times> expr) list"

type_synonym op_table = "string \<Rightarrow> tuple \<Rightarrow> data_value result"

fun get_binding :: "expr \<Rightarrow> symbol option" where
  "get_binding (Binding v _) = Some v"
| "get_binding _ = None"

fun get_const :: "expr \<Rightarrow> data_value option" where
  "get_const (Const v) = Some v"
| "get_const _ = None"

definition build_equate :: "expr list \<Rightarrow> expr" where
  "build_equate exprs = Apply ''OP_EQ'' exprs"

definition build_and :: "expr list \<Rightarrow> expr" where
  "build_and exprs = Apply ''OP_AND'' exprs"

definition build_is_in :: "expr list \<Rightarrow> expr" where
  "build_is_in exprs = Apply ''OP_IS_IN'' exprs"

definition negate :: "expr \<Rightarrow> expr" where
  "negate e = Apply ''OP_NEGATE'' [e]"

fun to_conjunction :: "expr \<Rightarrow> expr list" where
  "to_conjunction (Apply op args) = (if op = ''OP_AND'' then args else [Apply op args])"
| "to_conjunction e = [e]"

text \<open>An error of a function is wrapped; a panic unwinds.\<close>

fun raised :: "data_value result \<Rightarrow> data_value result" where
  "raised (Inr v) = Inr v"
| "raised (Inl Panic) = Inl Panic"
| "raised (Inl _) = Inl EvalRaised"

definition lookup_binding :: "tuple \<Rightarrow> symbol \<Rightarrow> nat option \<Rightarrow> data_value result" where
  "lookup_binding b v p =
     (case p of
        None \<Rightarrow> Inl (UnboundVariable v)
      | Some i \<Rightarrow> if i < length b then Inr (b ! i) else Inl (TupleTooShort v i (length b)))"

function (sequential) eval :: "op_table \<Rightarrow> tuple \<Rightarrow> expr \<Rightarrow> data_value result"
  and eval_args :: "op_table \<Rightarrow> tuple \<Rightarrow> expr list \<Rightarrow> tuple result"
  and eval_clauses :: "op_table \<Rightarrow> tuple \<Rightarrow> (expr \<times> expr) list \<Rightarrow> data_value result" where
  "eval F b (Binding v p) = lookup_binding b v p"
| "eval F b (Const v) = Inr v"
| "eval F b (Apply op args) = bind_res (eval_args F b args) (\<lambda>vs. raised (F op vs))"
| "eval F b (Cond clauses) = eval_clauses F b clauses"
| "eval F b (UnboundApply op _) = Inl (NoImplementation op)"
| "eval_args F b [] = Inr []"
| "eval_args F b (e # es) = bind_res (eval F b e) (\<lambda>v. map_res ((#) v) (eval_args F b es))"
| "eval_clauses F b [] = Inr Null"
| "eval_clauses F b ((c, e) # cs) =
     bind_res (eval F b c) (\<lambda>v. bind_res (ok_or (PredicateType v) (get_bool v)) (\<lambda>t.
       if t then eval F b e else eval_clauses F b cs))"
  by pat_completeness auto
termination
  by (relation "measure (case_sum (\<lambda>(_, _, e). size e)
    (case_sum (\<lambda>(_, _, es). size_list size es) (\<lambda>(_, _, cs). size_list (size_prod size size) cs)))") auto

section \<open>Variables\<close>

function (sequential) fill_binding_indices :: "(symbol \<Rightarrow> nat option) \<Rightarrow> expr \<Rightarrow> expr result"
  and fill_args :: "(symbol \<Rightarrow> nat option) \<Rightarrow> expr list \<Rightarrow> expr list result"
  and fill_clauses :: "(symbol \<Rightarrow> nat option) \<Rightarrow> (expr \<times> expr) list \<Rightarrow> (expr \<times> expr) list result" where
  "fill_binding_indices m (Binding v _) = map_res (\<lambda>i. Binding v (Some i)) (ok_or (BadBinding v) (m v))"
| "fill_binding_indices m (Const v) = Inr (Const v)"
| "fill_binding_indices m (Apply op args) = map_res (Apply op) (fill_args m args)"
| "fill_binding_indices m (Cond clauses) = map_res Cond (fill_clauses m clauses)"
| "fill_binding_indices m (UnboundApply op _) = Inl (NoImplementation op)"
| "fill_args m [] = Inr []"
| "fill_args m (e # es) =
     bind_res (fill_binding_indices m e) (\<lambda>e'. map_res ((#) e') (fill_args m es))"
| "fill_clauses m [] = Inr []"
| "fill_clauses m ((c, e) # cs) =
     bind_res (fill_binding_indices m c) (\<lambda>c'. bind_res (fill_binding_indices m e) (\<lambda>e'.
       map_res ((#) (c', e')) (fill_clauses m cs)))"
  by pat_completeness auto
termination
  by (relation "measure (case_sum (\<lambda>(_, e). size e)
    (case_sum (\<lambda>(_, es). size_list size es) (\<lambda>(_, cs). size_list (size_prod size size) cs)))") auto

function (sequential) do_binding_indices :: "expr \<Rightarrow> nat set \<Rightarrow> nat set result"
  and do_binding_indices_args :: "expr list \<Rightarrow> nat set \<Rightarrow> nat set result"
  and do_binding_indices_clauses :: "(expr \<times> expr) list \<Rightarrow> nat set \<Rightarrow> nat set result" where
  "do_binding_indices (Binding _ p) coll = Inr (case p of None \<Rightarrow> coll | Some i \<Rightarrow> insert i coll)"
| "do_binding_indices (Const _) coll = Inr coll"
| "do_binding_indices (Apply _ args) coll = do_binding_indices_args args coll"
| "do_binding_indices (Cond clauses) coll = do_binding_indices_clauses clauses coll"
| "do_binding_indices (UnboundApply op _) coll = Inl (NoImplementation op)"
| "do_binding_indices_args [] coll = Inr coll"
| "do_binding_indices_args (e # es) coll = bind_res (do_binding_indices e coll) (do_binding_indices_args es)"
| "do_binding_indices_clauses [] coll = Inr coll"
| "do_binding_indices_clauses ((c, e) # cs) coll =
     bind_res (do_binding_indices c coll) (\<lambda>coll. bind_res (do_binding_indices e coll) (do_binding_indices_clauses cs))"
  by pat_completeness auto
termination
  by (relation "measure (case_sum (\<lambda>(e, _). size e)
    (case_sum (\<lambda>(es, _). size_list size es) (\<lambda>(cs, _). size_list (size_prod size size) cs)))") auto

definition binding_indices :: "expr \<Rightarrow> nat set result" where
  "binding_indices e = do_binding_indices e {}"

function (sequential) collect_bindings :: "expr \<Rightarrow> symbol set \<Rightarrow> symbol set result"
  and collect_bindings_args :: "expr list \<Rightarrow> symbol set \<Rightarrow> symbol set result"
  and collect_bindings_clauses :: "(expr \<times> expr) list \<Rightarrow> symbol set \<Rightarrow> symbol set result" where
  "collect_bindings (Binding v _) coll = Inr (insert v coll)"
| "collect_bindings (Const _) coll = Inr coll"
| "collect_bindings (Apply _ args) coll = collect_bindings_args args coll"
| "collect_bindings (Cond clauses) coll = collect_bindings_clauses clauses coll"
| "collect_bindings (UnboundApply op _) coll = Inl (NoImplementation op)"
| "collect_bindings_args [] coll = Inr coll"
| "collect_bindings_args (e # es) coll = bind_res (collect_bindings e coll) (collect_bindings_args es)"
| "collect_bindings_clauses [] coll = Inr coll"
| "collect_bindings_clauses ((c, e) # cs) coll =
     bind_res (collect_bindings c coll) (\<lambda>coll. bind_res (collect_bindings e coll) (collect_bindings_clauses cs))"
  by pat_completeness auto
termination
  by (relation "measure (case_sum (\<lambda>(e, _). size e)
    (case_sum (\<lambda>(es, _). size_list size es) (\<lambda>(cs, _). size_list (size_prod size size) cs)))") auto

definition bindings :: "expr \<Rightarrow> symbol set result" where
  "bindings e = collect_bindings e {}"

fun var_names :: "expr list \<Rightarrow> symbol list result" where
  "var_names [] = Inr []"
| "var_names (e # es) =
     (case e of Binding v _ \<Rightarrow> map_res ((#) v) (var_names es) | _ \<Rightarrow> Inl InvalidFields)"

fun to_var_list :: "expr \<Rightarrow> symbol list result" where
  "to_var_list (Apply op args) = (if op \<noteq> ''OP_LIST'' then Inl InvalidFields else var_names args)"
| "to_var_list (Binding v _) = Inr [v]"
| "to_var_list _ = Inl InvalidFields"

section \<open>Partial evaluation\<close>

fun is_const :: "expr \<Rightarrow> bool" where
  "is_const (Const _) = True"
| "is_const _ = False"

text \<open>A double negation, left over from the conversion to normal form, is dropped.\<close>

fun drop_not_not :: "expr \<Rightarrow> expr result" where
  "drop_not_not (Apply op1 (Apply op2 args2 # rest)) =
     (if op1 = ''OP_NEGATE'' \<and> op2 = ''OP_NEGATE'' then
        (case args2 of [] \<Rightarrow> Inl Panic | e # _ \<Rightarrow> Inr e)
      else Inr (Apply op1 (Apply op2 args2 # rest)))"
| "drop_not_not e = Inr e"

fun partial_eval :: "op_table \<Rightarrow> expr \<Rightarrow> expr result"
  and partial_eval_args :: "op_table \<Rightarrow> expr list \<Rightarrow> expr list result" where
  "partial_eval F (Apply op args) =
     bind_res (partial_eval_args F args) (\<lambda>args.
     bind_res (if list_all is_const args then map_res Const (eval F [] (Apply op args))
               else Inr (Apply op args)) drop_not_not)"
| "partial_eval F (Binding v p) = Inr (Binding v p)"
| "partial_eval F (Const v) = Inr (Const v)"
| "partial_eval F (UnboundApply op args) = Inr (UnboundApply op args)"
| "partial_eval F (Cond clauses) = Inr (Cond clauses)"
| "partial_eval_args F [] = Inr []"
| "partial_eval_args F (e # es) =
     bind_res (partial_eval F e) (\<lambda>e'. map_res ((#) e') (partial_eval_args F es))"

definition eval_to_const :: "op_table \<Rightarrow> expr \<Rightarrow> data_value result" where
  "eval_to_const F e =
     bind_res (partial_eval F e) (\<lambda>e'. case e' of Const v \<Rightarrow> Inr v | _ \<Rightarrow> Inl NotConst)"

section \<open>Conditionals of the parser\<close>

text \<open>The clauses that \<open>cond(..)\<close> and \<open>if(..)\<close> are read as.\<close>

definition cond_expr :: "expr list \<Rightarrow> expr result" where
  "cond_expr args =
     (if args = [] then Inl EmptyCond
      else
        let args = (if odd (length args) then butlast args @ [Const Null, last args] else args);
            clauses = map (\<lambda>pair. (pair ! 0, pair ! 1)) (chunks 2 args)
        in Inr (Cond (case fst (last clauses) of
                        Const (Bool True) \<Rightarrow> clauses
                      | _ \<Rightarrow> clauses @ [(Const (Bool True), Const Null)])))"

fun if_expr :: "expr list \<Rightarrow> expr result" where
  "if_expr [c, t] = Inr (Cond [(c, t), (Const (Bool True), Const Null)])"
| "if_expr [c, t, e] = Inr (Cond [(c, t), (Const (Bool True), e)])"
| "if_expr _ = Inl WrongArgsToIf"

section \<open>Bytecode\<close>

datatype bytecode =
    BcBinding symbol "nat option"
  | BcConst data_value
  | BcApply string nat
  | JumpIfFalse nat
  | Goto nat

text \<open>The compiler appends to a collector; the jumps are emitted with target 0 and overwritten when
  the target is known.\<close>

function (sequential) expr2bytecode :: "expr \<Rightarrow> bytecode list \<Rightarrow> bytecode list result"
  and args2bytecode :: "expr list \<Rightarrow> bytecode list \<Rightarrow> bytecode list result"
  and clauses2bytecode :: "(expr \<times> expr) list \<Rightarrow> bytecode list \<Rightarrow> nat list \<Rightarrow> (bytecode list \<times> nat list) result" where
  "expr2bytecode (Binding v p) code = Inr (code @ [BcBinding v p])"
| "expr2bytecode (Const v) code = Inr (code @ [BcConst v])"
| "expr2bytecode (Apply op args) code =
     map_res (\<lambda>code. code @ [BcApply op (length args)]) (args2bytecode args code)"
| "expr2bytecode (Cond clauses) code =
     map_res (\<lambda>(code, return_jump_pos). foldl (\<lambda>c pos. c[pos := Goto (length code)]) code return_jump_pos)
       (clauses2bytecode clauses code [])"
| "expr2bytecode (UnboundApply op _) code = Inl (NoImplementation op)"
| "args2bytecode [] code = Inr code"
| "args2bytecode (e # es) code = bind_res (expr2bytecode e code) (args2bytecode es)"
| "clauses2bytecode [] code ps = Inr (code, ps)"
| "clauses2bytecode ((c, e) # cs) code ps =
     bind_res (expr2bytecode c code) (\<lambda>code.
     let false_jump_amend_pos = length code in
     bind_res (expr2bytecode e (code @ [JumpIfFalse 0])) (\<lambda>code.
     let code = code @ [Goto 0]
     in clauses2bytecode cs (code[false_jump_amend_pos := JumpIfFalse (length code)]) (ps @ [length code - 1])))"
  by pat_completeness auto
termination
  by (relation "measure (case_sum (\<lambda>(e, _). size e)
    (case_sum (\<lambda>(es, _). size_list size es) (\<lambda>(cs, _, _). size_list (size_prod size size) cs)))") auto

definition compile :: "expr \<Rightarrow> bytecode list result" where
  "compile e = expr2bytecode e []"

text \<open>One instruction; the top of the stack is its last element.\<close>

fun bc_step :: "op_table \<Rightarrow> tuple \<Rightarrow> bytecode \<Rightarrow> nat \<Rightarrow> tuple \<Rightarrow> (nat \<times> tuple) result" where
  "bc_step F b (BcBinding v p) pointer stack =
     map_res (\<lambda>x. (pointer + 1, stack @ [x])) (lookup_binding b v p)"
| "bc_step F b (BcConst v) pointer stack = Inr (pointer + 1, stack @ [v])"
| "bc_step F b (BcApply op arity) pointer stack =
     (if arity > length stack then Inl Panic
      else
        let frame_start = length stack - arity in
        map_res (\<lambda>x. (pointer + 1, take frame_start stack @ [x])) (raised (F op (drop frame_start stack))))"
| "bc_step F b (JumpIfFalse jump_to) pointer stack =
     (if stack = [] then Inl Panic
      else
        bind_res (ok_or (PredicateType (last stack)) (get_bool (last stack))) (\<lambda>c.
          Inr (if c then pointer + 1 else jump_to, butlast stack)))"
| "bc_step F b (Goto jump_to) pointer stack = Inr (jump_to, stack)"

text \<open>The loop; \<open>None\<close> would be a run that does not end.\<close>

partial_function (option) bc_run :: "op_table \<Rightarrow> tuple \<Rightarrow> bytecode list \<Rightarrow> nat \<Rightarrow> tuple \<Rightarrow> data_value result option" where
  "bc_run F b codes pointer stack =
     (if pointer = length codes then Some (if stack = [] then Inl Panic else Inr (last stack))
      else if pointer > length codes then Some (Inl Panic)
      else
        case bc_step F b (codes ! pointer) pointer stack of
          Inl e \<Rightarrow> Some (Inl e)
        | Inr (pointer, stack) \<Rightarrow> bc_run F b codes pointer stack)"

declare bc_run.simps [code]

definition eval_bytecode :: "op_table \<Rightarrow> tuple \<Rightarrow> bytecode list \<Rightarrow> data_value result option" where
  "eval_bytecode F b codes = bc_run F b codes 0 []"

definition eval_bytecode_pred :: "op_table \<Rightarrow> tuple \<Rightarrow> bytecode list \<Rightarrow> bool result option" where
  "eval_bytecode_pred F b codes =
     map_option (\<lambda>r. bind_res r (\<lambda>v. case v of Bool t \<Rightarrow> Inr t | _ \<Rightarrow> Inl (PredicateType v))) (eval_bytecode F b codes)"

section \<open>Bounds of range scans\<close>

record value_range =
  lower :: data_value
  upper :: data_value

definition vr_default :: value_range where
  "vr_default = \<lparr>lower = Null, upper = Bot\<rparr>"

definition vr_null :: value_range where
  "vr_null = \<lparr>lower = Bot, upper = Bot\<rparr>"

definition vr_lower_bound :: "data_value \<Rightarrow> value_range" where
  "vr_lower_bound v = \<lparr>lower = v, upper = Bot\<rparr>"

definition vr_upper_bound :: "data_value \<Rightarrow> value_range" where
  "vr_upper_bound v = \<lparr>lower = Null, upper = v\<rparr>"

text \<open>\<open>std::cmp::max\<close> returns its second argument where the two are equal, \<open>min\<close> its first.\<close>

definition dv_max :: "ext \<Rightarrow> data_value \<Rightarrow> data_value \<Rightarrow> data_value" where
  "dv_max E a b = (if dv_cmp E a b = Greater then a else b)"

definition dv_min :: "ext \<Rightarrow> data_value \<Rightarrow> data_value \<Rightarrow> data_value" where
  "dv_min E a b = (if dv_cmp E a b = Greater then b else a)"

definition vr_merge :: "ext \<Rightarrow> value_range \<Rightarrow> value_range \<Rightarrow> value_range" where
  "vr_merge E a b =
     (let l = dv_max E (lower a) (lower b); u = dv_min E (upper a) (upper b) in
      if dv_cmp E l u = Greater then vr_null else \<lparr>lower = l, upper = u\<rparr>)"

definition LARGEST_UTF_CHAR :: bytes where
  "LARGEST_UTF_CHAR = [0xF4, 0x8F, 0xBF, 0xBF]"

text \<open>The bound a constant gives: an integer below, a float above.\<close>

definition int_bound :: "data_value \<Rightarrow> data_value" where
  "int_bound v = (case get_int v of Some i \<Rightarrow> Num (NInt i) | None \<Rightarrow> v)"

definition float_bound :: "data_value \<Rightarrow> data_value" where
  "float_bound v = (case get_float v of Some f \<Rightarrow> Num (NFloat f) | None \<Rightarrow> v)"

text \<open>The constant that an argument compares the target with.\<close>

definition against :: "symbol \<Rightarrow> expr \<Rightarrow> expr \<Rightarrow> data_value option" where
  "against target a b =
     (case get_binding a of
        Some v \<Rightarrow> (case get_const b of Some c \<Rightarrow> if target = v then Some c else None | None \<Rightarrow> None)
      | None \<Rightarrow> None)"

fun extract_bound :: "symbol \<Rightarrow> expr \<Rightarrow> value_range result" where
  "extract_bound target (Apply op args) =
     (if op = ''OP_GE'' \<or> op = ''OP_GT'' then
        (case args of
           a # b # _ \<Rightarrow>
             (case against target a b of
                Some c \<Rightarrow> Inr (vr_lower_bound (int_bound c))
              | None \<Rightarrow>
                  (case against target b a of
                     Some c \<Rightarrow> Inr (vr_upper_bound (float_bound c))
                   | None \<Rightarrow> Inr vr_default))
         | _ \<Rightarrow> Inl Panic)
      else if op = ''OP_LE'' \<or> op = ''OP_LT'' then
        (case args of
           a # b # _ \<Rightarrow>
             (case against target a b of
                Some c \<Rightarrow> Inr (vr_upper_bound (float_bound c))
              | None \<Rightarrow>
                  (case against target b a of
                     Some c \<Rightarrow> Inr (vr_lower_bound (int_bound c))
                   | None \<Rightarrow> Inr vr_default))
         | _ \<Rightarrow> Inl Panic)
      else if op = ''OP_STARTS_WITH'' then
        (case args of
           a # b # _ \<Rightarrow>
             (case against target a b of
                Some c \<Rightarrow>
                  (case get_str c of
                     Some s \<Rightarrow> Inr \<lparr>lower = Str s, upper = Str (s @ LARGEST_UTF_CHAR)\<rparr>
                   | None \<Rightarrow> Inl (StrRangeScan c))
              | None \<Rightarrow> Inr vr_default)
         | [a] \<Rightarrow> (case get_binding a of Some _ \<Rightarrow> Inl Panic | None \<Rightarrow> Inr vr_default)
         | [] \<Rightarrow> Inl Panic)
      else Inr vr_default)"
| "extract_bound target (UnboundApply op _) = Inl (NoImplementation op)"
| "extract_bound target _ = Inr vr_default"

fun merge_bounds :: "ext \<Rightarrow> expr list \<Rightarrow> symbol \<Rightarrow> value_range \<Rightarrow> value_range result" where
  "merge_bounds E [] current bound = Inr bound"
| "merge_bounds E (f # fs) current bound =
     bind_res (extract_bound current f) (\<lambda>nxt. merge_bounds E fs current (vr_merge E bound nxt))"

definition compute_bounds :: "ext \<Rightarrow> expr list \<Rightarrow> symbol list \<Rightarrow> (tuple \<times> tuple) result" where
  "compute_bounds E filters symbols =
     map_res (\<lambda>bs. (map lower bs, map upper bs))
       (collect_res (\<lambda>current. merge_bounds E filters current vr_default) symbols)"

section \<open>The compiler\<close>

text \<open>The number of instructions of an expression.\<close>

function (sequential) code_len :: "expr \<Rightarrow> nat"
  and args_len :: "expr list \<Rightarrow> nat"
  and clauses_len :: "(expr \<times> expr) list \<Rightarrow> nat" where
  "code_len (Binding v p) = 1"
| "code_len (Const v) = 1"
| "code_len (Apply op args) = args_len args + 1"
| "code_len (Cond cs) = clauses_len cs"
| "code_len (UnboundApply op args) = 0"
| "args_len [] = 0"
| "args_len (e # es) = code_len e + args_len es"
| "clauses_len [] = 0"
| "clauses_len ((c, e) # cs) = code_len c + code_len e + 2 + clauses_len cs"
  by pat_completeness auto
termination
  by (relation "measure (case_sum size (case_sum (size_list size) (size_list (size_prod size size))))") auto

lemmas expr_induct = code_len_args_len_clauses_len.induct
  [case_names Binding Const Apply Cond UnboundApply Nil Cons NoClause Clause]

text \<open>The code of an expression that starts at address \<open>k\<close>; the clauses of a conditional leave for \<open>z\<close>.\<close>

function (sequential) code :: "expr \<Rightarrow> nat \<Rightarrow> bytecode list"
  and code_args :: "expr list \<Rightarrow> nat \<Rightarrow> bytecode list"
  and code_clauses :: "(expr \<times> expr) list \<Rightarrow> nat \<Rightarrow> nat \<Rightarrow> bytecode list" where
  "code (Binding v p) k = [BcBinding v p]"
| "code (Const v) k = [BcConst v]"
| "code (Apply op args) k = code_args args k @ [BcApply op (length args)]"
| "code (Cond cs) k = code_clauses cs k (k + clauses_len cs)"
| "code (UnboundApply op _) k = []"
| "code_args [] k = []"
| "code_args (e # es) k = code e k @ code_args es (k + code_len e)"
| "code_clauses [] k z = []"
| "code_clauses ((c, e) # cs) k z =
     code c k @ JumpIfFalse (k + code_len c + code_len e + 2) # code e (k + code_len c + 1)
       @ Goto z # code_clauses cs (k + code_len c + code_len e + 2) z"
  by pat_completeness auto
termination
  by (relation "measure (case_sum (\<lambda>(e, _). size e)
    (case_sum (\<lambda>(es, _). size_list size es) (\<lambda>(cs, _, _). size_list (size_prod size size) cs)))") auto

lemma length_code [simp]:
  "length (code e k) = code_len e"
  "length (code_args es k) = args_len es"
  "length (code_clauses cs k z) = clauses_len cs"
  by (induction e and es and cs arbitrary: k and k and k z rule: expr_induct) auto

text \<open>The addresses of the jumps out of the clauses.\<close>

fun return_jumps :: "(expr \<times> expr) list \<Rightarrow> nat \<Rightarrow> nat list" where
  "return_jumps [] k = []"
| "return_jumps ((c, e) # cs) k =
     (k + code_len c + code_len e + 1) # return_jumps cs (k + code_len c + code_len e + 2)"

lemma amend_return_jumps:
  "foldl (\<lambda>c pos. c[pos := Goto z]) (pre @ code_clauses cs (length pre) 0) (return_jumps cs (length pre))
   = pre @ code_clauses cs (length pre) z"
proof (induction cs arbitrary: pre)
  case (Cons x cs)
  obtain c e where x: "x = (c, e)" by (cases x)
  let ?k = "length pre"
  let ?pre = "pre @ code c ?k @ JumpIfFalse (?k + code_len c + code_len e + 2) # code e (?k + code_len c + 1) @ [Goto z]"
  have len: "length ?pre = ?k + code_len c + code_len e + 2" by simp
  have "(pre @ code_clauses (x # cs) ?k 0)[?k + code_len c + code_len e + 1 := Goto z]
      = ?pre @ code_clauses cs (?k + code_len c + code_len e + 2) 0"
    by (simp add: x list_update_append nth_Cons split: nat.split)
  then show ?case using Cons.IH [of ?pre] by (simp add: x len [simplified] add.assoc)
qed simp

lemma foldl_amend_length [simp]: "length (foldl (\<lambda>c pos. c[pos := x]) c ps) = length c"
  by (induction ps arbitrary: c) simp_all

text \<open>What the compiler needs: only known functions, and conditionals whose last clause always holds.\<close>

function (sequential) compilable :: "expr \<Rightarrow> bool"
  and args_compilable :: "expr list \<Rightarrow> bool"
  and clauses_compilable :: "(expr \<times> expr) list \<Rightarrow> bool" where
  "compilable (Binding v p) = True"
| "compilable (Const v) = True"
| "compilable (Apply op args) = args_compilable args"
| "compilable (Cond cs) = (cs \<noteq> [] \<and> fst (last cs) = Const (Bool True) \<and> clauses_compilable cs)"
| "compilable (UnboundApply op args) = False"
| "args_compilable [] = True"
| "args_compilable (e # es) = (compilable e \<and> args_compilable es)"
| "clauses_compilable [] = True"
| "clauses_compilable ((c, e) # cs) = (compilable c \<and> compilable e \<and> clauses_compilable cs)"
  by pat_completeness auto
termination
  by (relation "measure (case_sum size (case_sum (size_list size) (size_list (size_prod size size))))") auto

lemma expr2bytecode_code:
  "compilable e \<Longrightarrow> expr2bytecode e c = Inr (c @ code e (length c))"
  "args_compilable es \<Longrightarrow> args2bytecode es c = Inr (c @ code_args es (length c))"
  "clauses_compilable cs \<Longrightarrow> clauses2bytecode cs c ps =
     Inr (c @ code_clauses cs (length c) 0, ps @ return_jumps cs (length c))"
proof (induction e and es and cs arbitrary: c and c and c ps rule: expr_induct)
  case (Cond cs)
  then show ?case using amend_return_jumps [of "length c + clauses_len cs" c cs] by simp
next
  case (Clause cd e cs)
  let ?n = "length c + code_len cd + code_len e + 2"
  have "(c @ code cd (length c) @ JumpIfFalse 0 # code e (length c + code_len cd + 1) @ [Goto 0])[length c + code_len cd := JumpIfFalse ?n]
     = c @ code cd (length c) @ JumpIfFalse ?n # code e (length c + code_len cd + 1) @ [Goto 0]"
    by (simp add: list_update_append)
  with Clause show ?case by (simp add: Let_def)
qed simp_all

lemma bc_run_step:
  assumes "C = pre @ i # post"
  shows "bc_run F b C (length pre) S =
    (case bc_step F b i (length pre) S of Inl x \<Rightarrow> Some (Inl x) | Inr (p, S) \<Rightarrow> bc_run F b C p S)"
  by (subst bc_run.simps) (simp add: assms)
text \<open>To go on with the value of a result, or to stop with its error.\<close>

definition run_on :: "'a result \<Rightarrow> ('a \<Rightarrow> 'b result option) \<Rightarrow> 'b result option" where
  "run_on r k = (case r of Inl x \<Rightarrow> Some (Inl x) | Inr v \<Rightarrow> k v)"

lemma run_on_simps [simp]:
  "run_on (Inr v) k = k v"
  "run_on (Inl x) k = Some (Inl x)"
  "run_on (bind_res r f) k = run_on r (\<lambda>v. run_on (f v) k)"
  "run_on (map_res g r) k = run_on r (\<lambda>v. k (g v))"
  by (cases r; simp add: run_on_def)+

lemma run_on_cong: "(\<And>v. r = Inr v \<Longrightarrow> k v = k' v) \<Longrightarrow> run_on r k = run_on r k'"
  by (cases r) simp_all

lemma length_eval_args: "eval_args F b es = Inr vs \<Longrightarrow> length vs = length es"
  by (induction es arbitrary: vs) (auto simp: bind_res_eq_Inr map_res_eq_Inr)

lemma bc_run_on:
  assumes "C = pre @ i # post"
  shows "bc_run F b C (length pre) S = run_on (bc_step F b i (length pre) S) (\<lambda>(p, S). bc_run F b C p S)"
  unfolding run_on_def by (rule bc_run_step [OF assms])

lemma bc_run_code:
  "compilable e \<Longrightarrow> C = pre @ code e (length pre) @ post \<Longrightarrow>
   bc_run F b C (length pre) S = run_on (eval F b e) (\<lambda>v. bc_run F b C (length pre + code_len e) (S @ [v]))"
  "args_compilable es \<Longrightarrow> C = pre @ code_args es (length pre) @ post \<Longrightarrow>
   bc_run F b C (length pre) S = run_on (eval_args F b es) (\<lambda>vs. bc_run F b C (length pre + args_len es) (S @ vs))"
  "clauses_compilable cs \<Longrightarrow> cs \<noteq> [] \<Longrightarrow> fst (last cs) = Const (Bool True) \<Longrightarrow>
   C = pre @ code_clauses cs (length pre) z @ post \<Longrightarrow>
   bc_run F b C (length pre) S = run_on (eval_clauses F b cs) (\<lambda>v. bc_run F b C z (S @ [v]))"
proof (induction e and es and cs arbitrary: pre post S and pre post S and pre post S z rule: expr_induct)
  case (Binding v p)
  then have "C = pre @ BcBinding v p # post" by simp
  from bc_run_on [OF this] show ?case by simp
next
  case (Const v)
  then have "C = pre @ BcConst v # post" by simp
  from bc_run_on [OF this] show ?case by simp
next
  case (Apply op args)
  let ?pre = "pre @ code_args args (length pre)"
  have C: "C = ?pre @ BcApply op (length args) # post" using Apply.prems by simp
  have "bc_run F b C (length pre) S = run_on (eval_args F b args) (\<lambda>vs. bc_run F b C (length ?pre) (S @ vs))"
    using Apply.IH Apply.prems by simp
  also have "\<dots> = run_on (eval_args F b args) (\<lambda>vs. run_on (raised (F op vs)) (\<lambda>v. bc_run F b C (length ?pre + 1) (S @ [v])))"
    by (rule run_on_cong, subst bc_run_on [OF C]) (simp add: length_eval_args Let_def)
  finally show ?case by simp
next
  case (Cond cs)
  then show ?case using Cond.IH [of pre "length pre + clauses_len cs"] by simp
next
  case (Cons e es)
  let ?pre = "pre @ code e (length pre)"
  have C1: "C = pre @ code e (length pre) @ code_args es (length ?pre) @ post"
    and C2: "C = ?pre @ code_args es (length ?pre) @ post" using Cons.prems by simp_all
  have "bc_run F b C (length ?pre) S = run_on (eval_args F b es) (\<lambda>vs. bc_run F b C (length ?pre + args_len es) (S @ vs))" for S
    using Cons.IH(2) [OF _ C2] Cons.prems by simp
  moreover have "bc_run F b C (length pre) S = run_on (eval F b e) (\<lambda>v. bc_run F b C (length ?pre) (S @ [v]))"
    using Cons.IH(1) [OF _ C1] Cons.prems by simp
  ultimately show ?case by (simp add: add.assoc)
next
  case (Clause c e cs)
  let ?n = "length pre + code_len c + code_len e + 2"
  let ?p1 = "pre @ code c (length pre)"
  let ?p2 = "?p1 @ JumpIfFalse ?n # []"
  let ?p3 = "?p2 @ code e (length ?p2)"
  let ?p4 = "?p3 @ Goto z # []"
  have C1: "C = pre @ code c (length pre) @ JumpIfFalse ?n # code e (length pre + code_len c + 1) @ Goto z
     # code_clauses cs ?n z @ post" using Clause.prems by simp
  have C2: "C = ?p1 @ JumpIfFalse ?n # code e (length pre + code_len c + 1) @ Goto z
     # code_clauses cs ?n z @ post" using C1 by simp
  have C3: "C = ?p2 @ code e (length ?p2) @ Goto z # code_clauses cs ?n z @ post" using C1 by simp
  have C4: "C = ?p3 @ Goto z # code_clauses cs ?n z @ post" using C1 by simp
  have C5: "C = ?p4 @ code_clauses cs (length ?p4) z @ post" using C1 by (simp add: add.assoc)
  have c: "bc_run F b C (length pre) S = run_on (eval F b c) (\<lambda>v. bc_run F b C (length ?p1) (S @ [v]))"
    using Clause.IH(1) [OF _ C1] Clause.prems(1) by simp
  have e: "bc_run F b C (length ?p2) S = run_on (eval F b e) (\<lambda>v. bc_run F b C z (S @ [v]))"
    using Clause.IH(2) [OF _ C3] Clause.prems(1) bc_run_on [OF C4, of F b] by (simp add: add.assoc)
  have j: "bc_run F b C (length ?p1) (S @ [v]) =
     run_on (ok_or (PredicateType v) (get_bool v)) (\<lambda>t. if t then bc_run F b C (length ?p2) S else bc_run F b C ?n S)" for v
    using bc_run_on [OF C2, of F b "S @ [v]"] by (simp add: if_distrib [of "\<lambda>p. bc_run F b C p S"] cong: if_cong)
  have r: "bc_run F b C ?n S = run_on (eval_clauses F b cs) (\<lambda>v. bc_run F b C z (S @ [v]))" if "cs \<noteq> []"
    using Clause.IH(3) [OF _ that _ C5] Clause.prems(1,3) that by (simp add: add.assoc)
  show ?case
  proof (cases "cs = []")
    case True
    then have "c = Const (Bool True)" using Clause.prems(3) by simp
    then show ?thesis using True c j e by simp
  next
    case False
    show ?thesis unfolding c j e r [OF False] by (simp add: if_distrib [of "\<lambda>r. run_on r _"])
  qed
qed simp_all
lemma args_compilable_iff: "args_compilable es \<longleftrightarrow> (\<forall>e \<in> set es. compilable e)"
  by (induction es) auto

lemma clauses_compilable_iff: "clauses_compilable cs \<longleftrightarrow> (\<forall>(c, e) \<in> set cs. compilable c \<and> compilable e)"
  by (induction cs) auto

lemma pair_in_chunks:
  "even (length es) \<Longrightarrow> p \<in> set (chunks 2 es) \<Longrightarrow> p ! 0 \<in> set es \<and> p ! 1 \<in> set es"
proof (induction "2 :: nat" es rule: chunks.induct)
  case (1 es)
  have "es \<noteq> []" using 1(3) by (auto simp: chunks.simps)
  moreover from this have "tl es \<noteq> []" using 1(2) by (cases es) auto
  ultimately obtain a b r where es: "es = a # b # r" by (metis list.collapse)
  have "chunks 2 es = [a, b] # chunks 2 r" by (subst chunks.simps) (simp add: es)
  then show ?case using 1 es by auto
qed

text \<open>The conditionals that the parser builds always have a last clause that holds.\<close>

lemma cond_expr_compilable:
  assumes "args_compilable es" "cond_expr es = Inr e"
  shows "compilable e"
proof -
  define as where "as = (if odd (length es) then butlast es @ [Const Null, last es] else es)"
  define cs where "cs = map (\<lambda>pair. (pair ! 0, pair ! 1)) (chunks 2 as)"
  have ne: "es \<noteq> []" using assms(2) by (auto simp: cond_expr_def)
  then have as: "even (length as)" "as \<noteq> []" "\<forall>e \<in> set as. compilable e"
    using assms(1) by (auto simp: as_def args_compilable_iff dest: in_set_butlastD)
  have "clauses_compilable cs"
    using as pair_in_chunks [OF as(1)] by (auto simp: cs_def clauses_compilable_iff)
  moreover have "cs \<noteq> []" using as(2) by (simp add: cs_def chunks.simps [of 2 as])
  moreover have "e = Cond (case fst (last cs) of Const (Bool True) \<Rightarrow> cs | _ \<Rightarrow> cs @ [(Const (Bool True), Const Null)])"
    using assms(2) ne unfolding cond_expr_def Let_def as_def [symmetric] cs_def [symmetric] by simp
  ultimately show ?thesis
    by (auto simp: clauses_compilable_iff split: expr.splits data_value.splits bool.splits)
qed

lemma if_expr_compilable: "args_compilable es \<Longrightarrow> if_expr es = Inr e \<Longrightarrow> compilable e"
  by (induction es rule: if_expr.induct) auto

text \<open>C4. Compiling is correct: an expression with known functions only, whose conditionals end in a
  clause that holds (as the parser builds them), compiles, and running its bytecode ends and gives
  what evaluating the expression gives, on every tuple and for every table of functions, errors
  and panics included.\<close>

theorem compile_correct:
  assumes "compilable e"
  shows "\<exists>codes. compile e = Inr codes \<and> (\<forall>F b. eval_bytecode F b codes = Some (eval F b e))"
proof (intro exI conjI allI)
  show "compile e = Inr (code e 0)"
    using expr2bytecode_code(1) [OF assms, of "[]"] by (simp add: compile_def)
  fix F b
  have "bc_run F b (code e 0) (code_len e) [v] = Some (Inr v)" for v
    by (subst bc_run.simps) simp
  then show "eval_bytecode F b (code e 0) = Some (eval F b e)"
    using bc_run_code(1) [OF assms, of "code e 0" "[]" "[]" F b "[]"]
    by (cases "eval F b e") (simp_all add: eval_bytecode_def)
qed

definition sample_table :: op_table where
  "sample_table = call_op sample_ext (\<lambda>_ _. Inl OpFailed)"

text \<open>\<open>if(x > 5, list(x))\<close> on the tuple \<open>[7]\<close>.\<close>

definition sample_expr :: expr where
  "sample_expr = Cond [(Apply ''OP_GT'' [Binding [120] (Some 0), Const (Num (NInt 5))],
     Apply ''OP_LIST'' [Binding [120] (Some 0)]), (Const (Bool True), Const Null)]"

theorem compile_correct_witness:
  "\<exists>codes. compile sample_expr = Inr codes
    \<and> eval_bytecode sample_table [Num (NInt 7)] codes = Some (Inr (List [Num (NInt 7)]))"
proof -
  have "compilable sample_expr" by (simp add: sample_expr_def)
  moreover have "eval sample_table [Num (NInt 7)] sample_expr = Inr (List [Num (NInt 7)])"
    by (simp add: sample_expr_def sample_table_def lookup_binding_def ensure_same_value_type_def
        dv_less_def cmp_of_def)
  ultimately show ?thesis using compile_correct by metis
qed

section \<open>Partial evaluation keeps values\<close>

lemma raised_eq_Inr [simp]: "raised r = Inr v \<longleftrightarrow> r = Inr v"
  by (cases r rule: raised.cases) auto

lemma eval_args_const: "list_all is_const es \<Longrightarrow> eval_args F b es = eval_args F b' es"
proof (induction es)
  case (Cons e es)
  then show ?case by (cases e) auto
qed simp

lemma drop_not_not_eval:
  assumes "eval (call_op E other) b e = Inr v"
  shows "\<exists>e'. drop_not_not e = Inr e' \<and> eval (call_op E other) b e' = Inr v"
  using assms
proof (cases e rule: drop_not_not.cases)
  case (1 op1 op2 args2 rest)
  show ?thesis
  proof (cases "op1 = ''OP_NEGATE'' \<and> op2 = ''OP_NEGATE''")
    case True
    with assms 1 show ?thesis
      by (cases args2) (auto simp: bind_res_eq_Inr map_res_eq_Inr split: data_value.splits)
  qed (use assms 1 in auto)
qed auto

lemma partial_eval_keeps:
  "F = call_op E other \<Longrightarrow> eval F b e = Inr v \<Longrightarrow> \<exists>e'. partial_eval F e = Inr e' \<and> eval F b e' = Inr v"
  "F = call_op E other \<Longrightarrow> eval_args F b es = Inr vs \<Longrightarrow> \<exists>es'. partial_eval_args F es = Inr es' \<and> eval_args F b es' = Inr vs"
proof (induction F e and F es arbitrary: v and vs rule: partial_eval_partial_eval_args.induct)
  case (1 F op args)
  from 1(3) obtain vs where vs: "eval_args F b args = Inr vs" "F op vs = Inr v"
    by (auto simp: bind_res_eq_Inr)
  from 1(1) [OF 1(2) vs(1)] obtain as where as: "partial_eval_args F args = Inr as" "eval_args F b as = Inr vs" by blast
  show ?case
  proof (cases "list_all is_const as")
    case True
    then have "eval_args F [] as = Inr vs" using as(2) eval_args_const by metis
    then show ?thesis using as(1) vs(2) True by simp
  next
    case False
    have "eval F b (Apply op as) = Inr v" using as vs by simp
    then show ?thesis using as(1) False drop_not_not_eval unfolding 1(2) by simp
  qed
next
  case (7 F e es)
  then show ?case by (fastforce simp: bind_res_eq_Inr map_res_eq_Inr)
qed auto
text \<open>Negation gets one argument, as the parser ensures.\<close>

fun unary_not :: "expr \<Rightarrow> bool" where
  "unary_not (Apply op args) \<longleftrightarrow> (op = ''OP_NEGATE'' \<longrightarrow> length args = 1) \<and> list_all unary_not args"
| "unary_not _ \<longleftrightarrow> True"

text \<open>No constant is left under a negation.\<close>

fun no_const_not :: "expr \<Rightarrow> bool" where
  "no_const_not (Apply op args) \<longleftrightarrow>
     \<not> (op = ''OP_NEGATE'' \<and> args \<noteq> [] \<and> is_const (hd args)) \<and> list_all no_const_not args"
| "no_const_not _ \<longleftrightarrow> True"

lemma drop_not_not_no_const:
  "no_const_not e \<Longrightarrow> drop_not_not e = Inr e' \<Longrightarrow> no_const_not e' \<and> (is_const e' \<longrightarrow> e' = e)"
  by (cases e rule: drop_not_not.cases) (auto split: if_splits list.splits)

lemma partial_eval_no_const:
  "unary_not e \<Longrightarrow> partial_eval F e = Inr e' \<Longrightarrow> no_const_not e'
    \<and> (\<forall>v. e' = Const v \<longrightarrow> eval F b e = Inr v)"
  "list_all unary_not es \<Longrightarrow> partial_eval_args F es = Inr es' \<Longrightarrow>
     length es' = length es \<and> list_all no_const_not es' \<and> (list_all is_const es' \<longrightarrow> eval_args F b es = eval_args F b es')"
proof (induction F e and F es arbitrary: e' and es' rule: partial_eval_partial_eval_args.induct)
  case (1 F op args)
  from 1(3) obtain as where as: "partial_eval_args F args = Inr as"
    and e': "bind_res (if list_all is_const as then map_res Const (eval F [] (Apply op as))
               else Inr (Apply op as)) drop_not_not = Inr e'"
    by (auto simp: bind_res_eq_Inr)
  have u: "list_all unary_not args" "op = ''OP_NEGATE'' \<longrightarrow> length args = 1" using 1(2) by auto
  note ih = 1(1) [OF u(1) as]
  show ?case
  proof (cases "list_all is_const as")
    case True
    then obtain v where v: "eval F [] (Apply op as) = Inr v" "e' = Const v"
      using e' by (auto simp: bind_res_eq_Inr map_res_eq_Inr simp del: eval.simps)
    have "eval F b (Apply op args) = eval F [] (Apply op as)"
      using ih True eval_args_const [OF True, of F b "[]"] by simp
    then show ?thesis using v by simp
  next
    case False
    then have d: "drop_not_not (Apply op as) = Inr e'" using e' by simp
    have "no_const_not (Apply op as)"
      using ih u(2) False by (cases as) auto
    with drop_not_not_no_const [OF this d] show ?thesis by auto
  qed
next
  case (7 F e es)
  from 7(4) obtain x xs where x: "partial_eval F e = Inr x" "partial_eval_args F es = Inr xs" "es' = x # xs"
    by (auto simp: bind_res_eq_Inr map_res_eq_Inr)
  have "eval F b e = eval F b x" if "is_const x"
    using 7(1) [OF _ x(1)] 7(3) that by (cases x) auto
  then show ?case using 7(1) [OF _ x(1)] 7(2) [OF _ x(2)] 7(3) x(3) by auto
qed auto

lemma eval_to_const_Inr: "eval_to_const F e = Inr c \<longleftrightarrow> partial_eval F e = Inr (Const c)"
  unfolding eval_to_const_def by (cases "partial_eval F e") (simp_all split: expr.split)

text \<open>C10. Partial evaluation keeps what an expression over deterministic functions means: where the expression has a value on a
  tuple, partial evaluation succeeds and its result has the same value there (an error of partial
  evaluation is an error on every tuple); and an expression that evaluates to a constant has that
  value on every tuple.\<close>

theorem partial_eval_sound:
  "(eval (call_op E other) b e = Inr v \<longrightarrow>
     (\<exists>e'. partial_eval (call_op E other) e = Inr e' \<and> eval (call_op E other) b e' = Inr v))
   \<and> (unary_not e \<longrightarrow> eval_to_const (call_op E other) e = Inr c \<longrightarrow> eval (call_op E other) b e = Inr c)"
  using partial_eval_keeps(1) [OF refl, of E other b e v] partial_eval_no_const(1) [of e "call_op E other" _ b]
  by (simp add: eval_to_const_Inr)

text \<open>\<open>!!(x > 5)\<close> loses its negations; \<open>!(1 > 5)\<close> is a constant.\<close>

theorem partial_eval_sound_witness:
  "\<exists>e'. partial_eval sample_table (negate (negate (Apply ''OP_GT'' [Binding [120] (Some 0), Const (Num (NInt 5))]))) = Inr e'
     \<and> eval sample_table [Num (NInt 7)] e' = Inr (Bool True)
     \<and> eval sample_table [] (negate (Apply ''OP_GT'' [Const (Num (NInt 1)), Const (Num (NInt 5))])) = Inr (Bool True)"
proof -
  let ?e = "negate (negate (Apply ''OP_GT'' [Binding [120] (Some 0), Const (Num (NInt 5))]))"
  let ?k = "negate (Apply ''OP_GT'' [Const (Num (NInt 1)), Const (Num (NInt 5))])"
  have "eval sample_table [Num (NInt 7)] ?e = Inr (Bool True)"
    by (simp add: negate_def sample_table_def lookup_binding_def ensure_same_value_type_def dv_less_def cmp_of_def)
  moreover have "unary_not ?k" by (simp add: negate_def)
  moreover have "eval_to_const sample_table ?k = Inr (Bool True)"
    by (simp add: eval_to_const_def negate_def sample_table_def ensure_same_value_type_def dv_less_def cmp_of_def)
  ultimately show ?thesis
    using partial_eval_sound [of sample_ext "\<lambda>_ _. Inl OpFailed" "[Num (NInt 7)]" ?e "Bool True" Null]
      partial_eval_sound [of sample_ext "\<lambda>_ _. Inl OpFailed" "[]" ?k Null "Bool True"]
    unfolding sample_table_def by blast
qed

end
