(* ===== verification/Bounds.thy ===== *)
theory Bounds
  imports Exprs Relations
begin

text \<open>
  Range scans for filtered joins (\<open>compute_bounds\<close> in \<open>data/expr.rs\<close> with
  \<open>scan_bounded_prefix\<close> of \<open>runtime/relation.rs\<close>, as \<open>query/ra.rs\<close> puts them together): what a
  filter that holds says about the stored order of a column, that the bounds of several filters
  keep every row the filters let through, where they do not, and the bounded scan of a stored
  relation as a filtered prefix scan.
\<close>

section \<open>What a comparison says about the stored order\<close>

lemma Null_least [simp]: "dv_le E Null x"
  by (cases x) (simp_all add: dv_le_def cmp_of_def)

lemma Bot_greatest [simp]: "dv_le E x Bot"
  by (cases x) (simp_all add: dv_le_def cmp_of_def)

text \<open>The constants and values on which the bounds agree with the comparison: a float constant below is
  an integer only if it is one that floats represent exactly, and minus zero is not compared with
  an integer.\<close>

fun lower_safe :: "data_value \<Rightarrow> data_value \<Rightarrow> bool" where
  "lower_safe (Num (NFloat f)) x \<longleftrightarrow>
     (f64_is_integral f \<longrightarrow> exact_int (f64_as_i64 f) \<and> i64_as_f64 (f64_as_i64 f) = f)"
| "lower_safe (Num (NInt i)) x \<longleftrightarrow> (case x of Num (NFloat f) \<Rightarrow> total_key f \<noteq> - 1 | _ \<Rightarrow> True)"
| "lower_safe _ x \<longleftrightarrow> True"

fun upper_safe :: "data_value \<Rightarrow> data_value \<Rightarrow> bool" where
  "upper_safe (Num (NFloat f)) x \<longleftrightarrow> (case x of Num (NInt i) \<Rightarrow> total_key f \<noteq> - 1 | _ \<Rightarrow> True)"
| "upper_safe _ x \<longleftrightarrow> True"

lemma ensure_same_num: "ensure_same_value_type (Num a) x = Inr () \<longleftrightarrow> (\<exists>b. x = Num b)"
  "ensure_same_value_type x (Num a) = Inr () \<longleftrightarrow> (\<exists>b. x = Num b)"
  by (cases x; simp add: ensure_same_value_type_def)+

lemma num_le_key:
  "dv_le E (Num a) (Num b) \<longleftrightarrow>
     total_key (num_get_float a) < total_key (num_get_float b)
     \<or> num_get_float a = num_get_float b \<and> (is_Float a < is_Float b \<or> is_Float a = is_Float b \<and> int_key a \<le> int_key b)"
  unfolding dv_le_def dv_cmp.simps data_value.case number_cmp_key total_cmp_def
  by (auto simp: cmp_of_def total_key_eq_iff)
text \<open>All four comparisons say that one operand is at most the other.\<close>

definition at_most :: "ext \<Rightarrow> data_value \<Rightarrow> data_value \<Rightarrow> bool" where
  "at_most E a b \<longleftrightarrow> op_le E [a, b] = Inr (Bool True)"

lemma same_type_sym: "ensure_same_value_type a b = ensure_same_value_type b a"
  by (cases a; cases b; simp add: ensure_same_value_type_def)

lemma at_most_num:
  "at_most E (Num (NInt i)) (Num (NInt j)) \<longleftrightarrow> sint i \<le> sint j"
  "at_most E (Num (NInt i)) (Num (NFloat f)) \<longleftrightarrow> f64_le (i64_as_f64 i) f"
  "at_most E (Num (NFloat f)) (Num (NInt i)) \<longleftrightarrow> f64_le f (i64_as_f64 i)"
  "at_most E (Num (NFloat f)) (Num (NFloat g)) \<longleftrightarrow> total_key f \<le> total_key g"
  by (auto simp: at_most_def ensure_same_value_type_def dv_le_def total_cmp_def cmp_of_def)

lemma same_type_num [simp]: "ensure_same_value_type (Num a) (Num b) = Inr ()"
  by (simp add: ensure_same_value_type_def)

lemma at_most_kind:
  assumes "at_most E a b"
  shows "(\<exists>n. a = Num n) \<longleftrightarrow> (\<exists>n. b = Num n)" "\<nexists>n. a = Num n \<Longrightarrow> dv_le E a b"
proof -
  have "ensure_same_value_type a b = Inr ()" using assms by (auto simp: at_most_def bind_res_eq_Inr)
  then show "(\<exists>n. a = Num n) \<longleftrightarrow> (\<exists>n. b = Num n)" using ensure_same_num by metis
  show "dv_le E a b" if "\<nexists>n. a = Num n"
    using assms that by (auto simp: at_most_def bind_res_eq_Inr by_number_other)
qed

lemma comparison_at_most:
  "op_le E (a # b # vs) = Inr (Bool True) \<Longrightarrow> at_most E a b"
  "op_lt E (a # b # vs) = Inr (Bool True) \<Longrightarrow> at_most E a b"
  "op_ge E (a # b # vs) = Inr (Bool True) \<Longrightarrow> at_most E b a"
  "op_gt E (a # b # vs) = Inr (Bool True) \<Longrightarrow> at_most E b a"
proof -
  consider (num) m n where "a = Num m" "b = Num n" | (other) "(\<nexists>n. a = Num n) \<or> (\<nexists>n. b = Num n)" by blast
  note kinds = this
  show "op_le E (a # b # vs) = Inr (Bool True) \<Longrightarrow> at_most E a b"
    by (simp add: at_most_def)
  show "at_most E a b" if "op_lt E (a # b # vs) = Inr (Bool True)"
    using kinds
  proof cases
    case (num m n)
    then show ?thesis using that
      by (cases m; cases n) (auto simp: at_most_def dv_less_le f64_lt_def f64_le_def)
  next
    case other
    then show ?thesis using that by (auto simp: at_most_def bind_res_eq_Inr by_number_other dv_less_le)
  qed
  show "at_most E b a" if "op_ge E (a # b # vs) = Inr (Bool True)"
    using kinds
  proof cases
    case (num m n)
    then show ?thesis using that
      by (cases m; cases n) (auto simp: at_most_def)
  next
    case other
    then show ?thesis using that
      by (auto simp: at_most_def bind_res_eq_Inr by_number_other same_type_sym [of b a])
  qed
  show "at_most E b a" if "op_gt E (a # b # vs) = Inr (Bool True)"
    using kinds
  proof cases
    case (num m n)
    then show ?thesis using that
      by (cases m; cases n) (auto simp: at_most_def dv_less_le f64_lt_def f64_le_def)
  next
    case other
    then show ?thesis using that
      by (auto simp: at_most_def bind_res_eq_Inr by_number_other dv_less_le same_type_sym [of b a])
  qed
qed

lemma lower_bound_sound:
  assumes "at_most E c x" "lower_safe c x"
  shows "dv_le E (int_bound c) x"
proof (cases "\<exists>n. c = Num n")
  case False
  then show ?thesis using at_most_kind(2) [OF assms(1)] by (cases c) (auto simp: int_bound_def)
next
  case True
  then obtain m n where c: "c = Num m" and x: "x = Num n" using at_most_kind(1) [OF assms(1)] by auto
  show ?thesis
  proof (cases m)
    case m: (NInt i)
    show ?thesis
    proof (cases n)
      case (NFloat f)
      then have "total_key (i64_as_f64 i) \<le> total_key f"
        using assms c x m by (intro f64_le_total) (auto simp: at_most_num)
      then show ?thesis using c x m NFloat by (auto simp: int_bound_def num_le_key total_key_eq_iff order_le_less)
    qed (use assms c x m i64_as_f64_mono in \<open>auto simp: int_bound_def num_le_key at_most_num order_le_less total_key_eq_iff\<close>)
  next
    case m: (NFloat f)
    show ?thesis
    proof (cases "f64_is_integral f")
      case True
      let ?i = "f64_as_i64 f"
      have i: "exact_int ?i" "i64_as_f64 ?i = f" using True assms(2) c m by auto
      show ?thesis
      proof (cases n)
        case n: (NInt j)
        have "total_key (i64_as_f64 ?i) \<le> total_key (i64_as_f64 j)"
          using assms(1) c x m n i(2) i64_as_f64_not_neg_zero by (intro f64_le_total) (auto simp: at_most_num)
        then show ?thesis using exact_int_le [OF i(1)] c x m n True
          by (auto simp: int_bound_def num_le_key order_le_less total_key_eq_iff)
      next
        case n: (NFloat g)
        then have "total_key f \<le> total_key g" using assms(1) c x m by (simp add: at_most_num)
        then show ?thesis using i c x m n True
          by (auto simp: int_bound_def num_le_key order_le_less total_key_eq_iff)
      qed
    next
      case False
      then have "int_bound c = c" using c m by (simp add: int_bound_def)
      moreover have "total_key f < total_key (i64_as_f64 j)" if n: "n = NInt j" for j
      proof -
        have "total_key f \<le> total_key (i64_as_f64 j)"
          using assms(1) c x m n i64_as_f64_not_neg_zero by (intro f64_le_total) (auto simp: at_most_num)
        moreover have "f \<noteq> i64_as_f64 j" using False i64_as_f64_integral by metis
        ultimately show ?thesis using total_key_eq_iff order_le_less by blast
      qed
      ultimately show ?thesis using assms(1) c x m
        by (cases n) (auto simp: at_most_num num_le_key order_le_less total_key_eq_iff)
    qed
  qed
qed

lemma upper_bound_sound:
  assumes "at_most E x c" "upper_safe c x"
  shows "dv_le E x (float_bound c)"
proof (cases "\<exists>n. c = Num n")
  case False
  then have "\<nexists>n. x = Num n" using at_most_kind(1) [OF assms(1)] by blast
  then show ?thesis using False at_most_kind(2) [OF assms(1)] by (cases c) (auto simp: float_bound_def)
next
  case True
  then obtain m n where c: "c = Num m" and x: "x = Num n" using at_most_kind(1) [OF assms(1)] by auto
  have "total_key (num_get_float n) \<le> total_key (num_get_float m)"
  proof (cases m; cases n)
    fix i j assume mn: "m = NInt i" "n = NInt j"
    then show ?thesis using assms(1) c x i64_as_f64_mono [of j i] by (simp add: at_most_num)
  next
    fix i f assume "m = NInt i" "n = NFloat f"
    then show ?thesis using assms(1) c x f64_le_total i64_as_f64_not_neg_zero by (simp add: at_most_num)
  next
    fix f i assume "m = NFloat f" "n = NInt i"
    then show ?thesis using assms c x f64_le_total by (simp add: at_most_num)
  next
    fix f g assume "m = NFloat f" "n = NFloat g"
    then show ?thesis using assms(1) c x by (simp add: at_most_num)
  qed
  then show ?thesis
    using c x by (cases n) (auto simp: float_bound_def num_le_key order_le_less total_key_eq_iff)
qed

lemma bytes_cmp_prefix: "bytes_cmp s (s @ t) \<noteq> Greater"
  using bytes_cmp_same_prefix [of s "[]" t] by (cases t) auto

lemma starts_with_sound:
  assumes "prefix s l" "bytes_cmp (drop (length s) l) LARGEST_UTF_CHAR \<noteq> Greater"
  shows "dv_le E (Str s) (Str l)" "dv_le E (Str l) (Str (s @ LARGEST_UTF_CHAR))"
  using assms bytes_cmp_prefix by (auto simp: dv_le_def prefix_def)
section \<open>Filters and their bounds\<close>

fun filter_safe :: "symbol \<Rightarrow> expr \<Rightarrow> data_value \<Rightarrow> bool" where
  "filter_safe target (Apply op (a # b # _)) x \<longleftrightarrow>
     (if op = ''OP_GE'' \<or> op = ''OP_GT'' then
        (case against target a b of Some c \<Rightarrow> lower_safe c x | None \<Rightarrow>
        (case against target b a of Some c \<Rightarrow> upper_safe c x | None \<Rightarrow> True))
      else if op = ''OP_LE'' \<or> op = ''OP_LT'' then
        (case against target a b of Some c \<Rightarrow> upper_safe c x | None \<Rightarrow>
        (case against target b a of Some c \<Rightarrow> lower_safe c x | None \<Rightarrow> True))
      else if op = ''OP_STARTS_WITH'' then
        (case (against target a b, x) of
           (Some (Str s), Str l) \<Rightarrow> bytes_cmp (drop (length s) l) LARGEST_UTF_CHAR \<noteq> Greater
         | _ \<Rightarrow> True)
      else True)"
| "filter_safe _ _ _ \<longleftrightarrow> True"

lemma against_Some: "against target a b = Some c \<longleftrightarrow> (\<exists>p. a = Binding target p) \<and> b = Const c"
  by (cases a; cases b) (auto simp: against_def)

lemma eval_filled:
  assumes "fill_binding_indices m e = Inr e'" "eval F row e' = Inr v"
  shows "e = Binding s p \<Longrightarrow> m s = Some i \<Longrightarrow> v = row ! i" "e = Const c \<Longrightarrow> v = c"
  using assms by (auto simp: map_res_eq_Inr lookup_binding_def split: if_splits)

lemma eval_filled_apply:
  assumes "fill_binding_indices m (Apply op (a # b # rest)) = Inr f'" "eval F row f' = Inr v" "m s = Some i"
  obtains x y vs where "F op (x # y # vs) = Inr v"
    "\<And>c. against s a b = Some c \<Longrightarrow> x = row ! i \<and> y = c" "\<And>c. against s b a = Some c \<Longrightarrow> y = row ! i \<and> x = c"
proof -
  from assms(1) obtain a' b' rest' where f: "fill_binding_indices m a = Inr a'" "fill_binding_indices m b = Inr b'"
    "f' = Apply op (a' # b' # rest')"
    by (auto simp: map_res_eq_Inr bind_res_eq_Inr)
  with assms(2) obtain x y vs where v: "eval F row a' = Inr x" "eval F row b' = Inr y" "F op (x # y # vs) = Inr v"
    by (auto simp: map_res_eq_Inr bind_res_eq_Inr)
  show thesis
    by (rule that [OF v(3)]) (auto simp: against_Some eval_filled [OF f(1) v(1)] eval_filled [OF f(2) v(2)] assms(3))
qed

lemma vr_bounds [simp]:
  "lower vr_default = Null" "upper vr_default = Bot"
  "lower (vr_lower_bound v) = v" "upper (vr_lower_bound v) = Bot"
  "lower (vr_upper_bound v) = Null" "upper (vr_upper_bound v) = v"
  by (simp_all add: vr_default_def vr_lower_bound_def vr_upper_bound_def)

lemma extract_bound_sound:
  assumes "fill_binding_indices m f = Inr f'" "eval (call_op E other) row f' = Inr (Bool True)" "m s = Some i"
    and "extract_bound s f = Inr r" "filter_safe s f (row ! i)"
  shows "dv_le E (lower r) (row ! i) \<and> dv_le E (row ! i) (upper r)"
proof (cases "r = vr_default")
  case False
  then obtain op args where f: "f = Apply op args" using assms(4) by (cases f) auto
  have "\<exists>a b rest. args = a # b # rest"
    using assms(4) False unfolding f by (auto split: if_splits list.splits option.splits)
  then obtain a b rest where args: "args = a # b # rest" by blast
  obtain x y vs where op: "call_op E other op (x # y # vs) = Inr (Bool True)"
    and xy: "\<And>c. against s a b = Some c \<Longrightarrow> x = row ! i \<and> y = c" "\<And>c. against s b a = Some c \<Longrightarrow> y = row ! i \<and> x = c"
    by (rule eval_filled_apply [OF assms(1) [unfolded f args] assms(2,3)]) (rule that)
  note safe = assms(5) [unfolded f args] and bound = assms(4) [unfolded f args]
  consider "op = ''OP_GE'' \<or> op = ''OP_GT''" | "op = ''OP_LE'' \<or> op = ''OP_LT''" | "op = ''OP_STARTS_WITH''"
    using bound False by (auto split: if_splits)
  then show ?thesis
  proof cases
    case 1
    then have le: "at_most E y x" using op comparison_at_most by auto
    from 1 bound False consider c where "against s a b = Some c" "r = vr_lower_bound (int_bound c)"
      | c where "against s a b = None" "against s b a = Some c" "r = vr_upper_bound (float_bound c)"
      by (auto split: option.splits)
    then show ?thesis
    proof cases
      case (1 c)
      then show ?thesis using xy(1) [OF 1(1)] le safe \<open>op = _ \<or> _\<close> lower_bound_sound by auto
    next
      case (2 c)
      then show ?thesis using xy(2) [OF 2(2)] le safe \<open>op = _ \<or> _\<close> upper_bound_sound by auto
    qed
  next
    case 2
    then have le: "at_most E x y" using op comparison_at_most by auto
    from 2 bound False consider c where "against s a b = Some c" "r = vr_upper_bound (float_bound c)"
      | c where "against s a b = None" "against s b a = Some c" "r = vr_lower_bound (int_bound c)"
      by (auto split: option.splits)
    then show ?thesis
    proof cases
      case (1 c)
      then show ?thesis using xy(1) [OF 1(1)] le safe \<open>op = _ \<or> _\<close> upper_bound_sound by auto
    next
      case (2 c)
      then show ?thesis using xy(2) [OF 2(2)] le safe \<open>op = _ \<or> _\<close> lower_bound_sound by auto
    qed
  next
    case 3
    from 3 bound False obtain c t where c: "against s a b = Some c" "get_str c = Some t"
      "r = \<lparr>lower = Str t, upper = Str (t @ LARGEST_UTF_CHAR)\<rparr>"
      by (auto split: option.splits)
    then have "c = Str t" by (cases c) auto
    moreover from this obtain l where "row ! i = Str l" "prefix t l"
      using op xy(1) [OF c(1)] 3 by (auto split: data_value.splits)
    ultimately show ?thesis using c safe 3 starts_with_sound by auto
  qed
qed auto
definition in_bounds :: "ext \<Rightarrow> value_range \<Rightarrow> data_value \<Rightarrow> bool" where
  "in_bounds E r x \<longleftrightarrow> dv_le E (lower r) x \<and> dv_le E x (upper r)"

lemma vr_merge_sound:
  assumes "ext_ok E" "in_bounds E a x" "in_bounds E b x"
  shows "in_bounds E (vr_merge E a b) x"
proof -
  have l: "dv_le E (dv_max E (lower a) (lower b)) x" and u: "dv_le E x (dv_min E (upper a) (upper b))"
    using assms(2,3) by (simp_all add: in_bounds_def dv_max_def dv_min_def)
  then have "dv_cmp E (dv_max E (lower a) (lower b)) (dv_min E (upper a) (upper b)) \<noteq> Greater"
    using dv_le_trans [OF assms(1) l u] by (simp add: dv_le_def)
  then show ?thesis using l u by (simp add: vr_merge_def in_bounds_def Let_def)
qed

text \<open>A tuple passes a filter whose variables are resolved by \<open>m\<close>.\<close>

definition passes :: "ext \<Rightarrow> op_table \<Rightarrow> (symbol \<Rightarrow> nat option) \<Rightarrow> tuple \<Rightarrow> expr \<Rightarrow> bool" where
  "passes E other m row f \<longleftrightarrow>
     (\<exists>f'. fill_binding_indices m f = Inr f' \<and> eval (call_op E other) row f' = Inr (Bool True))"

lemma merge_bounds_sound:
  assumes "ext_ok E" "m s = Some i"
  shows "merge_bounds E fs s r = Inr r' \<Longrightarrow> in_bounds E r (row ! i) \<Longrightarrow>
    (\<forall>f \<in> set fs. passes E other m row f \<and> filter_safe s f (row ! i)) \<Longrightarrow> in_bounds E r' (row ! i)"
proof (induction fs arbitrary: r)
  case (Cons f fs)
  from Cons.prems(1) obtain n where n: "extract_bound s f = Inr n" "merge_bounds E fs s (vr_merge E r n) = Inr r'"
    by (auto simp: bind_res_eq_Inr)
  have "in_bounds E n (row ! i)"
    using Cons.prems(3) extract_bound_sound [of m f _ E other row s i n] assms(2) n(1)
    by (auto simp: passes_def in_bounds_def)
  then show ?case using Cons n(2) vr_merge_sound [OF assms(1)] by simp
qed simp

lemma compute_bounds_sound:
  assumes "ext_ok E" "compute_bounds E fs syms = Inr (lo, up)"
    and "\<forall>k < length syms. m (syms ! k) = Some (n + k)"
    and "\<forall>f \<in> set fs. passes E other m row f \<and> (\<forall>k < length syms. filter_safe (syms ! k) f (row ! (n + k)))"
  shows "length lo = length syms \<and> length up = length syms
    \<and> (\<forall>k < length syms. dv_le E (lo ! k) (row ! (n + k)) \<and> dv_le E (row ! (n + k)) (up ! k))"
proof -
  obtain bs where bs: "list_all2 (\<lambda>s r. merge_bounds E fs s vr_default = Inr r) syms bs"
    "lo = map lower bs" "up = map upper bs"
    using assms(2) by (auto simp: compute_bounds_def map_res_eq_Inr collect_res_eq_Inr)
  have len: "length bs = length syms" using bs(1) by (simp add: list_all2_lengthD)
  have "in_bounds E (bs ! k) (row ! (n + k))" if k: "k < length syms" for k
  proof (rule merge_bounds_sound [OF assms(1)])
    show "m (syms ! k) = Some (n + k)" using assms(3) k by blast
    show "merge_bounds E fs (syms ! k) vr_default = Inr (bs ! k)" using bs(1) k by (rule list_all2_nthD)
    show "\<forall>f \<in> set fs. passes E other m row f \<and> filter_safe (syms ! k) f (row ! (n + k))" using assms(4) k by blast
  qed (simp add: in_bounds_def)
  then show ?thesis using bs len by (simp add: in_bounds_def)
qed

section \<open>Bounded scans\<close>

lemma lex_cmp_le:
  "list_all2 (\<lambda>x y. c x y \<noteq> Greater) xs ys \<Longrightarrow> lex_cmp c xs ys \<noteq> Greater"
proof (induction rule: list_all2_induct)
  case (Cons x xs y ys)
  then show ?case by (cases "c x y") simp_all
qed simp

lemma bounded_range:
  assumes "list_all memcmp_ordered (pre @ rest)" "list_all memcmp_ordered lo" "list_all memcmp_ordered up"
    and "list_all2 (dv_le E) lo rest" "list_all2 (dv_le E) rest up"
  shows "in_range (encode_as_key rid (pre @ lo)) (encode_as_key rid (pre @ up @ [Bot])) (encode_as_key rid (pre @ rest))"
proof -
  have le: "lex_cmp (dv_cmp E) lo rest \<noteq> Greater" "lex_cmp (dv_cmp E) rest up \<noteq> Greater"
    using assms(4,5) by (auto intro!: lex_cmp_le simp: dv_le_def [abs_def])
  note len = list_all2_lengthD [OF assms(4)] list_all2_lengthD [OF assms(5)]
  have "bytes_cmp (encode_as_key rid (pre @ lo)) (encode_as_key rid (pre @ rest)) \<noteq> Greater"
    using dv_enc.enc_seq_cmp [of lo rest "[]" "[]" E] le(1) assms(1,2) len
    by (cases "lex_cmp (dv_cmp E) lo rest") (simp_all add: encode_as_key_append list_all_iff)
  moreover have "bytes_cmp (encode_as_key rid (pre @ rest)) (encode_as_key rid (pre @ up @ [Bot])) = Less"
    using dv_enc.enc_seq_cmp [of rest up "[]" "encode_datavalue Bot" E] le(2) assms(1,3) len
    by (cases "lex_cmp (dv_cmp E) rest up") (simp_all add: encode_as_key_append list_all_iff)
  ultimately show ?thesis by (simp add: in_range_def bytes_le_def bytes_less_def)
qed
context store_tx
begin

lemma bounded_scan_entries:
  assumes "inv tx" "ext_ok E" "wf_tuple E pre" "bytes_le (encode_as_key rid (pre @ lo)) (encode_as_key rid (pre @ up))"
  shows "\<exists>es. range_scan tx (encode_as_key rid (pre @ lo)) (encode_as_key rid (pre @ up)) = Some es \<and> bt_inv es
    \<and> (\<forall>k val. wf_tuple E k \<and> length pre \<le> length k
          \<and> (take (length pre) k = pre \<longrightarrow> in_range (encode_as_key rid (pre @ lo)) (encode_as_key rid (pre @ up)) (encode_as_key rid k)) \<longrightarrow>
         ((encode_as_key rid k, val) \<in> set es \<longleftrightarrow> get tx (encode_as_key rid k) = Some val \<and> take (length pre) k = pre))"
proof -
  obtain es where es: "range_scan tx (encode_as_key rid (pre @ lo)) (encode_as_key rid (pre @ up)) = Some es" "bt_inv es"
    using scan_view [OF assms(1,4)] by blast
  then show ?thesis
    using scan_entries [OF assms(1,4) es(1)] range_has_prefix [OF assms(2,3)] get_view [OF assms(1)]
    by (intro exI [of _ es]) auto
qed

end

lemma merge_bounds_ordered:
  assumes "ext_ok E"
  shows "merge_bounds E fs s r = Inr r' \<Longrightarrow> dv_le E (lower r) (upper r) \<Longrightarrow> dv_le E (lower r') (upper r')"
proof (induction fs arbitrary: r)
  case (Cons f fs)
  have "dv_le E (lower (vr_merge E r n)) (upper (vr_merge E r n))" for n
    using dv_le_refl [OF assms] by (auto simp: vr_merge_def vr_null_def dv_le_def Let_def)
  then show ?case using Cons by (auto simp: bind_res_eq_Inr)
qed simp

lemma compute_bounds_ordered:
  assumes "ext_ok E" "compute_bounds E fs syms = Inr (lo, up)"
  shows "list_all2 (dv_le E) lo up \<and> length lo = length syms"
proof -
  obtain bs where bs: "list_all2 (\<lambda>s r. merge_bounds E fs s vr_default = Inr r) syms bs"
    "lo = map lower bs" "up = map upper bs"
    using assms(2) by (auto simp: compute_bounds_def map_res_eq_Inr collect_res_eq_Inr)
  have "dv_le E (lower r) (upper r)" if "merge_bounds E fs s vr_default = Inr r" for s r
    using merge_bounds_ordered [OF assms(1) that] by simp
  then show ?thesis using bs
    by (auto simp: list_all2_map1 list_all2_map2 list_all2_conv_all_nth)
qed

lemma bounded_scan_bounds:
  assumes "ext_ok E" "compute_bounds E fs syms = Inr (lo, up)" "list_all memcmp_ordered (pre @ lo @ up)"
  shows "bytes_le (encode_as_key rid (pre @ lo)) (encode_as_key rid (pre @ up @ [Bot]))"
proof -
  have "list_all2 (dv_le E) lo lo" by (simp add: list_all2_same dv_le_refl [OF assms(1)])
  then have "in_range (encode_as_key rid (pre @ lo)) (encode_as_key rid (pre @ up @ [Bot])) (encode_as_key rid (pre @ lo))"
    using bounded_range [of pre lo lo up E rid] compute_bounds_ordered [OF assms(1,2)] assms(3) by simp
  then show ?thesis by (simp add: in_range_def bytes_less_imp_le)
qed

section \<open>Properties\<close>

text \<open>C5. A scan bounded by the filters of a join finds what the filters let through: the bounds are in
  order (so the scan does not panic), and a row whose tuple passes the filters is listed exactly
  when it is stored and its key begins with the prefix of the join, provided its values are ones on
  which the comparisons and the stored order agree.  Bounds are computed for the key columns after
  the prefix.\<close>

theorem bounded_scan_complete:
  assumes "ext_ok E" "session_inv tx" "compute_bounds E fs syms = Inr (lo, up)"
    and "wf_tuple E pre" "list_all memcmp_ordered (pre @ lo @ up)"
    and "length pre + length syms = length (keys (metadata h))"
    and "\<forall>j < length syms. m (syms ! j) = Some (length pre + j)"
  shows "\<exists>es. scan_bounded_prefix E from_slice h tx pre lo up =
      Some (map (\<lambda>(k, v). try_decode_tuple_from_kv E from_slice k v) es)
    \<and> sorted_wrt bytes_less (map fst es)
    \<and> (\<forall>k vals val. wf_tuple E k \<and> list_all memcmp_ordered k \<and> length k = length (keys (metadata h))
        \<and> (\<forall>f \<in> set fs. passes E other m (k @ vals) f
             \<and> (\<forall>j < length syms. filter_safe (syms ! j) f (k ! (length pre + j)))) \<longrightarrow>
         ((encode_as_key (rel_id h) k, val) \<in> set es \<longleftrightarrow>
           raw_get h tx (encode_as_key (rel_id h) k) = Some val \<and> take (length pre) k = pre))"
proof -
  let ?lo = "encode_as_key (rel_id h) (pre @ lo)" and ?up = "encode_as_key (rel_id h) (pre @ up @ [Bot])"
  have r: "in_range ?lo ?up (encode_as_key (rel_id h) k)"
    if k: "list_all memcmp_ordered k" "length k = length (keys (metadata h))" "take (length pre) k = pre"
      and f: "\<forall>f \<in> set fs. passes E other m (k @ vals) f
             \<and> (\<forall>j < length syms. filter_safe (syms ! j) f (k ! (length pre + j)))" for k vals
  proof -
    define rest where "rest = drop (length pre) k"
    have ks: "k = pre @ rest" using k(3) unfolding rest_def by (metis append_take_drop_id)
    have len: "length rest = length syms" using k(2) assms(6) by (simp add: ks)
    have row: "(k @ vals) ! (length pre + j) = k ! (length pre + j)" "k ! (length pre + j) = rest ! j" if "j < length syms" for j
      using that len by (simp_all add: ks nth_append)
    have "length lo = length syms \<and> length up = length syms
      \<and> (\<forall>j < length syms. dv_le E (lo ! j) ((k @ vals) ! (length pre + j)) \<and> dv_le E ((k @ vals) ! (length pre + j)) (up ! j))"
      by (rule compute_bounds_sound [OF assms(1,3,7), where other = other]) (use f row(1) in simp)
    then have "list_all2 (dv_le E) lo rest" "list_all2 (dv_le E) rest up"
      using row len by (simp_all add: list_all2_conv_all_nth)
    then show ?thesis unfolding ks using bounded_range [of pre rest lo up E] k(1) assms(5) ks by simp
  qed
  have b: "bytes_le ?lo ?up" by (rule bounded_scan_bounds [OF assms(1,3,5)])
  have "\<exists>es. (if is_temp h then temp_range_scan (sess_temp tx) ?lo ?up else mem_range_scan (sess_store tx) ?lo ?up) = Some es
    \<and> bt_inv es \<and> (\<forall>k val. wf_tuple E k \<and> length pre \<le> length k
          \<and> (take (length pre) k = pre \<longrightarrow> in_range ?lo ?up (encode_as_key (rel_id h) k)) \<longrightarrow>
         ((encode_as_key (rel_id h) k, val) \<in> set es \<longleftrightarrow>
           raw_get h tx (encode_as_key (rel_id h) k) = Some val \<and> take (length pre) k = pre))"
    using temp.bounded_scan_entries [of "sess_temp tx" E pre "rel_id h" lo "up @ [Bot]"]
      mem.bounded_scan_entries [of "sess_store tx" E pre "rel_id h" lo "up @ [Bot]"] assms(1,2,4) b
    by (cases "is_temp h") (simp_all add: raw_get_def session_inv_def)
  then obtain es where es: "(if is_temp h then temp_range_scan (sess_temp tx) ?lo ?up else mem_range_scan (sess_store tx) ?lo ?up) = Some es"
    "bt_inv es" and mem: "\<And>k val. wf_tuple E k \<and> length pre \<le> length k
          \<and> (take (length pre) k = pre \<longrightarrow> in_range ?lo ?up (encode_as_key (rel_id h) k)) \<Longrightarrow>
         ((encode_as_key (rel_id h) k, val) \<in> set es \<longleftrightarrow>
           raw_get h tx (encode_as_key (rel_id h) k) = Some val \<and> take (length pre) k = pre)"
    by blast
  show ?thesis
  proof (intro exI [of _ es] conjI allI impI)
    show "scan_bounded_prefix E from_slice h tx pre lo up = Some (map (\<lambda>(k, v). try_decode_tuple_from_kv E from_slice k v) es)"
      unfolding scan_bounded_prefix_def route_scan_map es(1) by simp
    show "sorted_wrt bytes_less (map fst es)" using es(2) by (simp add: bt_inv_def)
  qed (rule mem, use r assms(6) in auto)
qed
text \<open>\<open>x >= true\<close> over the second key column.\<close>

definition sample_filter :: expr where
  "sample_filter = Apply ''OP_GE'' [Binding [120] None, Const (Bool True)]"

theorem bounded_scan_complete_witness:
  "\<exists>es. scan_bounded_prefix sample_ext (\<lambda>_. None) sample_keyed sample_session [Null] [Bool True] [Bot]
      = Some (map (\<lambda>(k, v). try_decode_tuple_from_kv sample_ext (\<lambda>_. None) k v) es)
    \<and> (encode_as_key 1 [Null, Bool True], []) \<in> set es"
proof -
  let ?m = "[[120] \<mapsto> 1] :: symbol \<Rightarrow> nat option"
  have c: "compute_bounds sample_ext [sample_filter] [[120]] = Inr ([Bool True], [Bot])"
    by (simp add: compute_bounds_def sample_filter_def against_def int_bound_def vr_merge_def vr_default_def
        vr_lower_bound_def dv_max_def dv_min_def cmp_of_def)
  have p: "passes sample_ext (\<lambda>_ _. Inl OpFailed) ?m ([Null, Bool True] @ []) sample_filter"
    by (simp add: passes_def sample_filter_def lookup_binding_def ensure_same_value_type_def by_number_other dv_le_refl)
  have f: "filter_safe [120] sample_filter x" for x
    by (simp add: sample_filter_def against_def)
  have g: "raw_get sample_keyed sample_session (encode_as_key (rel_id sample_keyed) [Null, Bool True]) = Some []"
    by (simp add: raw_get_def sample_handle_def sample_session_def bt_get_def)
  have k: "length (keys (metadata sample_keyed)) = 2" "rel_id sample_keyed = 1" by (simp_all add: sample_handle_def)
  have "session_inv sample_session" by (simp add: session_inv_def sample_session_def bt_inv_def)
  from bounded_scan_complete [OF sample_ext_ok this c, of "[Null]" sample_keyed ?m "\<lambda>_. None" "\<lambda>_ _. Inl OpFailed"]
  obtain es where es: "scan_bounded_prefix sample_ext (\<lambda>_. None) sample_keyed sample_session [Null] [Bool True] [Bot]
      = Some (map (\<lambda>(k, v). try_decode_tuple_from_kv sample_ext (\<lambda>_. None) k v) es)"
    and mem: "\<And>k vals val. wf_tuple sample_ext k \<and> list_all memcmp_ordered k \<and> length k = length (keys (metadata sample_keyed))
        \<and> (\<forall>f \<in> set [sample_filter]. passes sample_ext (\<lambda>_ _. Inl OpFailed) ?m (k @ vals) f
             \<and> (\<forall>j < length [[120 :: 8 word]]. filter_safe ([[120]] ! j) f (k ! (length [Null] + j)))) \<Longrightarrow>
         ((encode_as_key (rel_id sample_keyed) k, val) \<in> set es \<longleftrightarrow>
           raw_get sample_keyed sample_session (encode_as_key (rel_id sample_keyed) k) = Some val \<and> take (length [Null]) k = [Null])"
    using k(1) by auto
  have "(encode_as_key (rel_id sample_keyed) [Null, Bool True], []) \<in> set es"
    by (subst mem [where vals = "[]"]) (use p f g k in auto)
  then show ?thesis using es k(2) by auto
qed

text \<open>The filter \<open>v >= c\<close>.\<close>

definition at_least :: "symbol \<Rightarrow> number \<Rightarrow> expr" where
  "at_least v c = Apply ''OP_GE'' [Binding v None, Const (Num c)]"

lemma at_least_bounds:
  "compute_bounds E [at_least v c] [v] = Inr ([int_bound (Num c)], [Bot])"
proof -
  have "dv_le E Null (int_bound (Num c))" "dv_le E (int_bound (Num c)) Bot" by simp_all
  then show ?thesis
    by (cases "int_bound (Num c)")
      (auto simp: compute_bounds_def at_least_def against_def vr_merge_def vr_default_def vr_lower_bound_def
        dv_max_def dv_min_def cmp_of_def)
qed

lemma at_least_passes:
  "passes E other [v \<mapsto> length pre] (pre @ Num x # vals) (at_least v c) \<longleftrightarrow> at_most E (Num c) (Num x)"
  by (cases x; cases c) (auto simp: passes_def at_least_def lookup_binding_def at_most_def)

text \<open>Where the comparison with \<open>c\<close> holds and the stored order differs: minus zero against zero, and
  floats below every integer, where the bound saturates.\<close>

abbreviation minus_zero :: f64 where
  "minus_zero \<equiv> F64 0x8000000000000000"

fun lost :: "number \<Rightarrow> f64 \<Rightarrow> bool" where
  "lost (NInt i) x \<longleftrightarrow> i = 0 \<and> x = minus_zero"
| "lost (NFloat c) x \<longleftrightarrow> c = minus_zero \<and> x = minus_zero
     \<or> \<not> f64_is_nan c \<and> total_key c \<le> total_key x \<and> total_key x < total_key (i64_as_f64 I64_MIN)"

lemma total_key_least: "total_key (i64_as_f64 I64_MIN) = - (1086 * 2 ^ 52) - 1"
proof -
  have "ilog2 9223372036854775808 = 63" by (rule ilog2_eqI) simp_all
  then show ?thesis unfolding i64_as_f64_key by (simp add: I64_MIN_def nat_f64_mag_def round_half_even_def Let_def)
qed

lemma below_least_saturates:
  assumes "\<not> f64_is_nan c" "total_key c < total_key (i64_as_f64 I64_MIN)"
  shows "f64_is_integral c" "f64_as_i64 c = I64_MIN"
proof -
  let ?e = "f64_mag c div 2 ^ 52"
  have c: "f64_sign c" "1086 * 2 ^ 52 < f64_mag c"
    using assms(2) unfolding total_key_least by (auto simp: total_key_def split: if_splits)
  then have e: "1086 \<le> ?e" by (simp add: less_eq_div_iff_mult_less_eq)
  then show "f64_is_integral c" using assms(1) by (simp add: f64_is_integral_def Let_def)
  have "(2 :: nat) ^ 52 * 2 ^ 11 \<le> (2 ^ 52 + f64_mag c mod 2 ^ 52) * 2 ^ (?e - 1075)"
    by (intro mult_le_mono power_increasing) (use e in auto)
  then have "2 ^ 63 \<le> f64_trunc_mag c" using e by (simp add: f64_trunc_mag_def Let_def)
  then have "int (2 ^ 63) \<le> int (f64_trunc_mag c)" by (simp only: of_nat_le_iff)
  then show "f64_as_i64 c = I64_MIN" using assms(1) c(1) by (simp add: f64_as_i64_def Let_def I64_MIN_def)
qed

lemma lost_below:
  assumes "lost c x"
  shows "at_most E (Num c) (Num (NFloat x))" "dv_cmp E (int_bound (Num c)) (Num (NFloat x)) = Greater"
proof -
  have z: "total_key minus_zero = - 1" "total_key (i64_as_f64 0) = 0" "f64_as_i64 minus_zero = 0" "f64_is_integral minus_zero"
    "f64_le (i64_as_f64 0) minus_zero"
    by (simp_all add: total_key_def f64_sign_def f64_mag_def i64_as_f64_def nat_f64_mag_def f64_as_i64_def f64_trunc_mag_def
        f64_is_integral_def f64_is_nan_def f64_le_def ieee_key_def Let_def)
  show "at_most E (Num c) (Num (NFloat x))"
    using assms z by (cases c) (auto simp: at_most_num)
  have "\<exists>i. int_bound (Num c) = Num (NInt i) \<and> total_key x < total_key (i64_as_f64 i)"
    using assms z below_least_saturates by (cases c) (auto simp: int_bound_def)
  then show "dv_cmp E (int_bound (Num c)) (Num (NFloat x)) = Greater"
    by (auto simp: number_cmp_key total_cmp_def cmp_of_def)
qed

context store_tx
begin

lemma scan_from_above:
  assumes "inv tx" "bytes_le lo hi" "bytes_cmp lo k = Greater"
  shows "\<exists>es. range_scan tx lo hi = Some es \<and> k \<notin> fst ` set es"
proof -
  obtain es where es: "range_scan tx lo hi = Some es" using scan_view [OF assms(1,2)] by blast
  then show ?thesis using scan_entries [OF assms(1,2) es] assms(3) by (auto simp: in_range_def bytes_le_def)
qed

end

text \<open>C33. The bounds of \<open>v >= c\<close> lose rows where the comparison and the stored order differ: whatever
  the store holds, a bounded scan does not list the row with minus zero for \<open>v\<close> where \<open>c\<close> is the
  integer zero or minus zero, nor a row with a float below every 64-bit integer and not below the
  float \<open>c\<close>, though the filter lets these rows through.\<close>

theorem bounds_lose_rows:
  assumes "ext_ok E" "session_inv tx" "list_all memcmp_ordered pre" "lost c x"
  shows "passes E other [v \<mapsto> length pre] (pre @ Num (NFloat x) # vals) (at_least v c)
    \<and> (\<exists>lo up es. compute_bounds E [at_least v c] [v] = Inr (lo, up)
        \<and> scan_bounded_prefix E from_slice h tx pre lo up = Some (map (\<lambda>(k, v). try_decode_tuple_from_kv E from_slice k v) es)
        \<and> encode_as_key (rel_id h) (pre @ [Num (NFloat x)]) \<notin> fst ` set es)"
proof -
  let ?lo = "encode_as_key (rel_id h) (pre @ [int_bound (Num c)])" and ?up = "encode_as_key (rel_id h) (pre @ [Bot] @ [Bot])"
    and ?k = "encode_as_key (rel_id h) (pre @ [Num (NFloat x)])"
  have b: "memcmp_ordered (int_bound (Num c))" by (simp add: int_bound_def split: option.splits)
  have le: "bytes_le ?lo ?up" using bounded_scan_bounds [OF assms(1) at_least_bounds, of pre] assms(3) b by simp
  have gt: "bytes_cmp ?lo ?k = Greater"
    using dv_enc.enc_seq_cmp [of "[int_bound (Num c)]" "[Num (NFloat x)]" "[]" "[]" E] b lost_below(2) [OF assms(4), of E]
    by (simp add: encode_as_key_append)
  have "\<exists>es. (if is_temp h then temp_range_scan (sess_temp tx) ?lo ?up else mem_range_scan (sess_store tx) ?lo ?up) = Some es
      \<and> ?k \<notin> fst ` set es"
    using temp.scan_from_above [OF _ le gt] mem.scan_from_above [OF _ le gt] assms(2) by (simp add: session_inv_def)
  then show ?thesis
    using at_least_passes lost_below(1) [OF assms(4)] unfolding at_least_bounds scan_bounded_prefix_def route_scan_map by auto
qed

theorem bounds_lose_rows_witness:
  "let c = NFloat (F64 0xC6293E5939A08CEA); x = Num (NFloat (F64 0xC5208B2A2C280291)); key = encode_as_key 1 [Null, x];
       tx = \<lparr>sess_store = Writer [] [(key, Some [])], sess_temp = []\<rparr>
   in raw_get sample_keyed tx key = Some []
     \<and> passes sample_ext (\<lambda>_ _. Inl OpFailed) [[120] \<mapsto> 1] [Null, x] (at_least [120] c)
     \<and> (\<exists>lo up es. compute_bounds sample_ext [at_least [120] c] [[120]] = Inr (lo, up)
          \<and> scan_bounded_prefix sample_ext (\<lambda>_. None) sample_keyed tx [Null] lo up =
              Some (map (\<lambda>(k, v). try_decode_tuple_from_kv sample_ext (\<lambda>_. None) k v) es)
          \<and> key \<notin> fst ` set es)"
proof -
  let ?c = "F64 0xC6293E5939A08CEA" and ?x = "F64 0xC5208B2A2C280291"
  let ?key = "encode_as_key 1 [Null, Num (NFloat ?x)]"
  let ?tx = "\<lparr>sess_store = Writer [] [(?key, Some [])], sess_temp = []\<rparr>"
  have "lost (NFloat ?c) ?x"
    unfolding lost.simps total_key_least by (simp add: total_key_def f64_sign_def f64_mag_def f64_is_nan_def)
  moreover have "session_inv ?tx" by (simp add: session_inv_def bt_inv_def)
  moreover have "list_all memcmp_ordered [Null]" by simp
  moreover have g: "raw_get sample_keyed ?tx ?key = Some []" by (simp add: raw_get_def sample_handle_def bt_get_def)
  moreover have "rel_id sample_keyed = 1" by (simp add: sample_handle_def)
  ultimately show ?thesis
    using bounds_lose_rows [OF sample_ext_ok, of ?tx "[Null]" "NFloat ?c" ?x "\<lambda>_ _. Inl OpFailed" "[120]" "[]" "\<lambda>_. None" sample_keyed]
    unfolding Let_def by (simp only: list.size append.simps) auto
qed

end
