(* ===== verification/Spec2Isabelle.thy ===== *)
theory Spec2Isabelle
  imports Bitemporal Commit Stratify Bounds
begin

text \<open>
  Verification of the core of mnestic (\<open>cozo-core/src\<close>), a transactional database with Datalog
  queries, time travel over validity, and a bitemporal mode.  File names below are relative to
  \<open>cozo-core/src\<close>.

  \<^bold>\<open>How the parts interact.\<close>  A row is a tuple of values.  Its key columns are encoded to bytes that
  compare as the values do, behind the id of the relation; the rest is serialised as the value of
  the entry.  A storage engine is an ordered map from bytes to bytes with transactions.  Reads are
  range scans over the encoded keys; a time-travel read skips from version to version, and a
  bitemporal read resolves two time axes by probing the map.  Writes to bitemporal relations are buffered and stamped
  with a transaction time at commit, from a clock that survives restarts.  Queries are rules that
  are cut into strata before they are evaluated; their expressions are compiled to bytecode, their filters narrow
  the ranges that are scanned, and their heads may aggregate.

  \<^bold>\<open>The theories.\<close>

  \<^item> \<open>Prelude\<close>: types for machine integers and bytes, the three-way comparisons of Rust with the
    locales \<open>comparison\<close> (a total order) and \<open>order_encoding\<close> (an encoding that keeps it), list lemmas.
  \<^item> \<open>Floats\<close>: \<open>f64\<close> as its 64 bits, with the comparisons and conversions the code uses.
  \<^item> \<open>Values\<close> (\<open>data/value.rs\<close>): \<open>DataValue\<close>, \<open>Num\<close>, their orders and getters.  The order is
    total, and that of numbers is given by an exact key.
  \<^item> \<open>Memcmp\<close> (\<open>data/memcmp.rs\<close>): the key codec.  Decoding inverts encoding, terminates on every
    input, and the bytes order as the values, with the exceptions stated.
  \<^item> \<open>Tuples\<close> (\<open>data/tuple.rs\<close>, row decoding of \<open>runtime/relation.rs\<close>): keys of tuples, relation
    ids, and the error values the other theories return.
  \<^item> \<open>Btree\<close>, \<open>MemStore\<close> (\<open>storage/mem.rs\<close>, \<open>storage/temp.rs\<close>): the ordered map, and the two in-memory
    engines over it, behind the locale \<open>store_tx\<close> that both interpret: a write is what later reads
    see, a scan returns exactly the entries of its range in order.
  \<^item> \<open>SkipScan\<close> (\<open>storage/mem.rs\<close>): time-travel scans, also over the uncommitted writes of a
    transaction, shown to return the version visible at the time asked for;
    versions deleted in the transaction are the exception stated.
  \<^item> \<open>Columns\<close> (\<open>data/relation.rs\<close>, \<open>data/json.rs\<close>): column types and coercion.
  \<^item> \<open>Relations\<close> (\<open>runtime/relation.rs\<close>): handles, row encoding, get, put and the scans of stored and
    temporary relations.
  \<^item> \<open>Bitemporal\<close> (\<open>data/bitemporal.rs\<close>, \<open>storage/rocks.rs\<close>): the probe walk over two time axes, against
    the specification \<open>resolved\<close>; the locale \<open>range_probe\<close> is the map as the walk sees it, and the
    scanning and the hybrid RocksDB cursor both interpret it.
  \<^item> \<open>Commit\<close> (\<open>runtime/tt_clock.rs\<close>, \<open>runtime/transact.rs\<close>): the transaction-time clock, sequentially
    and as interleaved compare-and-exchange steps; stamping, commit, the persisted mark and
    reopening, as steps of a database with reachability.  What a row speaks about (\<open>row_fact\<close>) and the entry it is
    stored as (\<open>entry_of\<close>) are specified apart from the code.
  \<^item> \<open>Functions\<close> (\<open>data/functions.rs\<close>): the comparisons, connectives, type tests, and the interval, bit, byte
    and list functions, with the table that expressions call them through.
  \<^item> \<open>Exprs\<close> (\<open>data/expr.rs\<close>, \<open>parse/expr.rs\<close>): expressions with their evaluation and partial evaluation, the compiler
    to bytecode and the stack machine that runs it, shown to agree, and the bounds that a filter puts on a variable.
  \<^item> \<open>Bounds\<close>: filters, bounds and scans together: a scan narrowed by the bounds of its filters returns every row
    that passes them, outside of the exception stated.
  \<^item> \<open>Aggregates\<close> (\<open>data/aggr.rs\<close>): the meet operators of recursive rules, which settle; the ordinary aggregates as
    states with \<open>set\<close> and \<open>get\<close>; candidates, and Pareto dominance as a strict partial order.
  \<^item> \<open>Graphs\<close> (\<open>query/graph.rs\<close>): Tarjan's components, reachability, and the stratifying sort.
  \<^item> \<open>Stratify\<close> (\<open>query/stratify.rs\<close>): from a program in normal form to its strata and the lifetimes of its
    relations, against the specification \<open>uses\<close> and \<open>forbidden\<close> read off the program; rests on the three results of \<open>Graphs\<close>.

  \<^bold>\<open>Data.\<close>  \<open>i64\<close> and \<open>u64\<close> are 64-bit words, read as signed by \<open>sint\<close>; \<open>f64\<close> is its bit pattern; byte
  strings are lists of 8-bit words; strings, JSON values and regular expressions are their bytes.
  A \<open>BTreeMap\<close> is an association list in key order, a \<open>BTreeSet\<close> a list in order.  Results are sums with
  the error on the left; a panic is \<open>Panic\<close> or \<open>None\<close>.

  \<^bold>\<open>Parameters.\<close>  Code outside the repository is an argument: the record \<open>ext\<close> (float order, JSON text,
  regular expressions) under \<open>ext_ok\<close>; \<open>from_slice\<close> and \<open>to_vec\<close>, the
  MessagePack serialiser; \<open>col_lib\<close>, the decoders behind coercion; \<open>db_ops\<close>, the RocksDB iterator, under
  \<open>db_iter_ok\<close>; \<open>f64_ops\<close>, the arithmetic of the machine on floats and the draws of the random generator.  The functions of
  the query language without a definition in \<open>Functions\<close> are an arbitrary function \<open>other\<close> of their name and arguments, so that those that draw random numbers or
  read the clock are outside what is shown of expressions.  The
  samples instantiate each of them.

  \<^bold>\<open>Fuel.\<close>  Loops that move a cursor through a store, and recursions over graphs, carry a counter.  The
  theorems state how much is enough: more than the number of rows for a skip scan, four turns per row and three more for each
  step of the bitemporal walk, one unit per node for the searches.  Decoding a key carries a bound on its nesting, and running out of it
  is an outcome apart from a panic; twice the number of bytes is shown to be enough.  The stack machine is a partial function, and compiled code is shown to
  return.

  \<^bold>\<open>Not modelled.\<close>  The parsers (their grammar is compiled by an external crate), the Cypher front end, the
  functions over float arithmetic, JSON, regular expressions, Unicode tables and vectors, relational operators, the
  evaluation of rules with its stores, program rewriting between
  stratification and evaluation, triggers and index maintenance, the vector, text and hash indexes,
  graph projections and columnar import, fixed rules, the other storage engines (adapters of external
  stores), and the server and language bindings, which are input and output.  Within the modelled
  files: display and serialisation for people, logging, cancellation flags and metrics.
\<close>

end
